(* ===== verification/Prelude.thy ===== *)
theory Prelude
  imports Main "HOL-Library.Word" "HOL-Library.Monad_Syntax"
begin

text \<open>
  Shared vocabulary of the development.

  A C statement that dereferences NULL or freed memory, reads outside an array or reads
  the wrong member of a union has no defined behaviour. Every operation of the model
  therefore returns an \<open>option\<close>: \<open>None\<close> is undefined behaviour (or a loop that
  does not end), \<open>Some\<close> is a defined outcome, error returns included. The hardware
  header, which is not part of the repository, is the record \<open>hw\<close> of constants: an
  argument of every operation that uses one of them.
\<close>

section \<open>Result plumbing\<close>

named_theorems defs \<open>definitions of the model that proofs unfold by default\<close>

type_synonym u32 = "32 word"
type_synonym u8 = "8 word"

definition guard :: "bool \<Rightarrow> unit option" where
  "guard b = (if b then Some () else None)"

lemma guard_simps [simp]:
  "guard True = Some ()"
  "guard False = None"
  "(guard b = Some u) = b"
  "(guard b = None) = (\<not> b)"
  by (simp_all add: guard_def)

lemma guard_bind [simp]: "b \<Longrightarrow> guard b \<bind> f = f ()"
  by (simp add: guard_def)

text \<open>The largest value of an \<open>int\<close>; to go beyond it is undefined.\<close>

definition INT_MAX :: int where
  "INT_MAX = 2147483647"

text \<open>Array accesses: an \<open>int\<close> index outside the array is undefined.\<close>

definition arr_get :: "'a list \<Rightarrow> int \<Rightarrow> 'a option" where
  "arr_get xs i = (if 0 \<le> i \<and> i < int (length xs) then Some (xs ! nat i) else None)"

definition arr_set :: "'a list \<Rightarrow> int \<Rightarrow> 'a \<Rightarrow> 'a list option" where
  "arr_set xs i v = (if 0 \<le> i \<and> i < int (length xs) then Some (xs[nat i := v]) else None)"

lemma arr_get_nat [simp]: "i < length xs \<Longrightarrow> arr_get xs (int i) = Some (xs ! i)"
  by (simp add: arr_get_def)

lemma arr_set_nat [simp]: "i < length xs \<Longrightarrow> arr_set xs (int i) v = Some (xs[i := v])"
  by (simp add: arr_set_def)

lemma arr_get_SomeD: "arr_get xs i = Some v \<Longrightarrow> 0 \<le> i \<and> nat i < length xs \<and> v = xs ! nat i"
  by (auto simp: arr_get_def split: if_splits)

lemma arr_set_SomeD:
  "arr_set xs i v = Some ys \<Longrightarrow> 0 \<le> i \<and> nat i < length xs \<and> ys = xs[nat i := v]"
  by (auto simp: arr_set_def split: if_splits)

lemma arr_set_length [simp]: "arr_set xs i v = Some ys \<Longrightarrow> length ys = length xs"
  by (auto dest: arr_set_SomeD)

text \<open>Generic list facts the components share.\<close>

lemma remove1_append_notin [simp]: "x \<notin> set xs \<Longrightarrow> remove1 x (xs @ x # ys) = xs @ ys"
  by (induction xs) auto

lemma distinct_middle: "distinct (xs @ x # ys) \<Longrightarrow> x \<notin> set xs \<and> x \<notin> set ys"
  by auto

text \<open>A loop counter below its bound does not wrap.\<close>

lemma unat_suc_below:
  fixes i j :: "'a::len word"
  assumes "i < j"
  shows "unat (i + 1) = Suc (unat i)"
proof -
  have "unat i < unat j" using assms by (simp add: word_less_nat_alt)
  moreover have "unat j < 2 ^ LENGTH('a)" by (rule unsigned_less)
  ultimately have "Suc (unat i) < 2 ^ LENGTH('a)" by linarith
  then show ?thesis by (simp add: unat_word_ariths(1))
qed

lemma word_loop_measure:
  fixes i j :: "'a::len word"
  assumes "i < j"
  shows "unat j - unat (i + 1) < unat j - unat i"
  using assms unat_suc_below [OF assms] by (simp add: word_less_nat_alt)

text \<open>A signed reading that is not negative is the unsigned one.\<close>

lemma sint_nonneg: "sint (x::32 word) = uint x" if "0 \<le> sint x"
proof -
  have s: "sint x = signed_take_bit 31 (uint x)" by (simp add: sint_uint)
  then have nb: "\<not> bit (uint x) 31" using that by (simp add: signed_take_bit_negative_iff not_less [symmetric] del: signed_take_bit_nonnegative_iff)
  have "take_bit 31 (uint x) = uint x"
  proof (rule bit_eqI)
    fix n
    have "n < 31" if "bit (uint x) n"
    proof (rule ccontr)
      assume "\<not> n < 31"
      moreover have "n < 32" using that by (simp add: bit_uint_iff)
      ultimately have "n = 31" by simp
      with nb that show False by simp
    qed
    then show "bit (take_bit 31 (uint x)) n = bit (uint x) n" by (auto simp: bit_take_bit_iff)
  qed
  then show ?thesis using s nb by (simp add: signed_take_bit_eq_if_positive)
qed

text \<open>Unsigned readings of sums, products and powers that do not wrap.\<close>

lemma unat_of_nat_small: "k < 2 ^ 32 \<Longrightarrow> unat (word_of_nat k :: u32) = k"
  by (simp add: unsigned_of_nat take_bit_nat_eq_self)

lemma unat_plus_small: "unat (x :: u32) + k < 2 ^ 32 \<Longrightarrow> unat (x + of_nat k) = unat x + k"
  by (simp add: unat_word_ariths unsigned_of_nat take_bit_nat_eq_self)

lemma unat_limit: "unat (x :: u32) < 2 ^ 32"
proof -
  have "unat x < 2 ^ LENGTH(32)" by (rule unsigned_less)
  then show ?thesis by simp
qed

lemma unat_power_small:
  assumes "2 ^ n < (2 ^ 32 :: nat)"
  shows "unat (2 ^ n :: u32) = 2 ^ n"
proof -
  have "(2 ^ n :: u32) = word_of_nat (2 ^ n)" by simp
  then show ?thesis using unat_of_nat_small [OF assms] by simp
qed

section \<open>The hardware and library constants the kernel is compiled against\<close>

text \<open>
  \<open>hardware.h\<close>, \<open>yalnix.h\<close> and \<open>ykernel.h\<close> come with the Yalnix framework. Only
  the names are visible in the repository, so their values are fields of a record.
\<close>

datatype syscall =
    YALNIX_FORK | YALNIX_EXEC | YALNIX_EXIT | YALNIX_WAIT | YALNIX_GETPID | YALNIX_BRK | YALNIX_DELAY
  | YALNIX_TTY_READ | YALNIX_TTY_WRITE | YALNIX_PIPE_INIT | YALNIX_PIPE_READ | YALNIX_PIPE_WRITE
  | YALNIX_LOCK_INIT | YALNIX_LOCK_ACQUIRE | YALNIX_LOCK_RELEASE | YALNIX_CVAR_INIT | YALNIX_CVAR_SIGNAL
  | YALNIX_CVAR_BROADCAST | YALNIX_CVAR_WAIT | YALNIX_RECLAIM

datatype trap =
    TRAP_KERNEL | TRAP_CLOCK | TRAP_ILLEGAL | TRAP_MEMORY | TRAP_MATH | TRAP_TTY_RECEIVE | TRAP_TTY_TRANSMIT

text \<open>
  \<open>YALNIX\<close> and \<open>TRAP\<close> give the values of the macros whose names are the constructors
  above: system call numbers and indices of the interrupt vector.
\<close>

record hw =
  ERROR :: int
  SUCCESS :: int
  KILL :: int
  PAGESHIFT :: nat
  PAGESIZE :: u32
  UP_TO_PAGE :: "u32 \<Rightarrow> u32"
  DOWN_TO_PAGE :: "u32 \<Rightarrow> u32"
  MAX_PT_LEN :: nat
  NUM_VPN :: nat
  KERNEL_STACK_BASE :: u32
  KERNEL_STACK_LIMIT :: u32
  KERNEL_STACK_MAXSIZE :: u32
  VMEM_0_LIMIT :: u32
  VMEM_1_BASE :: u32
  VMEM_1_LIMIT :: u32
  VMEM_1_SIZE :: u32
  PROT_READ :: "3 word"
  PROT_WRITE :: "3 word"
  PROT_EXEC :: "3 word"
  PIPE_BUFFER_LEN :: int
  first_kernel_data_page :: u32
  enc_int :: "u32 \<Rightarrow> u8 list"
  dec_int :: "u8 list \<Rightarrow> u32"
  VMEM_REGION_SIZE :: u32
  TRAP_VECTOR_SIZE :: nat
  TRAP :: "trap \<Rightarrow> nat"
  YALNIX :: "syscall \<Rightarrow> int"
  YALNIX_PREFIX :: int
  INITIAL_STACK_FRAME_SIZE :: u32
  POST_ARGV_NULL_SPACE :: nat

text \<open>
  What the repository documents of them. \<open>frames.h\<close> says -1 for \<open>ERROR\<close>, \<open>memory.h\<close>
  and \<open>pcb.c\<close> use 0 for success. \<open>Documentation/Yalnix Reqs.md\<close> says that
  \<open>PAGESHIFT\<close> is the binary logarithm of \<open>PAGESIZE\<close>. An \<open>int\<close> is stored in
  memory as four bytes, in whatever order the machine uses. The page tables are not empty
  and a pipe can hold at least one byte.
\<close>

definition hw_ok :: "hw \<Rightarrow> bool" where
  "hw_ok H \<longleftrightarrow> ERROR H = -1 \<and> SUCCESS H = 0 \<and> PAGESHIFT H < 32 \<and> PAGESIZE H = 2 ^ PAGESHIFT H
     \<and> 0 < MAX_PT_LEN H \<and> 0 < NUM_VPN H \<and> NUM_VPN H \<le> 2 ^ 24 \<and> 0 < PIPE_BUFFER_LEN H
     \<and> (\<forall>w. length (enc_int H w) = 4 \<and> dec_int H (enc_int H w) = w)"

lemma hw_okD:
  assumes "hw_ok H"
  shows "ERROR H = -1" "SUCCESS H = 0" "PAGESHIFT H < 32" "PAGESIZE H = 2 ^ PAGESHIFT H"
    "0 < MAX_PT_LEN H" "0 < NUM_VPN H" "NUM_VPN H \<le> 2 ^ 24"
    "0 < PIPE_BUFFER_LEN H" "length (enc_int H w) = 4" "dec_int H (enc_int H w) = w"
  using assms by (auto simp: hw_ok_def)

text \<open>A small machine for the witnesses: pages of 16 bytes, eight pages per region.\<close>

definition demo_enc :: "u32 \<Rightarrow> u8 list" where
  "demo_enc w = [ucast w, ucast (drop_bit 8 w), ucast (drop_bit 16 w), ucast (drop_bit 24 w)]"

definition demo_dec :: "u8 list \<Rightarrow> u32" where
  "demo_dec bs = (case bs of [a, b, c, d] \<Rightarrow>
     or (ucast a) (or (push_bit 8 (ucast b)) (or (push_bit 16 (ucast c)) (push_bit 24 (ucast d)))) | _ \<Rightarrow> 0)"

definition demo_trap :: "trap \<Rightarrow> nat" where
  "demo_trap t = (case t of TRAP_KERNEL \<Rightarrow> 0 | TRAP_CLOCK \<Rightarrow> 1 | TRAP_ILLEGAL \<Rightarrow> 2 | TRAP_MEMORY \<Rightarrow> 3
     | TRAP_MATH \<Rightarrow> 4 | TRAP_TTY_RECEIVE \<Rightarrow> 5 | TRAP_TTY_TRANSMIT \<Rightarrow> 6)"

definition demo_code :: "syscall \<Rightarrow> int" where
  "demo_code c = 256 + (case c of YALNIX_FORK \<Rightarrow> 1 | YALNIX_EXEC \<Rightarrow> 2 | YALNIX_EXIT \<Rightarrow> 3 | YALNIX_WAIT \<Rightarrow> 4
     | YALNIX_GETPID \<Rightarrow> 5 | YALNIX_BRK \<Rightarrow> 6 | YALNIX_DELAY \<Rightarrow> 7 | YALNIX_TTY_READ \<Rightarrow> 8 | YALNIX_TTY_WRITE \<Rightarrow> 9
     | YALNIX_PIPE_INIT \<Rightarrow> 10 | YALNIX_PIPE_READ \<Rightarrow> 11 | YALNIX_PIPE_WRITE \<Rightarrow> 12 | YALNIX_LOCK_INIT \<Rightarrow> 13
     | YALNIX_LOCK_ACQUIRE \<Rightarrow> 14 | YALNIX_LOCK_RELEASE \<Rightarrow> 15 | YALNIX_CVAR_INIT \<Rightarrow> 16 | YALNIX_CVAR_SIGNAL \<Rightarrow> 17
     | YALNIX_CVAR_BROADCAST \<Rightarrow> 18 | YALNIX_CVAR_WAIT \<Rightarrow> 19 | YALNIX_RECLAIM \<Rightarrow> 20)"

definition demo_hw :: hw where
  "demo_hw = \<lparr>ERROR = -1, SUCCESS = 0, KILL = -2, PAGESHIFT = 4, PAGESIZE = 16,
     UP_TO_PAGE = (\<lambda>a. push_bit 4 (drop_bit 4 (a + 15))),
     DOWN_TO_PAGE = (\<lambda>a. push_bit 4 (drop_bit 4 a)),
     MAX_PT_LEN = 8, NUM_VPN = 16,
     KERNEL_STACK_BASE = 96, KERNEL_STACK_LIMIT = 128, KERNEL_STACK_MAXSIZE = 32,
     VMEM_0_LIMIT = 128, VMEM_1_BASE = 128, VMEM_1_LIMIT = 256, VMEM_1_SIZE = 128,
     PROT_READ = 1, PROT_WRITE = 2, PROT_EXEC = 4, PIPE_BUFFER_LEN = 4,
     first_kernel_data_page = 1, enc_int = demo_enc, dec_int = demo_dec,
     VMEM_REGION_SIZE = 128, TRAP_VECTOR_SIZE = 8, TRAP = demo_trap, YALNIX = demo_code, YALNIX_PREFIX = 256,
     INITIAL_STACK_FRAME_SIZE = 8, POST_ARGV_NULL_SPACE = 1\<rparr>"

lemma demo_hw_simps [simp]:
  "ERROR demo_hw = -1" "SUCCESS demo_hw = 0" "KILL demo_hw = -2" "PAGESHIFT demo_hw = 4"
  "PAGESIZE demo_hw = 16" "UP_TO_PAGE demo_hw a = push_bit 4 (drop_bit 4 (a + 15))"
  "DOWN_TO_PAGE demo_hw a = push_bit 4 (drop_bit 4 a)"
  "MAX_PT_LEN demo_hw = 8" "NUM_VPN demo_hw = 16" "KERNEL_STACK_BASE demo_hw = 96"
  "KERNEL_STACK_LIMIT demo_hw = 128" "KERNEL_STACK_MAXSIZE demo_hw = 32"
  "VMEM_0_LIMIT demo_hw = 128" "VMEM_1_BASE demo_hw = 128" "VMEM_1_LIMIT demo_hw = 256"
  "VMEM_1_SIZE demo_hw = 128" "PROT_READ demo_hw = 1" "PROT_WRITE demo_hw = 2"
  "PROT_EXEC demo_hw = 4" "PIPE_BUFFER_LEN demo_hw = 4" "first_kernel_data_page demo_hw = 1"
  "enc_int demo_hw = demo_enc" "dec_int demo_hw = demo_dec"
  "VMEM_REGION_SIZE demo_hw = 128" "TRAP_VECTOR_SIZE demo_hw = 8" "TRAP demo_hw = demo_trap"
  "YALNIX demo_hw = demo_code" "YALNIX_PREFIX demo_hw = 256" "INITIAL_STACK_FRAME_SIZE demo_hw = 8"
  "POST_ARGV_NULL_SPACE demo_hw = 1"
  by (simp_all add: demo_hw_def)

lemma demo_dec_enc: "demo_dec (demo_enc w) = w"
proof (rule bit_word_eqI)
  fix n assume n: "n < LENGTH(32)"
  consider "n < 8" | "8 \<le> n" "n < 16" | "16 \<le> n" "n < 24" | "24 \<le> n" by linarith
  then show "bit (demo_dec (demo_enc w)) n = bit w n"
    by cases (use n in \<open>auto simp: demo_dec_def demo_enc_def bit_simps\<close>)
qed

lemma demo_hw_ok [simp]: "hw_ok demo_hw"
  by (simp add: hw_ok_def demo_dec_enc) (simp add: demo_enc_def)

text \<open>
  \<open>Halt()\<close> stops the processor: an operation that may halt returns \<open>Halted\<close> instead
  of a value.
\<close>

datatype 'a run = Halted | Ret 'a

end
