(* ===== verification/Queue_Store.thy ===== *)
theory Queue_Store
  imports Prelude
begin

text \<open>
  The contract the kernel relies on when it moves processes between queues: a store of
  disjoint FIFO queues. \<open>list.c\<close> provides it (theory \<open>DList\<close>), the scheduler, the locks,
  the condition variables and the pipes are its clients. The laws speak about a ghost map
  \<open>Q\<close> from queues to the sequences they hold.
\<close>

definition queued :: "('l \<rightharpoonup> 'e list) \<Rightarrow> 'e set" where
  "queued Q = {x. \<exists>l xs. Q l = Some xs \<and> x \<in> set xs}"

lemma queuedI [intro]: "Q l = Some xs \<Longrightarrow> x \<in> set xs \<Longrightarrow> x \<in> queued Q"
  by (auto simp: queued_def)

lemma queued_upd:
  "x \<in> queued (Q(l \<mapsto> ys)) \<longleftrightarrow> x \<in> set ys \<or> (\<exists>l' xs. l' \<noteq> l \<and> Q l' = Some xs \<and> x \<in> set xs)"
  by (auto simp: queued_def)

lemma queued_upd_subset: "queued (Q(l \<mapsto> ys)) \<subseteq> queued Q \<union> set ys"
  by (auto simp: queued_def split: if_splits)

text \<open>Membership in one queue of the collection, and how the updates of one queue change it.\<close>

definition in_q :: "('l \<rightharpoonup> 'e list) \<Rightarrow> 'e \<Rightarrow> 'l \<Rightarrow> bool" where
  "in_q Q e l \<longleftrightarrow> (\<exists>xs. Q l = Some xs \<and> e \<in> set xs)"

lemma in_qI [intro]: "Q l = Some xs \<Longrightarrow> e \<in> set xs \<Longrightarrow> in_q Q e l"
  by (auto simp: in_q_def)

lemma queued_in_q: "e \<in> queued Q \<longleftrightarrow> (\<exists>l. in_q Q e l)"
  by (auto simp: queued_def in_q_def)

lemma in_q_append: "Q l = Some xs \<Longrightarrow> in_q (Q(l \<mapsto> xs @ [e])) e' l' \<longleftrightarrow> in_q Q e' l' \<or> (e' = e \<and> l' = l)"
  by (auto simp: in_q_def)

lemma in_q_cons: "Q l = Some xs \<Longrightarrow> in_q (Q(l \<mapsto> e # xs)) e' l' \<longleftrightarrow> in_q Q e' l' \<or> (e' = e \<and> l' = l)"
  by (auto simp: in_q_def)

lemma in_q_remove: "Q l = Some xs \<Longrightarrow> set ys = set xs - {e} \<Longrightarrow>
    in_q (Q(l \<mapsto> ys)) e' l' \<longleftrightarrow> in_q Q e' l' \<and> \<not> (e' = e \<and> l' = l)"
  by (auto simp: in_q_def)

lemma in_q_new: "Q l = None \<Longrightarrow> in_q (Q(l \<mapsto> [])) e l' \<longleftrightarrow> in_q Q e l'"
  by (auto simp: in_q_def)

locale queue_store =
  fixes ok :: "'h \<Rightarrow> ('l \<rightharpoonup> 'e list) \<Rightarrow> bool"
    and live :: "'h \<Rightarrow> 'e \<Rightarrow> bool"
    and ref :: "'e \<Rightarrow> 'p"
    and enq :: "'l \<Rightarrow> 'p \<Rightarrow> 'h \<Rightarrow> 'h option"
    and deq :: "'l \<Rightarrow> 'h \<Rightarrow> ('p option \<times> 'h) option"
    and del :: "'l \<Rightarrow> 'p \<Rightarrow> 'h \<Rightarrow> 'h option"
  assumes ok_distinct: "ok h Q \<Longrightarrow> Q l = Some xs \<Longrightarrow> distinct xs"
    and ok_disjoint: "ok h Q \<Longrightarrow> Q l = Some xs \<Longrightarrow> Q l' = Some ys \<Longrightarrow> l \<noteq> l' \<Longrightarrow> set xs \<inter> set ys = {}"
    and queued_live: "ok h Q \<Longrightarrow> e \<in> queued Q \<Longrightarrow> live h e"
    and enq_law: "ok h Q \<Longrightarrow> Q l = Some xs \<Longrightarrow> e \<notin> queued Q \<Longrightarrow> live h e \<Longrightarrow>
      \<exists>h'. enq l (ref e) h = Some h' \<and> ok h' (Q(l \<mapsto> xs @ [e])) \<and> (\<forall>e. live h' e = live h e)"
    and deq_empty_law: "ok h Q \<Longrightarrow> Q l = Some [] \<Longrightarrow> deq l h = Some (None, h)"
    and deq_law: "ok h Q \<Longrightarrow> Q l = Some (e # xs) \<Longrightarrow>
      \<exists>h'. deq l h = Some (Some (ref e), h') \<and> ok h' (Q(l \<mapsto> xs)) \<and> (\<forall>e. live h' e = live h e)"
    and del_law: "ok h Q \<Longrightarrow> Q l = Some xs \<Longrightarrow> e \<in> set xs \<Longrightarrow>
      \<exists>h'. del l (ref e) h = Some h' \<and> ok h' (Q(l \<mapsto> remove1 e xs)) \<and> (\<forall>e. live h' e = live h e)"
begin

lemma unqueued_after_removal:
  assumes "ok h Q" "Q l = Some xs" "e \<in> set xs" "e \<notin> set ys"
  shows "e \<notin> queued (Q(l \<mapsto> ys))"
proof
  assume "e \<in> queued (Q(l \<mapsto> ys))"
  then have "e \<in> set ys \<or> (\<exists>l' zs. l' \<noteq> l \<and> Q l' = Some zs \<and> e \<in> set zs)"
    by (simp only: queued_upd)
  then obtain l' zs where z: "l' \<noteq> l" "Q l' = Some zs" "e \<in> set zs" using assms(4) by blast
  have "set xs \<inter> set zs = {}" using ok_disjoint [OF assms(1,2) z(2)] z(1) by simp
  with assms(3) z(3) show False by blast
qed

lemma in_q_unique: "ok h Q \<Longrightarrow> in_q Q e l \<Longrightarrow> in_q Q e l' \<Longrightarrow> l' = l"
  unfolding in_q_def using ok_disjoint by blast

lemma member_live: "ok h Q \<Longrightarrow> Q l = Some xs \<Longrightarrow> e \<in> set xs \<Longrightarrow> live h e"
  by (rule queued_live [OF _ queuedI])

text \<open>Waking the process at the head of one queue: it goes to the tail of another.\<close>

lemma wake_head:
  assumes ok: "ok h Q" and l: "Q l = Some (e # xs)" and r: "Q r = Some ys" and ne: "l \<noteq> r"
  shows "\<exists>h1 h2. deq l h = Some (Some (ref e), h1) \<and> ok h1 (Q(l \<mapsto> xs))
    \<and> enq r (ref e) h1 = Some h2 \<and> ok h2 (Q(l \<mapsto> xs, r \<mapsto> ys @ [e]))
    \<and> (\<forall>e. live h1 e = live h e) \<and> (\<forall>e. live h2 e = live h e)"
proof -
  obtain h1 where h1: "deq l h = Some (Some (ref e), h1)" "ok h1 (Q(l \<mapsto> xs))"
    "\<forall>e. live h1 e = live h e"
    using deq_law [OF ok l] by blast
  have "e \<notin> queued (Q(l \<mapsto> xs))"
    using unqueued_after_removal [OF ok l, of e xs] ok_distinct [OF ok l] by auto
  moreover have "live h1 e" using h1(3) member_live [OF ok l, of e] by simp
  moreover have "(Q(l \<mapsto> xs)) r = Some ys" using r ne by simp
  ultimately obtain h2 where "enq r (ref e) h1 = Some h2" "ok h2 (Q(l \<mapsto> xs, r \<mapsto> ys @ [e]))"
    "\<forall>e. live h2 e = live h1 e"
    using enq_law [OF h1(2)] by blast
  with h1 show ?thesis by auto
qed

text \<open>Moving a process from anywhere in one queue to the tail of another.\<close>

lemma move:
  assumes ok: "ok h Q" and l: "Q l = Some xs" and e: "e \<in> set xs" and r: "Q r = Some ys" and ne: "l \<noteq> r"
  shows "\<exists>h1 h2. del l (ref e) h = Some h1 \<and> ok h1 (Q(l \<mapsto> remove1 e xs))
    \<and> enq r (ref e) h1 = Some h2 \<and> ok h2 (Q(l \<mapsto> remove1 e xs, r \<mapsto> ys @ [e]))
    \<and> (\<forall>e. live h1 e = live h e) \<and> (\<forall>e. live h2 e = live h e)"
proof -
  obtain h1 where h1: "del l (ref e) h = Some h1" "ok h1 (Q(l \<mapsto> remove1 e xs))"
    "\<forall>e. live h1 e = live h e"
    using del_law [OF ok l e] by blast
  have "e \<notin> queued (Q(l \<mapsto> remove1 e xs))"
    using unqueued_after_removal [OF ok l e] ok_distinct [OF ok l] by simp
  moreover have "live h1 e" using h1(3) member_live [OF ok l e] by simp
  moreover have "(Q(l \<mapsto> remove1 e xs)) r = Some ys" using r ne by simp
  ultimately obtain h2 where "enq r (ref e) h1 = Some h2"
    "ok h2 (Q(l \<mapsto> remove1 e xs, r \<mapsto> ys @ [e]))" "\<forall>e. live h2 e = live h1 e"
    using enq_law [OF h1(2)] by blast
  with h1 show ?thesis by auto
qed

text \<open>An enqueue followed by as many dequeues as there are elements is FIFO.\<close>

fun deqs :: "nat \<Rightarrow> 'l \<Rightarrow> 'h \<Rightarrow> ('p list \<times> 'h) option" where
  "deqs 0 l h = Some ([], h)"
| "deqs (Suc n) l h = do {
     (p, h) \<leftarrow> deq l h;
     p \<leftarrow> p;
     (ps, h) \<leftarrow> deqs n l h;
     Some (p # ps, h) }"

lemma deqs_fifo:
  assumes "ok h Q" "Q l = Some (xs @ ys)"
  shows "\<exists>h'. deqs (length xs) l h = Some (map ref xs, h') \<and> ok h' (Q(l \<mapsto> ys))"
  using assms
proof (induction xs arbitrary: h Q)
  case Nil
  then have "Q(l \<mapsto> ys) = Q" by auto
  with Nil show ?case by simp
next
  case (Cons x xs)
  obtain h1 where h1: "deq l h = Some (Some (ref x), h1)" "ok h1 (Q(l \<mapsto> xs @ ys))"
    using deq_law [OF Cons.prems(1), of l x "xs @ ys"] Cons.prems(2) by auto
  obtain h2 where h2: "deqs (length xs) l h1 = Some (map ref xs, h2)" "ok h2 (Q(l \<mapsto> ys))"
    using Cons.IH [OF h1(2) fun_upd_same] by (auto simp only: fun_upd_upd)
  have "deqs (length (x # xs)) l h = Some (map ref (x # xs), h2)" using h1(1) h2(1) by simp
  with h2(2) show ?case by blast
qed

end

end
