(* ===== verification/DList.thy ===== *)
theory DList
  imports Queue_Store
begin

text \<open>
  The intrusive doubly linked list of \<open>list.c\<close>.

  A node is either the sentinel inside a \<open>list_t\<close> or an element node embedded in some
  structure. The heap maps each allocated node to its two pointers and each allocated
  \<open>list_t\<close> to its \<open>count\<close>; NULL is \<open>None\<close>. The operations write the pointers one by
  one in the order of the C code. The abstraction \<open>lists_ok h Q\<close> says that the heap
  holds, for every list \<open>l\<close> in \<open>dom Q\<close>, exactly the sequence \<open>Q l\<close>, and that no
  node is in two lists; each operation is shown to act on \<open>Q\<close> as on plain lists.
\<close>

section \<open>Data\<close>

datatype ('l, 'e) node = Sentinel 'l | Elem 'e

record ('l, 'e) lheap =
  prevs :: "('l, 'e) node \<rightharpoonup> ('l, 'e) node option"
  nexts :: "('l, 'e) node \<rightharpoonup> ('l, 'e) node option"
  counts :: "'l \<rightharpoonup> int"

type_synonym ('l, 'e) ptr = "('l, 'e) node option"

text \<open>Field reads and writes through a pointer; NULL and freed nodes are undefined.\<close>

definition get_prev :: "('l, 'e) ptr \<Rightarrow> ('l, 'e) lheap \<Rightarrow> ('l, 'e) ptr option" where
  "get_prev p h = do { n \<leftarrow> p; prevs h n }"

definition get_next :: "('l, 'e) ptr \<Rightarrow> ('l, 'e) lheap \<Rightarrow> ('l, 'e) ptr option" where
  "get_next p h = do { n \<leftarrow> p; nexts h n }"

definition set_prev ::
  "('l, 'e) ptr \<Rightarrow> ('l, 'e) ptr \<Rightarrow> ('l, 'e) lheap \<Rightarrow> ('l, 'e) lheap option" where
  "set_prev p v h = do { n \<leftarrow> p; _ \<leftarrow> prevs h n; Some (h\<lparr>prevs := (prevs h)(n \<mapsto> v)\<rparr>) }"

definition set_next ::
  "('l, 'e) ptr \<Rightarrow> ('l, 'e) ptr \<Rightarrow> ('l, 'e) lheap \<Rightarrow> ('l, 'e) lheap option" where
  "set_next p v h = do { n \<leftarrow> p; _ \<leftarrow> nexts h n; Some (h\<lparr>nexts := (nexts h)(n \<mapsto> v)\<rparr>) }"

definition add_count :: "'l \<Rightarrow> int \<Rightarrow> ('l, 'e) lheap \<Rightarrow> ('l, 'e) lheap option" where
  "add_count l d h = do { c \<leftarrow> counts h l; Some (h\<lparr>counts := (counts h)(l \<mapsto> c + d)\<rparr>) }"

text \<open>
  Allocation and release of the memory a list or an element node lives in. \<open>malloc\<close>
  leaves arbitrary bytes there: the record \<open>junk\<close>.
\<close>

record ('l, 'e) junk =
  junk_prev :: "('l, 'e) node option"
  junk_next :: "('l, 'e) node option"
  junk_count :: int

definition alloc_list :: "'l \<Rightarrow> ('l, 'e) junk \<Rightarrow> ('l, 'e) lheap \<Rightarrow> ('l, 'e) lheap" where
  "alloc_list l j h =
     h\<lparr>prevs := (prevs h)(Sentinel l \<mapsto> junk_prev j),
       nexts := (nexts h)(Sentinel l \<mapsto> junk_next j),
       counts := (counts h)(l \<mapsto> junk_count j)\<rparr>"

definition free_list :: "'l \<Rightarrow> ('l, 'e) lheap \<Rightarrow> ('l, 'e) lheap" where
  "free_list l h =
     h\<lparr>prevs := (prevs h)(Sentinel l := None), nexts := (nexts h)(Sentinel l := None),
       counts := (counts h)(l := None)\<rparr>"

definition alloc_elem :: "'e \<Rightarrow> ('l, 'e) junk \<Rightarrow> ('l, 'e) lheap \<Rightarrow> ('l, 'e) lheap" where
  "alloc_elem e j h =
     h\<lparr>prevs := (prevs h)(Elem e \<mapsto> junk_prev j), nexts := (nexts h)(Elem e \<mapsto> junk_next j)\<rparr>"

definition free_elem :: "'e \<Rightarrow> ('l, 'e) lheap \<Rightarrow> ('l, 'e) lheap" where
  "free_elem e h = h\<lparr>prevs := (prevs h)(Elem e := None), nexts := (nexts h)(Elem e := None)\<rparr>"

section \<open>The operations of list.c\<close>

definition list_init :: "'l \<Rightarrow> ('l, 'e) lheap \<Rightarrow> ('l, 'e) lheap option" where
  "list_init l h = do {
     _ \<leftarrow> counts h l;
     let h = h\<lparr>counts := (counts h)(l \<mapsto> 0)\<rparr>;
     h \<leftarrow> set_prev (Some (Sentinel l)) (Some (Sentinel l)) h;
     set_next (Some (Sentinel l)) (Some (Sentinel l)) h }"

text \<open>\<open>m\<close> is what \<open>malloc\<close> returned, \<open>j\<close> the bytes it left there.\<close>

definition create_list ::
  "'l option \<Rightarrow> ('l, 'e) junk \<Rightarrow> ('l, 'e) lheap \<Rightarrow> ('l option \<times> ('l, 'e) lheap) option"
where
  "create_list m j h = do {
     l \<leftarrow> m;
     h \<leftarrow> list_init l (alloc_list l j h);
     Some (Some l, h) }"

definition insert_tail ::
  "'l option \<Rightarrow> ('l, 'e) ptr \<Rightarrow> ('l, 'e) lheap \<Rightarrow> ('l, 'e) lheap option" where
  "insert_tail list node h =
     (case node of None \<Rightarrow> Some h | Some n \<Rightarrow>
      (case list of None \<Rightarrow> Some h | Some l \<Rightarrow> do {
         last \<leftarrow> get_prev (Some (Sentinel l)) h;
         h \<leftarrow> set_prev (Some n) last h;
         h \<leftarrow> set_next (Some n) (Some (Sentinel l)) h;
         last \<leftarrow> get_prev (Some (Sentinel l)) h;
         h \<leftarrow> set_next last (Some n) h;
         h \<leftarrow> set_prev (Some (Sentinel l)) (Some n) h;
         add_count l 1 h }))"

definition insert_head ::
  "'l option \<Rightarrow> ('l, 'e) ptr \<Rightarrow> ('l, 'e) lheap \<Rightarrow> ('l, 'e) lheap option" where
  "insert_head list node h =
     (case node of None \<Rightarrow> Some h | Some n \<Rightarrow>
      (case list of None \<Rightarrow> Some h | Some l \<Rightarrow> do {
         h \<leftarrow> set_prev (Some n) (Some (Sentinel l)) h;
         first \<leftarrow> get_next (Some (Sentinel l)) h;
         h \<leftarrow> set_next (Some n) first h;
         first \<leftarrow> get_next (Some (Sentinel l)) h;
         h \<leftarrow> set_prev first (Some n) h;
         h \<leftarrow> set_next (Some (Sentinel l)) (Some n) h;
         add_count l 1 h }))"

text \<open>The search loop: \<open>None\<close> also when a broken list is followed for ever.\<close>

partial_function (option) contains_loop ::
  "('l, 'e) lheap \<Rightarrow> 'l \<Rightarrow> ('l, 'e) node \<Rightarrow> ('l, 'e) ptr \<Rightarrow> int option" where
  "contains_loop h l n cur =
     (if cur = Some (Sentinel l) then Some 0
      else if cur = Some n then Some 1
      else do { nxt \<leftarrow> get_next cur h; contains_loop h l n nxt })"

definition list_contains ::
  "hw \<Rightarrow> 'l option \<Rightarrow> ('l, 'e) ptr \<Rightarrow> ('l, 'e) lheap \<Rightarrow> int option" where
  "list_contains H list node h =
     (case node of None \<Rightarrow> Some (ERROR H) | Some n \<Rightarrow>
      (case list of None \<Rightarrow> Some (ERROR H) | Some l \<Rightarrow> do {
         cur \<leftarrow> get_next (Some (Sentinel l)) h;
         contains_loop h l n cur }))"

definition list_remove ::
  "'l option \<Rightarrow> ('l, 'e) ptr \<Rightarrow> ('l, 'e) lheap \<Rightarrow> ('l, 'e) lheap option" where
  "list_remove list node h = do {
     nx \<leftarrow> get_next node h;
     pv \<leftarrow> get_prev node h;
     if nx = None \<or> pv = None then Some h
     else do {
       temp \<leftarrow> get_prev node h;
       nx \<leftarrow> get_next node h;
       h \<leftarrow> set_next temp nx h;
       nx \<leftarrow> get_next node h;
       h \<leftarrow> set_prev nx temp h;
       h \<leftarrow> set_prev node None h;
       h \<leftarrow> set_next node None h;
       l \<leftarrow> list;
       add_count l (- 1) h } }"

definition list_is_empty :: "hw \<Rightarrow> 'l option \<Rightarrow> ('l, 'e) lheap \<Rightarrow> int option" where
  "list_is_empty H list h =
     (case list of None \<Rightarrow> Some (ERROR H)
      | Some l \<Rightarrow> do { c \<leftarrow> counts h l; Some (if c = 0 then 1 else 0) })"

definition pop ::
  "hw \<Rightarrow> 'l option \<Rightarrow> ('l, 'e) lheap \<Rightarrow> (('l, 'e) ptr \<times> ('l, 'e) lheap) option" where
  "pop H list h = do {
     e \<leftarrow> list_is_empty H list h;
     if e \<noteq> 0 then Some (None, h)
     else do {
       l \<leftarrow> list;
       ret \<leftarrow> get_next (Some (Sentinel l)) h;
       nx \<leftarrow> get_next ret h;
       h \<leftarrow> set_prev nx (Some (Sentinel l)) h;
       nx \<leftarrow> get_next ret h;
       h \<leftarrow> set_next (Some (Sentinel l)) nx h;
       h \<leftarrow> set_prev ret None h;
       h \<leftarrow> set_next ret None h;
       h \<leftarrow> add_count l (- 1) h;
       Some (ret, h) } }"

definition peek :: "hw \<Rightarrow> 'l option \<Rightarrow> ('l, 'e) lheap \<Rightarrow> ('l, 'e) ptr option" where
  "peek H list h = do {
     e \<leftarrow> list_is_empty H list h;
     if e \<noteq> 0 then Some None
     else do { l \<leftarrow> list; get_next (Some (Sentinel l)) h } }"

partial_function (option) clear_loop ::
  "hw \<Rightarrow> 'l \<Rightarrow> ('l, 'e) lheap \<Rightarrow> (int \<times> ('l, 'e) lheap) option" where
  "clear_loop H l h = do {
     c \<leftarrow> counts h l;
     if c > 0 then do {
       (popped, h) \<leftarrow> pop H (Some l) h;
       if popped = None then Some (ERROR H, h) else clear_loop H l h }
     else Some (0, h) }"

definition clear_list :: "hw \<Rightarrow> 'l option \<Rightarrow> ('l, 'e) lheap \<Rightarrow> (int \<times> ('l, 'e) lheap) option"
where
  "clear_list H list h =
     (case list of None \<Rightarrow> Some (ERROR H, h) | Some l \<Rightarrow> clear_loop H l h)"

definition destroy_list :: "hw \<Rightarrow> 'l option \<Rightarrow> ('l, 'e) lheap \<Rightarrow> (int \<times> ('l, 'e) lheap) option"
where
  "destroy_list H list h = do {
     (rc, h) \<leftarrow> clear_list H list h;
     if rc = ERROR H then Some (ERROR H, h)
     else (case list of None \<Rightarrow> Some (0, h) | Some l \<Rightarrow> Some (0, free_list l h)) }"

section \<open>Representation\<close>

text \<open>
  \<open>seg h a xs b\<close>: from \<open>a\<close> the \<open>next\<close> pointers run through the elements \<open>xs\<close> to
  \<open>b\<close>, and the \<open>prev\<close> pointers run back the same way.
\<close>

fun seg ::
  "('l, 'e) lheap \<Rightarrow> ('l, 'e) node \<Rightarrow> 'e list \<Rightarrow> ('l, 'e) node \<Rightarrow> bool" where
  "seg h a [] b \<longleftrightarrow> nexts h a = Some (Some b) \<and> prevs h b = Some (Some a)"
| "seg h a (x # xs) b \<longleftrightarrow> nexts h a = Some (Some (Elem x)) \<and> prevs h (Elem x) = Some (Some a)
     \<and> seg h (Elem x) xs b"

definition repr :: "('l, 'e) lheap \<Rightarrow> 'l \<Rightarrow> 'e list \<Rightarrow> bool" where
  "repr h l xs \<longleftrightarrow> seg h (Sentinel l) xs (Sentinel l) \<and> distinct xs
     \<and> counts h l = Some (int (length xs))"

definition lists_ok :: "('l, 'e) lheap \<Rightarrow> ('l \<rightharpoonup> 'e list) \<Rightarrow> bool" where
  "lists_ok h Q \<longleftrightarrow> (\<forall>l xs. Q l = Some xs \<longrightarrow> repr h l xs)
     \<and> (\<forall>l l' xs ys. Q l = Some xs \<and> Q l' = Some ys \<and> l \<noteq> l' \<longrightarrow> set xs \<inter> set ys = {})"

text \<open>The memory of the element node is allocated (whatever its pointers hold).\<close>

definition has_elem :: "('l, 'e) lheap \<Rightarrow> 'e \<Rightarrow> bool" where
  "has_elem h e \<longleftrightarrow> prevs h (Elem e) \<noteq> None \<and> nexts h (Elem e) \<noteq> None"

lemma seg_append:
  "seg h a (xs @ x # ys) b \<longleftrightarrow> seg h a xs (Elem x) \<and> seg h (Elem x) ys b"
  by (induction xs arbitrary: a) auto

lemma seg_cong:
  assumes "\<And>n. n = a \<or> n \<in> Elem ` set xs \<Longrightarrow> nexts h' n = nexts h n"
    and "\<And>n. n = b \<or> n \<in> Elem ` set xs \<Longrightarrow> prevs h' n = prevs h n"
  shows "seg h' a xs b = seg h a xs b"
  using assms by (induction xs arbitrary: a) auto

lemma seg_last:
  "seg h a xs b \<Longrightarrow> prevs h b = Some (Some (if xs = [] then a else Elem (last xs)))"
  by (induction xs arbitrary: a) auto

lemma seg_first:
  "seg h a xs b \<Longrightarrow> nexts h a = Some (Some (if xs = [] then b else Elem (hd xs)))"
  by (cases xs) auto

lemma seg_has_elem: "seg h a xs b \<Longrightarrow> x \<in> set xs \<Longrightarrow> has_elem h x"
proof (induction xs arbitrary: a)
  case (Cons y ys)
  then show ?case using seg_first [of h "Elem y" ys b] by (auto simp: has_elem_def)
qed simp

lemma lists_okD: "lists_ok h Q \<Longrightarrow> Q l = Some xs \<Longrightarrow> repr h l xs"
  by (auto simp: lists_ok_def)

lemma lists_ok_disjoint:
  "lists_ok h Q \<Longrightarrow> Q l = Some xs \<Longrightarrow> Q l' = Some ys \<Longrightarrow> l \<noteq> l' \<Longrightarrow> set xs \<inter> set ys = {}"
  by (auto simp: lists_ok_def)

lemma lists_ok_unique:
  "lists_ok h Q \<Longrightarrow> Q l = Some xs \<Longrightarrow> Q l' = Some ys \<Longrightarrow> x \<in> set xs \<Longrightarrow> x \<in> set ys \<Longrightarrow> l' = l"
  by (metis disjoint_iff lists_ok_disjoint)

lemma lists_ok_distinct: "lists_ok h Q \<Longrightarrow> Q l = Some xs \<Longrightarrow> distinct xs"
  by (auto dest: lists_okD simp: repr_def)

lemma lists_ok_count: "lists_ok h Q \<Longrightarrow> Q l = Some xs \<Longrightarrow> counts h l = Some (int (length xs))"
  by (auto dest: lists_okD simp: repr_def)

text \<open>
  One update lemma serves every operation: if the changed list is represented in the new
  heap and the pointers outside it (and outside the node that moves) are untouched, the
  whole collection is represented.
\<close>

lemma lists_ok_update:
  assumes ok: "lists_ok h Q" and Ql: "Q l = Some xs"
    and new: "repr h' l ys" "set ys \<subseteq> set xs \<union> N" "N \<inter> queued Q = {}"
    and same: "\<And>n. n \<noteq> Sentinel l \<Longrightarrow> n \<notin> Elem ` (set xs \<union> N) \<Longrightarrow>
                 nexts h' n = nexts h n \<and> prevs h' n = prevs h n"
    and cnt: "\<And>l'. l' \<noteq> l \<Longrightarrow> counts h' l' = counts h l'"
  shows "lists_ok h' (Q(l \<mapsto> ys))"
proof -
  have fresh: "set zs \<inter> (set xs \<union> N) = {}" if "Q l' = Some zs" "l' \<noteq> l" for l' zs
  proof -
    have "set zs \<inter> set xs = {}" using lists_ok_disjoint [OF ok that(1) Ql that(2)] .
    moreover have "set zs \<inter> N = {}" using new(3) that(1) by (auto simp: queued_def)
    ultimately show ?thesis by blast
  qed
  have other: "repr h' l' zs" if q: "Q l' = Some zs" "l' \<noteq> l" for l' zs
  proof -
    have r: "repr h l' zs" using lists_okD [OF ok q(1)] .
    have u: "nexts h' n = nexts h n \<and> prevs h' n = prevs h n"
      if "n = Sentinel l' \<or> n \<in> Elem ` set zs" for n
      by (rule same) (use that fresh [OF q] q(2) in auto)
    have "seg h' (Sentinel l') zs (Sentinel l') = seg h (Sentinel l') zs (Sentinel l')"
      by (rule seg_cong) (use u in blast)+
    with r show ?thesis by (simp add: repr_def cnt [OF q(2)])
  qed
  show ?thesis
    unfolding lists_ok_def
  proof (intro conjI allI impI)
    fix l' zs assume "(Q(l \<mapsto> ys)) l' = Some zs"
    then show "repr h' l' zs" using new(1) other by (auto split: if_splits)
  next
    fix l1 l2 as bs
    assume a: "(Q(l \<mapsto> ys)) l1 = Some as \<and> (Q(l \<mapsto> ys)) l2 = Some bs \<and> l1 \<noteq> l2"
    then show "set as \<inter> set bs = {}"
      using fresh new(2) lists_ok_disjoint [OF ok, of l1 as l2 bs] by (fastforce split: if_splits)
  qed
qed

section \<open>The operations act on the represented sequences\<close>

lemmas ptr_defs [defs] = get_prev_def get_next_def set_prev_def set_next_def add_count_def

lemma list_init_repr:
  assumes "counts h l \<noteq> None" "prevs h (Sentinel l) \<noteq> None" "nexts h (Sentinel l) \<noteq> None"
  shows "\<exists>h'. list_init l h = Some h' \<and> repr h' l []
    \<and> (\<forall>n. n \<noteq> Sentinel l \<longrightarrow> nexts h' n = nexts h n \<and> prevs h' n = prevs h n)
    \<and> (\<forall>l'. l' \<noteq> l \<longrightarrow> counts h' l' = counts h l')"
  using assms by (auto simp: list_init_def ptr_defs repr_def)

lemma lists_ok_new_list:
  assumes ok: "lists_ok h Q" and new: "l \<notin> dom Q" "repr h' l []"
    and same: "\<And>n. n \<noteq> Sentinel l \<Longrightarrow> nexts h' n = nexts h n \<and> prevs h' n = prevs h n"
    and cnt: "\<And>l'. l' \<noteq> l \<Longrightarrow> counts h' l' = counts h l'"
  shows "lists_ok h' (Q(l \<mapsto> []))"
proof -
  have "repr h' l' zs" if q: "Q l' = Some zs" for l' zs
  proof -
    have ne: "l' \<noteq> l" using q new(1) by auto
    have "seg h' (Sentinel l') zs (Sentinel l') = seg h (Sentinel l') zs (Sentinel l')"
      by (rule seg_cong) (use ne same in auto)
    with lists_okD [OF ok q] show ?thesis by (simp add: repr_def cnt [OF ne])
  qed
  with ok new(2) show ?thesis by (auto simp: lists_ok_def split: if_splits)
qed

lemma create_list_null: "create_list None j h = None"
  by (simp add: create_list_def)

text \<open>Redirecting one end of a segment to another node.\<close>

definition seg_end :: "('l, 'e) node \<Rightarrow> 'e list \<Rightarrow> ('l, 'e) node" where
  "seg_end a xs = (if xs = [] then a else Elem (last xs))"

definition seg_start :: "'e list \<Rightarrow> ('l, 'e) node \<Rightarrow> ('l, 'e) node" where
  "seg_start xs b = (if xs = [] then b else Elem (hd xs))"

lemma seg_ends:
  assumes "seg h a xs b"
  shows "prevs h b = Some (Some (seg_end a xs))" "nexts h a = Some (Some (seg_start xs b))"
  using seg_last [OF assms] seg_first [OF assms] by (simp_all add: seg_end_def seg_start_def)

lemma seg_redirect_end:
  assumes "seg h a xs b" "distinct xs" "a \<notin> Elem ` set xs"
    and "\<And>m. m = a \<or> m \<in> Elem ` set xs \<Longrightarrow> m \<noteq> seg_end a xs \<Longrightarrow> nexts h' m = nexts h m"
    and "\<And>m. m \<in> Elem ` set xs \<Longrightarrow> prevs h' m = prevs h m"
    and "nexts h' (seg_end a xs) = Some (Some c)" "prevs h' c = Some (Some (seg_end a xs))"
  shows "seg h' a xs c"
proof (cases xs rule: rev_cases)
  case Nil
  with assms show ?thesis by (simp add: seg_end_def)
next
  case (snoc ys y)
  have "seg h a ys (Elem y)" using assms(1) by (simp add: snoc seg_append)
  moreover have "seg h' a ys (Elem y) = seg h a ys (Elem y)"
    by (rule seg_cong) (use assms(2-5) in \<open>auto simp: snoc seg_end_def\<close>)
  ultimately show ?thesis using assms(6,7) by (simp add: snoc seg_append seg_end_def)
qed

lemma seg_redirect_start:
  assumes "seg h a xs b" "distinct xs"
    and "\<And>m. m \<in> Elem ` set xs \<Longrightarrow> nexts h' m = nexts h m"
    and "\<And>m. m = b \<or> m \<in> Elem ` set xs \<Longrightarrow> m \<noteq> seg_start xs b \<Longrightarrow> prevs h' m = prevs h m"
    and "b \<notin> Elem ` set xs"
    and "nexts h' c = Some (Some (seg_start xs b))" "prevs h' (seg_start xs b) = Some (Some c)"
  shows "seg h' c xs b"
proof (cases xs)
  case Nil
  with assms show ?thesis by (simp add: seg_start_def)
next
  case (Cons y ys)
  have "seg h (Elem y) ys b" using assms(1) by (simp add: Cons)
  moreover have "seg h' (Elem y) ys b = seg h (Elem y) ys b"
    by (rule seg_cong) (use assms(2-5) in \<open>auto simp: Cons seg_start_def\<close>)
  ultimately show ?thesis using assms(6,7) by (simp add: Cons seg_start_def)
qed

lemma seg_end_cases: "seg_end (Sentinel l) xs = Sentinel l \<or> seg_end (Sentinel l) xs \<in> Elem ` set xs"
  by (simp add: seg_end_def)

lemma seg_start_cases: "seg_start xs (Sentinel l) = Sentinel l \<or> seg_start xs (Sentinel l) \<in> Elem ` set xs"
  by (simp add: seg_start_def)

lemma insert_tail_ok:
  assumes ok: "lists_ok h Q" and q: "Q l = Some xs" and n: "n \<notin> queued Q" "has_elem h n"
  shows "\<exists>h'. insert_tail (Some l) (Some (Elem n)) h = Some h' \<and> lists_ok h' (Q(l \<mapsto> xs @ [n]))
    \<and> (\<forall>e. has_elem h' e = has_elem h e)"
proof -
  let ?S = "Sentinel l" and ?p = "seg_end (Sentinel l) xs"
  have r: "seg h ?S xs ?S" "distinct xs" "counts h l = Some (int (length xs))"
    using lists_okD [OF ok q] by (auto simp: repr_def)
  have nx: "n \<notin> set xs" using n(1) q by (auto simp: queued_def)
  obtain a b where ab: "prevs h (Elem n) = Some a" "nexts h (Elem n) = Some b"
    using n(2) by (auto simp: has_elem_def)
  have pn: "?p \<noteq> Elem n" using nx by (auto simp: seg_end_def)
  have pal: "nexts h ?p \<noteq> None"
    using r(1) seg_has_elem [OF r(1)] seg_ends(2) [OF r(1)] by (auto simp: seg_end_def has_elem_def)
  define h' where "h' = h\<lparr>prevs := (prevs h)(Elem n \<mapsto> Some ?p, ?S \<mapsto> Some (Elem n)),
     nexts := (nexts h)(Elem n \<mapsto> Some ?S, ?p \<mapsto> Some (Elem n)),
     counts := (counts h)(l \<mapsto> int (length xs) + 1)\<rparr>"
  have run: "insert_tail (Some l) (Some (Elem n)) h = Some h'"
    using seg_ends(1) [OF r(1)] ab r(3) pal pn
    by (auto simp: insert_tail_def ptr_defs h'_def fun_upd_twist)
  have "seg h' ?S xs (Elem n)"
    by (rule seg_redirect_end [OF r(1,2)]) (use nx pn in \<open>auto simp: h'_def\<close>)
  then have "repr h' l (xs @ [n])"
    using r nx pn by (auto simp: repr_def seg_append h'_def)
  then have "lists_ok h' (Q(l \<mapsto> xs @ [n]))"
    by (rule lists_ok_update [OF ok q, where N = "{n}"])
       (use n(1) seg_end_cases [of l xs] in \<open>auto simp: h'_def\<close>)
  moreover have "has_elem h' e = has_elem h e" for e
    using ab pal by (auto simp: has_elem_def h'_def)
  ultimately show ?thesis using run by blast
qed

lemma insert_head_ok:
  assumes ok: "lists_ok h Q" and q: "Q l = Some xs" and n: "n \<notin> queued Q" "has_elem h n"
  shows "\<exists>h'. insert_head (Some l) (Some (Elem n)) h = Some h' \<and> lists_ok h' (Q(l \<mapsto> n # xs))
    \<and> (\<forall>e. has_elem h' e = has_elem h e)"
proof -
  let ?S = "Sentinel l" and ?f = "seg_start xs (Sentinel l)"
  have r: "seg h ?S xs ?S" "distinct xs" "counts h l = Some (int (length xs))"
    using lists_okD [OF ok q] by (auto simp: repr_def)
  have nx: "n \<notin> set xs" using n(1) q by (auto simp: queued_def)
  obtain a b where ab: "prevs h (Elem n) = Some a" "nexts h (Elem n) = Some b"
    using n(2) by (auto simp: has_elem_def)
  have pn: "?f \<noteq> Elem n" using nx by (auto simp: seg_start_def)
  have pal: "prevs h ?f \<noteq> None"
    using r(1) seg_has_elem [OF r(1)] seg_ends(1) [OF r(1)] by (auto simp: seg_start_def has_elem_def)
  define h' where "h' = h\<lparr>prevs := (prevs h)(Elem n \<mapsto> Some ?S, ?f \<mapsto> Some (Elem n)),
     nexts := (nexts h)(Elem n \<mapsto> Some ?f, ?S \<mapsto> Some (Elem n)),
     counts := (counts h)(l \<mapsto> int (length xs) + 1)\<rparr>"
  have run: "insert_head (Some l) (Some (Elem n)) h = Some h'"
    using seg_ends(2) [OF r(1)] ab r(3) pal pn
    by (auto simp: insert_head_def ptr_defs h'_def fun_upd_twist)
  have "seg h' (Elem n) xs ?S"
    by (rule seg_redirect_start [OF r(1,2)]) (use nx pn in \<open>auto simp: h'_def\<close>)
  then have "repr h' l (n # xs)"
    using r nx pn by (auto simp: repr_def h'_def)
  then have "lists_ok h' (Q(l \<mapsto> n # xs))"
    by (rule lists_ok_update [OF ok q, where N = "{n}"])
       (use n(1) seg_start_cases [of xs l] in \<open>auto simp: h'_def\<close>)
  moreover have "has_elem h' e = has_elem h e" for e
    using ab pal by (auto simp: has_elem_def h'_def)
  ultimately show ?thesis using run by blast
qed

text \<open>Cutting a node out: the segments on its two sides are joined.\<close>

lemma seg_cut:
  assumes "seg h (Sentinel l) (ys @ n # zs) (Sentinel l)" "distinct (ys @ n # zs)"
    and "nexts h' (seg_end (Sentinel l) ys) = Some (Some (seg_start zs (Sentinel l)))"
    and "prevs h' (seg_start zs (Sentinel l)) = Some (Some (seg_end (Sentinel l) ys))"
    and "\<And>m. m \<noteq> Elem n \<Longrightarrow> m \<noteq> seg_end (Sentinel l) ys \<Longrightarrow> nexts h' m = nexts h m"
    and "\<And>m. m \<noteq> Elem n \<Longrightarrow> m \<noteq> seg_start zs (Sentinel l) \<Longrightarrow> prevs h' m = prevs h m"
  shows "seg h' (Sentinel l) (ys @ zs) (Sentinel l)"
proof -
  let ?S = "Sentinel l"
  have parts: "seg h ?S ys (Elem n)" "seg h (Elem n) zs ?S"
    using assms(1) by (simp_all add: seg_append)
  have hdz: "zs \<noteq> [] \<Longrightarrow> hd zs \<in> set zs" by simp
  have ux: "nexts h' m = nexts h m" if "m = ?S \<or> m \<in> Elem ` set ys" "m \<noteq> seg_end ?S ys" for m
    by (rule assms(5)) (use that assms(2) in auto)
  have up: "prevs h' m = prevs h m" if "m \<in> Elem ` set ys" for m
    by (rule assms(6)) (use that assms(2) hdz in \<open>auto simp: seg_start_def\<close>)
  have left: "seg h' ?S ys (seg_start zs ?S)"
    by (rule seg_redirect_end [OF parts(1)]) (use assms(2-4) ux up in auto)
  show ?thesis
  proof (cases zs)
    case Nil
    with left show ?thesis by (simp add: seg_start_def)
  next
    case (Cons z us)
    have lasty: "ys \<noteq> [] \<Longrightarrow> last ys \<in> set ys" by simp
    have "seg_end ?S ys = ?S \<or> seg_end ?S ys \<in> Elem ` set ys" using lasty by (simp add: seg_end_def)
    then have vx: "nexts h' m = nexts h m" if "m = Elem z \<or> m \<in> Elem ` set us" for m
      using that assms(2) by (intro assms(5)) (auto simp: Cons)
    have vp: "prevs h' m = prevs h m" if "m = ?S \<or> m \<in> Elem ` set us" for m
      by (rule assms(6)) (use that assms(2) in \<open>auto simp: Cons seg_start_def\<close>)
    have "seg h' (Elem z) us ?S = seg h (Elem z) us ?S"
      by (rule seg_cong) (use vx vp in blast)+
    with left parts(2) show ?thesis by (simp add: Cons seg_append seg_start_def)
  qed
qed

text \<open>
  \<open>list_remove\<close> never looks at the list it is given, except to decrement that list's
  count: the general form keeps the list \<open>l'\<close> of the argument apart from the list \<open>l\<close>
  the node is in.
\<close>

lemma list_remove_run:
  assumes r: "repr h l (ys @ n # zs)" and c: "counts h l' = Some c"
  shows "\<exists>h'. list_remove (Some l') (Some (Elem n)) h = Some h'
    \<and> seg h' (Sentinel l) (ys @ zs) (Sentinel l)
    \<and> counts h' = (counts h)(l' \<mapsto> c - 1)
    \<and> (\<forall>m. m \<noteq> Sentinel l \<and> m \<notin> Elem ` set (ys @ n # zs) \<longrightarrow>
         nexts h' m = nexts h m \<and> prevs h' m = prevs h m)
    \<and> (\<forall>e. has_elem h' e = has_elem h e)
    \<and> nexts h' (Elem n) = Some None \<and> prevs h' (Elem n) = Some None"
proof -
  let ?S = "Sentinel l" and ?p = "seg_end (Sentinel l) ys" and ?q = "seg_start zs (Sentinel l)"
  have s: "seg h ?S (ys @ n # zs) ?S" and d: "distinct (ys @ n # zs)" using r by (auto simp: repr_def)
  have parts: "seg h ?S ys (Elem n)" "seg h (Elem n) zs ?S" using s by (simp_all add: seg_append)
  have pn: "?p \<noteq> Elem n" "?q \<noteq> Elem n" using d by (auto simp: seg_end_def seg_start_def)
  have al: "nexts h ?p \<noteq> None" "prevs h ?q \<noteq> None"
    using seg_ends [OF parts(1)] seg_ends [OF parts(2)] seg_ends [OF s]
      seg_has_elem [OF parts(1)] seg_has_elem [OF parts(2)]
    by (auto simp: seg_end_def seg_start_def has_elem_def)
  define h' where "h' = h\<lparr>
     nexts := (nexts h)(?p \<mapsto> Some ?q, Elem n \<mapsto> None),
     prevs := (prevs h)(?q \<mapsto> Some ?p, Elem n \<mapsto> None), counts := (counts h)(l' \<mapsto> c - 1)\<rparr>"
  have run: "list_remove (Some l') (Some (Elem n)) h = Some h'"
    using seg_ends(1) [OF parts(1)] seg_ends(2) [OF parts(2)] al pn c
    by (auto simp: list_remove_def ptr_defs h'_def)
  have cut: "seg h' ?S (ys @ zs) ?S"
    by (rule seg_cut [OF s d]) (use pn in \<open>auto simp: h'_def\<close>)
  have alln: "has_elem h n" using seg_has_elem [OF s, of n] by simp
  have "has_elem h' e = has_elem h e" for e
    using al alln by (auto simp: has_elem_def h'_def)
  then show ?thesis
    using run cut seg_end_cases [of l ys] seg_start_cases [of zs l] by (auto simp: h'_def)
qed

lemma list_remove_ok:
  assumes ok: "lists_ok h Q" and q: "Q l = Some xs" and n: "n \<in> set xs"
  shows "\<exists>h'. list_remove (Some l) (Some (Elem n)) h = Some h' \<and> lists_ok h' (Q(l \<mapsto> remove1 n xs))
    \<and> (\<forall>e. has_elem h' e = has_elem h e)"
proof -
  obtain ys zs where xs: "xs = ys @ n # zs" and ny: "n \<notin> set ys" using split_list_first [OF n] by blast
  have r: "repr h l (ys @ n # zs)" using lists_okD [OF ok q] xs by simp
  then obtain h' where h': "list_remove (Some l) (Some (Elem n)) h = Some h'"
    "seg h' (Sentinel l) (ys @ zs) (Sentinel l)"
    "counts h' = (counts h)(l \<mapsto> int (length xs) - 1)"
    "\<And>m. m \<noteq> Sentinel l \<and> m \<notin> Elem ` set xs \<Longrightarrow> nexts h' m = nexts h m \<and> prevs h' m = prevs h m"
    "\<And>e. has_elem h' e = has_elem h e"
    using list_remove_run [OF r, of l "int (length xs)"] xs by (auto simp: repr_def)
  have "repr h' l (ys @ zs)" using h'(2,3) r by (auto simp: repr_def xs)
  then have "lists_ok h' (Q(l \<mapsto> ys @ zs))"
    by (rule lists_ok_update [OF ok q, where N = "{}"]) (use h'(3,4) in \<open>auto simp: xs\<close>)
  with h' show ?thesis using ny by (auto simp: xs)
qed

lemma list_is_empty_ok:
  "lists_ok h Q \<Longrightarrow> Q l = Some xs \<Longrightarrow> list_is_empty H (Some l) h = Some (if xs = [] then 1 else 0)"
  by (auto dest: lists_ok_count simp: list_is_empty_def)

lemma peek_ok:
  assumes "lists_ok h Q" "Q l = Some xs"
  shows "peek H (Some l) h = Some (if xs = [] then None else Some (Elem (hd xs)))"
  using list_is_empty_ok [OF assms, of H] lists_okD [OF assms]
  by (cases xs) (auto simp: peek_def ptr_defs repr_def)

lemma pop_empty_ok: "lists_ok h Q \<Longrightarrow> Q l = Some [] \<Longrightarrow> pop H (Some l) h = Some (None, h)"
  using list_is_empty_ok [of h Q l "[]" H] by (simp add: pop_def)

text \<open>\<open>pop\<close> does to the first node exactly what \<open>list_remove\<close> does.\<close>

lemma pop_list_remove:
  assumes ok: "lists_ok h Q" and q: "Q l = Some (x # xs)" and rm: "list_remove (Some l) (Some (Elem x)) h = Some h'"
  shows "pop H (Some l) h = Some (Some (Elem x), h')"
proof -
  have r: "repr h l (x # xs)" using lists_okD [OF ok q] .
  then have s: "seg h (Elem x) xs (Sentinel l)" and d: "distinct (x # xs)"
    and c: "counts h l = Some (int (length xs) + 1)" and fx: "nexts h (Sentinel l) = Some (Some (Elem x))"
    and px: "prevs h (Elem x) = Some (Some (Sentinel l))"
    by (auto simp: repr_def)
  let ?q = "seg_start xs (Sentinel l)"
  have nx: "nexts h (Elem x) = Some (Some ?q)" using seg_ends(2) [OF s] .
  have qn: "?q \<noteq> Elem x" using d by (auto simp: seg_start_def)
  have pq: "prevs h ?q \<noteq> None"
    using seg_has_elem [OF s] seg_ends(1) [OF s] by (auto simp: seg_start_def has_elem_def)
  show ?thesis
    using rm c fx px nx qn pq
    by (auto simp: pop_def list_is_empty_def list_remove_def ptr_defs fun_upd_twist)
qed

lemma pop_ok:
  assumes ok: "lists_ok h Q" and q: "Q l = Some (x # xs)"
  shows "\<exists>h'. pop H (Some l) h = Some (Some (Elem x), h') \<and> lists_ok h' (Q(l \<mapsto> xs))
    \<and> (\<forall>e. has_elem h' e = has_elem h e)"
proof -
  obtain h' where h': "list_remove (Some l) (Some (Elem x)) h = Some h'"
    "lists_ok h' (Q(l \<mapsto> xs))" "\<forall>e. has_elem h' e = has_elem h e"
    using list_remove_ok [OF ok q, of x] by auto
  then show ?thesis using pop_list_remove [OF ok q h'(1)] by blast
qed

text \<open>
  What becomes of memory that leaves a list: the links of an element are NULL, and the memory of
  a list is gone.
\<close>

definition unlinked :: "('l, 'e) lheap \<Rightarrow> 'e \<Rightarrow> bool" where
  "unlinked h e \<longleftrightarrow> prevs h (Elem e) = Some None \<and> nexts h (Elem e) = Some None"

definition list_gone :: "('l, 'e) lheap \<Rightarrow> 'l \<Rightarrow> bool" where
  "list_gone h l \<longleftrightarrow> counts h l = None \<and> prevs h (Sentinel l) = None \<and> nexts h (Sentinel l) = None"

text \<open>Only the nodes \<open>N\<close> and the list \<open>l\<close> differ.\<close>

definition same_nodes :: "'l \<Rightarrow> 'e set \<Rightarrow> ('l, 'e) lheap \<Rightarrow> ('l, 'e) lheap \<Rightarrow> bool" where
  "same_nodes l N h h' \<longleftrightarrow> (\<forall>n. n \<noteq> Sentinel l \<and> n \<notin> Elem ` N \<longrightarrow> nexts h' n = nexts h n \<and> prevs h' n = prevs h n)
     \<and> (\<forall>k. k \<noteq> l \<longrightarrow> counts h' k = counts h k)"

lemma same_nodes_refl [simp]: "same_nodes l N h h"
  by (simp add: same_nodes_def)

lemma same_nodes_trans:
  assumes a: "same_nodes l N h h1" and b: "same_nodes l M h1 h2" and sub: "M \<subseteq> N"
  shows "same_nodes l N h h2"
proof -
  have "nexts h2 n = nexts h n \<and> prevs h2 n = prevs h n" if n: "n \<noteq> Sentinel l" "n \<notin> Elem ` N" for n
  proof -
    have "n \<notin> Elem ` M" using n(2) image_mono [OF sub, of Elem] by (rule contra_subsetD [rotated])
    then show ?thesis using a b n by (simp add: same_nodes_def)
  qed
  moreover have "counts h2 k = counts h k" if "k \<noteq> l" for k using a b that by (simp add: same_nodes_def)
  ultimately show ?thesis by (simp add: same_nodes_def)
qed

lemma same_nodes_unlinked: "same_nodes l N h h' \<Longrightarrow> e \<notin> N \<Longrightarrow> unlinked h' e = unlinked h e"
  by (auto simp: same_nodes_def unlinked_def)

lemma pop_unlinks:
  assumes ok: "lists_ok h Q" and q: "Q l = Some (x # xs)" and p: "pop H (Some l) h = Some (r, h')"
  shows "unlinked h' x" "same_nodes l (set (x # xs)) h h'"
proof -
  have r: "repr h l ([] @ x # xs)" and c: "counts h l = Some (int (length (x # xs)))"
    using lists_okD [OF ok q] by (simp_all add: repr_def)
  obtain h1 where h1: "list_remove (Some l) (Some (Elem x)) h = Some h1" "counts h1 = (counts h)(l \<mapsto> int (length (x # xs)) - 1)"
    "\<forall>m. m \<noteq> Sentinel l \<and> m \<notin> Elem ` set (x # xs) \<longrightarrow> nexts h1 m = nexts h m \<and> prevs h1 m = prevs h m"
    "nexts h1 (Elem x) = Some None" "prevs h1 (Elem x) = Some None"
    using list_remove_run [OF r c, unfolded append_Nil] by (elim exE conjE) (rule that)
  have "h' = h1" using pop_list_remove [OF ok q h1(1), of H] p by simp
  then show "unlinked h' x" "same_nodes l (set (x # xs)) h h'"
    using h1(2-5) by (simp_all add: unlinked_def same_nodes_def)
qed

lemma get_next_ok:
  assumes "lists_ok h Q" "Q l = Some (xs @ x # ys)"
  shows "get_next (Some (Elem x)) h = Some (Some (seg_start ys (Sentinel l)))"
  using lists_okD [OF assms] seg_ends(2) [of h "Elem x" ys "Sentinel l"]
  by (simp add: repr_def seg_append ptr_defs)

lemma get_first_ok:
  assumes "lists_ok h Q" "Q l = Some xs"
  shows "get_next (Some (Sentinel l)) h = Some (Some (seg_start xs (Sentinel l)))"
  using lists_okD [OF assms] seg_ends(2) [of h "Sentinel l" xs "Sentinel l"] by (simp add: repr_def ptr_defs)

lemma contains_loop_seg:
  assumes "seg h a ys (Sentinel l)"
  shows "contains_loop h l (Elem n) (Some (seg_start ys (Sentinel l)))
    = Some (if n \<in> set ys then 1 else 0)"
  using assms
proof (induction ys arbitrary: a)
  case Nil
  show ?case by (simp add: contains_loop.simps seg_start_def)
next
  case (Cons y ys)
  have s: "seg h (Elem y) ys (Sentinel l)" using Cons.prems by simp
  have "nexts h (Elem y) = Some (Some (seg_start ys (Sentinel l)))" using seg_ends(2) [OF s] .
  with Cons.IH [OF s] show ?case
    by (auto simp: contains_loop.simps [of h l "Elem n" "Some (Elem y)"] ptr_defs seg_start_def [of "y # ys"])
qed

lemma list_contains_ok:
  assumes "lists_ok h Q" "Q l = Some xs"
  shows "list_contains H (Some l) (Some (Elem n)) h = Some (if n \<in> set xs then 1 else 0)"
proof -
  have s: "seg h (Sentinel l) xs (Sentinel l)" using lists_okD [OF assms] by (simp add: repr_def)
  show ?thesis
    using contains_loop_seg [OF s, of n] seg_ends(2) [OF s] by (simp add: list_contains_def ptr_defs)
qed

lemma clear_loop_ok:
  assumes "lists_ok h Q" "Q l = Some xs"
  shows "\<exists>h'. clear_loop H l h = Some (0, h') \<and> lists_ok h' (Q(l \<mapsto> []))
    \<and> (\<forall>e. has_elem h' e = has_elem h e) \<and> (\<forall>e \<in> set xs. unlinked h' e) \<and> same_nodes l (set xs) h h'"
  using assms
proof (induction xs arbitrary: h Q)
  case Nil
  have "Q(l \<mapsto> []) = Q" using Nil.prems(2) by auto
  with Nil show ?case
    using lists_ok_count [OF Nil.prems] by (auto simp: clear_loop.simps [of H l h])
next
  case (Cons x xs)
  obtain h' where h': "pop H (Some l) h = Some (Some (Elem x), h')" "lists_ok h' (Q(l \<mapsto> xs))"
    "\<forall>e. has_elem h' e = has_elem h e"
    using pop_ok [OF Cons.prems] by blast
  note u = pop_unlinks [OF Cons.prems h'(1)]
  obtain h'' where h'': "clear_loop H l h' = Some (0, h'')" "lists_ok h'' (Q(l \<mapsto> []))"
    "\<forall>e. has_elem h'' e = has_elem h' e" "\<forall>e \<in> set xs. unlinked h'' e" "same_nodes l (set xs) h' h''"
    using Cons.IH [OF h'(2)] by (auto simp only: fun_upd_same fun_upd_upd)
  have "clear_loop H l h = Some (0, h'')"
    using h'(1) h''(1) lists_ok_count [OF Cons.prems] by (auto simp: clear_loop.simps [of H l h])
  moreover have "\<forall>e. has_elem h'' e = has_elem h e" using h''(3) h'(3) by simp
  moreover have "x \<notin> set xs" using lists_ok_distinct [OF Cons.prems] by simp
  then have "unlinked h'' x" using u(1) same_nodes_unlinked [OF h''(5)] by simp
  then have "\<forall>e \<in> set (x # xs). unlinked h'' e" using h''(4) by simp
  moreover have "same_nodes l (set (x # xs)) h h''" by (rule same_nodes_trans [OF u(2) h''(5)]) auto
  ultimately show ?case using h''(2) by blast
qed

lemma clear_list_ok:
  "lists_ok h Q \<Longrightarrow> Q l = Some xs \<Longrightarrow> \<exists>h'. clear_list H (Some l) h = Some (0, h')
    \<and> lists_ok h' (Q(l \<mapsto> [])) \<and> (\<forall>e. has_elem h' e = has_elem h e)
    \<and> (\<forall>e \<in> set xs. unlinked h' e) \<and> same_nodes l (set xs) h h'"
  by (simp add: clear_list_def clear_loop_ok)

section \<open>list.c provides the queue contract\<close>

lemma queued_has_elem: "lists_ok h Q \<Longrightarrow> e \<in> queued Q \<Longrightarrow> has_elem h e"
  by (auto simp: queued_def repr_def dest!: lists_okD intro: seg_has_elem)

interpretation qs: queue_store lists_ok has_elem Elem
  "\<lambda>l p. insert_tail (Some l) (Some p)" "\<lambda>l. pop H (Some l)" "\<lambda>l p. list_remove (Some l) (Some p)"
  for H :: hw
  by unfold_locales
    (simp_all add: lists_ok_distinct lists_ok_disjoint queued_has_elem insert_tail_ok pop_empty_ok
       pop_ok list_remove_ok)

text \<open>Memory that no represented list uses can come and go.\<close>

lemma lists_ok_frame:
  assumes ok: "lists_ok h Q"
    and same: "\<And>l xs n. Q l = Some xs \<Longrightarrow> n = Sentinel l \<or> n \<in> Elem ` set xs \<Longrightarrow>
                 nexts h' n = nexts h n \<and> prevs h' n = prevs h n"
    and cnt: "\<And>l xs. Q l = Some xs \<Longrightarrow> counts h' l = counts h l"
  shows "lists_ok h' Q"
proof -
  have "repr h' l xs" if q: "Q l = Some xs" for l xs
  proof -
    have "seg h' (Sentinel l) xs (Sentinel l) = seg h (Sentinel l) xs (Sentinel l)"
      by (rule seg_cong) (use same [OF q] in blast)+
    with lists_okD [OF ok q] show ?thesis by (simp add: repr_def cnt [OF q])
  qed
  with ok show ?thesis by (auto simp: lists_ok_def)
qed

lemma lists_ok_drop: "lists_ok h Q \<Longrightarrow> lists_ok h (Q(l := None))"
  by (auto simp: lists_ok_def split: if_splits)

lemma lists_ok_alloc_elem: "lists_ok h Q \<Longrightarrow> e \<notin> queued Q \<Longrightarrow> lists_ok (alloc_elem e j h) Q"
  by (erule lists_ok_frame) (auto simp: alloc_elem_def)

lemma lists_ok_free_elem: "lists_ok h Q \<Longrightarrow> e \<notin> queued Q \<Longrightarrow> lists_ok (free_elem e h) Q"
  by (erule lists_ok_frame) (auto simp: free_elem_def)

lemma lists_ok_alloc_list: "lists_ok h Q \<Longrightarrow> Q l = None \<Longrightarrow> lists_ok (alloc_list l j h) Q"
  by (erule lists_ok_frame) (auto simp: alloc_list_def)

lemma lists_ok_free_list: "lists_ok h Q \<Longrightarrow> lists_ok (free_list l h) (Q(l := None))"
  by (rule lists_ok_frame [OF lists_ok_drop]) (auto simp: free_list_def split: if_splits)

lemma has_elem_simps [simp]:
  "has_elem (alloc_elem e j h) e' = (e' = e \<or> has_elem h e')"
  "has_elem (free_elem e h) e' = (e' \<noteq> e \<and> has_elem h e')"
  "has_elem (alloc_list l j h) e' = has_elem h e'"
  "has_elem (free_list l h) e' = has_elem h e'"
  by (auto simp: has_elem_def alloc_elem_def free_elem_def alloc_list_def free_list_def)

lemma list_init_ok:
  assumes "lists_ok h Q" "l \<notin> dom Q"
  shows "\<exists>h'. list_init l (alloc_list l j h) = Some h' \<and> lists_ok h' (Q(l \<mapsto> []))
    \<and> (\<forall>e. has_elem h' e = has_elem h e)"
proof -
  let ?h = "alloc_list l j h"
  have ok: "lists_ok ?h Q" using assms by (auto intro: lists_ok_alloc_list)
  obtain h' where h': "list_init l ?h = Some h'" "repr h' l []"
    "\<forall>n. n \<noteq> Sentinel l \<longrightarrow> nexts h' n = nexts ?h n \<and> prevs h' n = prevs ?h n"
    "\<forall>l'. l' \<noteq> l \<longrightarrow> counts h' l' = counts ?h l'"
    using list_init_repr [of ?h l] by (auto simp: alloc_list_def)
  have "lists_ok h' (Q(l \<mapsto> []))"
    by (rule lists_ok_new_list [OF ok assms(2) h'(2)]) (use h'(3,4) in auto)
  moreover have "has_elem h' e = has_elem h e" for e
    using h'(3) by (simp add: has_elem_def alloc_list_def)
  ultimately show ?thesis using h'(1) by blast
qed

lemma create_list_ok:
  assumes "lists_ok h Q" "l \<notin> dom Q"
  shows "\<exists>h'. create_list (Some l) j h = Some (Some l, h') \<and> lists_ok h' (Q(l \<mapsto> []))
    \<and> (\<forall>e. has_elem h' e = has_elem h e)"
  using list_init_ok [OF assms, of j] by (auto simp: create_list_def)

lemma free_list_facts [simp]:
  "list_gone (free_list l h) k = (k = l \<or> list_gone h k)" "unlinked (free_list l h) e = unlinked h e"
  "same_nodes l N h (free_list l h') = same_nodes l N h h'"
  by (auto simp: list_gone_def free_list_def unlinked_def same_nodes_def)

lemma destroy_list_ok:
  assumes "lists_ok h Q" "Q l = Some xs" "ERROR H \<noteq> 0"
  shows "\<exists>h'. destroy_list H (Some l) h = Some (0, h') \<and> lists_ok h' (Q(l := None))
    \<and> (\<forall>e. has_elem h' e = has_elem h e) \<and> list_gone h' l \<and> (\<forall>e \<in> set xs. unlinked h' e) \<and> same_nodes l (set xs) h h'"
proof -
  obtain h1 where h1: "clear_list H (Some l) h = Some (0, h1)" "lists_ok h1 (Q(l \<mapsto> []))"
    "\<forall>e. has_elem h1 e = has_elem h e" "\<forall>e \<in> set xs. unlinked h1 e" "same_nodes l (set xs) h h1"
    using clear_list_ok [OF assms(1,2)] by blast
  have "lists_ok (free_list l h1) (Q(l := None))" using lists_ok_free_list [OF h1(2), of l] by simp
  with h1 assms(3) show ?thesis by (simp add: destroy_list_def)
qed

lemma lists_ok_empty [simp]: "lists_ok h Map.empty"
  by (simp add: lists_ok_def)


section \<open>Building a heap\<close>

text \<open>A heap with given contents, made with the operations themselves.\<close>

definition zero_junk :: "('l, 'e) junk" where
  "zero_junk = \<lparr>junk_prev = None, junk_next = None, junk_count = 0\<rparr>"

definition no_lists :: "('l, 'e) lheap" where
  "no_lists = \<lparr>prevs = Map.empty, nexts = Map.empty, counts = Map.empty\<rparr>"

fun fill_list :: "'l \<Rightarrow> 'e list \<Rightarrow> ('l, 'e) lheap \<Rightarrow> ('l, 'e) lheap option" where
  "fill_list l [] h = Some h"
| "fill_list l (e # es) h = do { h \<leftarrow> insert_tail (Some l) (Some (Elem e)) h; fill_list l es h }"

fun build_lists :: "('l \<times> 'e list) list \<Rightarrow> ('l, 'e) lheap \<Rightarrow> ('l, 'e) lheap option" where
  "build_lists [] h = Some h"
| "build_lists ((l, es) # ls) h = do {
     h \<leftarrow> build_lists ls h;
     h \<leftarrow> list_init l (alloc_list l zero_junk h);
     fill_list l es h }"

definition list_heap :: "'e list \<Rightarrow> ('l \<times> 'e list) list \<Rightarrow> ('l, 'e) lheap" where
  "list_heap nodes ls = the (build_lists ls (fold (\<lambda>e. alloc_elem e zero_junk) nodes no_lists))"

lemma fill_list_ok:
  assumes "lists_ok h Q" "Q l = Some xs" "distinct (xs @ es)" "set es \<inter> queued Q = {}"
    "\<forall>e \<in> set es. has_elem h e"
  shows "\<exists>h'. fill_list l es h = Some h' \<and> lists_ok h' (Q(l \<mapsto> xs @ es)) \<and> (\<forall>e. has_elem h' e = has_elem h e)"
  using assms
proof (induction es arbitrary: h Q xs)
  case Nil
  then have "Q(l \<mapsto> xs @ []) = Q" by auto
  with Nil show ?case by simp
next
  case (Cons e es)
  have "e \<notin> queued Q" "has_elem h e" using Cons.prems(4,5) by auto
  then obtain h1 where h1: "insert_tail (Some l) (Some (Elem e)) h = Some h1"
    "lists_ok h1 (Q(l \<mapsto> xs @ [e]))" "\<forall>e. has_elem h1 e = has_elem h e"
    using insert_tail_ok [OF Cons.prems(1,2)] by blast
  have sub: "queued (Q(l \<mapsto> xs @ [e])) \<subseteq> queued Q \<union> set (xs @ [e])" by (rule queued_upd_subset)
  have "set es \<inter> queued (Q(l \<mapsto> xs @ [e])) = {}" using sub Cons.prems(3,4) by auto
  moreover have "distinct ((xs @ [e]) @ es)" "\<forall>e \<in> set es. has_elem h1 e" using Cons.prems h1(3) by auto
  ultimately have "\<exists>h'. fill_list l es h1 = Some h' \<and> lists_ok h' (Q(l \<mapsto> xs @ [e], l \<mapsto> (xs @ [e]) @ es))
    \<and> (\<forall>e. has_elem h' e = has_elem h1 e)"
    using Cons.IH [OF h1(2) fun_upd_same] by blast
  with h1 show ?case by (auto simp only: fill_list.simps bind.bind_lunit fun_upd_upd append_assoc append.simps)
qed

lemma build_lists_ok:
  assumes "distinct (map fst ls)" "distinct (concat (map snd ls))" "\<forall>e \<in> set (concat (map snd ls)). has_elem h e"
  shows "\<exists>h'. build_lists ls h = Some h' \<and> lists_ok h' (map_of ls) \<and> (\<forall>e. has_elem h' e = has_elem h e)"
  using assms
proof (induction ls)
  case (Cons x ls)
  obtain l es where x: "x = (l, es)" by (cases x)
  obtain h1 where h1: "build_lists ls h = Some h1" "lists_ok h1 (map_of ls)" "\<forall>e. has_elem h1 e = has_elem h e"
    using Cons by auto
  have "l \<notin> dom (map_of ls)" using Cons.prems(1) x by (simp add: dom_map_of_conv_image_fst)
  then obtain h2 where h2: "list_init l (alloc_list l zero_junk h1) = Some h2" "lists_ok h2 ((map_of ls)(l \<mapsto> []))"
    "\<forall>e. has_elem h2 e = has_elem h1 e"
    using list_init_ok [OF h1(2)] by blast
  have "queued (map_of ls) \<subseteq> set (concat (map snd ls))"
    by (auto simp: queued_def dest!: map_of_SomeD intro!: bexI)
  then have "queued ((map_of ls)(l \<mapsto> [])) \<subseteq> set (concat (map snd ls))"
    using queued_upd_subset [of "map_of ls" l "[]"] by auto
  then have "set es \<inter> queued ((map_of ls)(l \<mapsto> [])) = {}" using Cons.prems(2) x by auto
  moreover have "distinct ([] @ es)" "\<forall>e \<in> set es. has_elem h2 e" using Cons.prems x h1(3) h2(3) by auto
  ultimately obtain h3 where "fill_list l es h2 = Some h3" "lists_ok h3 ((map_of ls)(l \<mapsto> [], l \<mapsto> [] @ es))"
    "\<forall>e. has_elem h3 e = has_elem h2 e"
    using fill_list_ok [OF h2(2) fun_upd_same] by blast
  moreover have "(map_of ls)(l \<mapsto> [], l \<mapsto> [] @ es) = map_of (x # ls)" by (rule ext) (simp add: x)
  ultimately have "build_lists (x # ls) h = Some h3" "lists_ok h3 (map_of (x # ls))"
    "\<forall>e. has_elem h3 e = has_elem h e"
    using h1 h2 x by simp_all
  then show ?case by blast
qed simp

lemma has_elem_fold_alloc:
  "has_elem (fold (\<lambda>e. alloc_elem e zero_junk) nodes h) e \<longleftrightarrow> e \<in> set nodes \<or> has_elem h e"
  by (induction nodes arbitrary: h) auto

lemma list_heap_ok:
  assumes "distinct (map fst ls)" "distinct (concat (map snd ls))" "set (concat (map snd ls)) \<subseteq> set nodes"
  shows "lists_ok (list_heap nodes ls) (map_of ls)" "has_elem (list_heap nodes ls) e \<longleftrightarrow> e \<in> set nodes"
proof -
  let ?h = "fold (\<lambda>e. alloc_elem e zero_junk) nodes no_lists"
  have el: "has_elem ?h e \<longleftrightarrow> e \<in> set nodes" for e
    unfolding has_elem_fold_alloc by (simp add: has_elem_def no_lists_def)
  obtain h' where h': "build_lists ls ?h = Some h'" "lists_ok h' (map_of ls)" "\<forall>e. has_elem h' e = has_elem ?h e"
    using build_lists_ok [OF assms(1,2), of ?h] assms(3) unfolding el by blast
  then show "lists_ok (list_heap nodes ls) (map_of ls)" "has_elem (list_heap nodes ls) e \<longleftrightarrow> e \<in> set nodes"
    unfolding list_heap_def by (simp_all add: el)
qed

end
