(* ===== verification/Frames.thy ===== *)
theory Frames
  imports Prelude
begin

text \<open>
  The physical frame allocator of \<open>frames.c\<close>: a global array \<open>frame_bitMap\<close> with one
  \<open>int\<close> per frame, 0 for free. The array is as long as its allocation in
  \<open>init_region0_pageTable\<close>; the loop of \<open>allocate_frame\<close> runs to \<open>NUM_VPN\<close>, so a read
  past a shorter array is undefined in the model. \<open>frame_pool\<close> is the contract the
  memory code relies on, interpreted by the two operations.
\<close>

section \<open>The contract\<close>

datatype pool_op = Request | Release int

locale frame_pool =
  fixes inv :: "'s \<Rightarrow> bool"
    and used :: "'s \<Rightarrow> nat set"
    and cap :: nat
    and err :: int
    and alloc :: "'s \<Rightarrow> (int \<times> 's) option"
    and release :: "int \<Rightarrow> 's \<Rightarrow> 's option"
  assumes used_bound: "used s \<subseteq> {..<cap}"
    and alloc_free_law: "inv s \<Longrightarrow> used s \<noteq> {..<cap} \<Longrightarrow>
      \<exists>n s'. alloc s = Some (int n, s') \<and> inv s' \<and> n < cap \<and> n \<notin> used s \<and> used s' = insert n (used s)"
    and alloc_full_law: "inv s \<Longrightarrow> used s = {..<cap} \<Longrightarrow> alloc s = Some (err, s)"
    and release_law: "inv s \<Longrightarrow> n < cap \<Longrightarrow>
      \<exists>s'. release (int n) s = Some s' \<and> inv s' \<and> used s' = used s - {n}"
    and release_out_law: "inv s \<Longrightarrow> r \<notin> int ` {..<cap} \<Longrightarrow> release r s = Some s"
begin

lemma finite_used [simp]: "finite (used s)"
  by (rule finite_subset [OF used_bound]) simp

lemma card_used: "card (used s) \<le> cap"
  using card_mono [OF _ used_bound [of s]] by simp

lemma room: "card (used s) < cap \<Longrightarrow> used s \<noteq> {..<cap}"
  by (metis card_lessThan less_irrefl)

text \<open>The allocator always answers: a fresh frame, or the error code and no change.\<close>

lemma alloc_total:
  assumes "inv s"
  shows "\<exists>r s'. alloc s = Some (r, s') \<and> inv s' \<and> used s \<subseteq> used s' \<and>
    (r = err \<and> s' = s \<or> (\<exists>n. r = int n \<and> n < cap \<and> n \<notin> used s \<and> used s' = insert n (used s)))"
proof (cases "used s = {..<cap}")
  case True
  with alloc_full_law [OF assms] show ?thesis using assms by auto
next
  case False
  with alloc_free_law [OF assms] show ?thesis by blast
qed

lemma release_total:
  assumes "inv s"
  shows "\<exists>s'. release r s = Some s' \<and> inv s' \<and> used s' = {n \<in> used s. int n \<noteq> r}"
proof (cases "r \<in> int ` {..<cap}")
  case True
  then obtain n where n: "r = int n" "n < cap" by auto
  have "{m \<in> used s. int m \<noteq> r} = used s - {n}" using n(1) by auto
  then show ?thesis using release_law [OF assms n(2)] n(1) by simp
next
  case False
  then have "{m \<in> used s. int m \<noteq> r} = used s" using used_bound [of s] by auto
  then show ?thesis using release_out_law [OF assms False] assms by simp
qed

text \<open>Any interleaving of requests and releases, with the answer of every request.\<close>

primrec run :: "pool_op list \<Rightarrow> 's \<Rightarrow> (int option list \<times> 's) option" where
  "run [] s = Some ([], s)"
| "run (x # xs) s = (case x of
     Request \<Rightarrow> do { (r, s) \<leftarrow> alloc s; (rs, s) \<leftarrow> run xs s; Some (Some r # rs, s) }
   | Release r \<Rightarrow> do { s \<leftarrow> release r s; (rs, s) \<leftarrow> run xs s; Some (None # rs, s) })"

text \<open>What has been granted, or was in use at the start, is granted again only after a release.\<close>

lemma run_ok:
  assumes "inv s"
  shows "\<exists>rs s'. run xs s = Some (rs, s') \<and> inv s' \<and> length rs = length xs
    \<and> (\<forall>j n. j < length rs \<and> rs ! j = Some (int n) \<and> int n \<noteq> err \<and> n \<in> used s \<longrightarrow> (\<exists>k < j. xs ! k = Release (int n)))
    \<and> (\<forall>i j r. i < j \<and> j < length rs \<and> rs ! i = Some r \<and> rs ! j = Some r \<and> r \<noteq> err \<longrightarrow>
         (\<exists>k. i < k \<and> k < j \<and> xs ! k = Release r))
    \<and> (card (used s) + count_list xs Request \<le> cap \<longrightarrow>
         (\<forall>j < length xs. xs ! j = Request \<longrightarrow> (\<exists>n < cap. rs ! j = Some (int n))))"
  using assms
proof (induction xs arbitrary: s)
  case Nil
  then show ?case by simp
next
  case (Cons x xs)
  define granted where "granted r s1 \<longleftrightarrow> (case x of
      Request \<Rightarrow> r = Some err \<and> s1 = s \<and> used s = {..<cap}
        \<or> (\<exists>n. r = Some (int n) \<and> n < cap \<and> n \<notin> used s \<and> used s1 = insert n (used s))
    | Release v \<Rightarrow> r = None \<and> used s1 = {n \<in> used s. int n \<noteq> v})" for r s1
  obtain r s1 where one: "\<And>rs s2. run xs s1 = Some (rs, s2) \<Longrightarrow> run (x # xs) s = Some (r # rs, s2)"
    "inv s1" "granted r s1"
  proof (cases x)
    case Request
    show thesis
    proof (cases "used s = {..<cap}")
      case True
      then show thesis using that [of s "Some err"] alloc_full_law [OF Cons.prems] Cons.prems Request
        by (simp add: granted_def)
    next
      case False
      then obtain n s1 where "alloc s = Some (int n, s1)" "inv s1" "n < cap" "n \<notin> used s" "used s1 = insert n (used s)"
        using alloc_free_law [OF Cons.prems] by blast
      then show thesis using that [of s1 "Some (int n)"] Request by (simp add: granted_def)
    qed
  next
    case (Release v)
    obtain s1 where "release v s = Some s1" "inv s1" "used s1 = {n \<in> used s. int n \<noteq> v}"
      using release_total [OF Cons.prems] by blast
    then show thesis using that [of s1 None] Release by (simp add: granted_def)
  qed
  obtain rs s2 where r: "run xs s1 = Some (rs, s2)" "inv s2" "length rs = length xs"
    "\<forall>j n. j < length rs \<and> rs ! j = Some (int n) \<and> int n \<noteq> err \<and> n \<in> used s1 \<longrightarrow> (\<exists>k < j. xs ! k = Release (int n))"
    "\<forall>i j r. i < j \<and> j < length rs \<and> rs ! i = Some r \<and> rs ! j = Some r \<and> r \<noteq> err \<longrightarrow>
         (\<exists>k. i < k \<and> k < j \<and> xs ! k = Release r)"
    "card (used s1) + count_list xs Request \<le> cap \<longrightarrow>
         (\<forall>j < length xs. xs ! j = Request \<longrightarrow> (\<exists>n < cap. rs ! j = Some (int n)))"
    using Cons.IH [OF one(2)] by (elim exE conjE) (rule that)
  have again: "\<exists>k < j. (x # xs) ! k = Release (int n)"
    if j: "j < length (r # rs)" "(r # rs) ! j = Some (int n)" "int n \<noteq> err" "n \<in> used s" for j n
  proof (cases j)
    case 0
    then have "r = Some (int n)" using j(2) by simp
    then have False using j(3,4) one(3) by (cases x) (auto simp: granted_def)
    then show ?thesis ..
  next
    case (Suc m)
    show ?thesis
    proof (cases "n \<in> used s1")
      case True
      then obtain k where "k < m" "xs ! k = Release (int n)" using r(4) [rule_format, of m n] j Suc by auto
      then show ?thesis using Suc by (intro exI [of _ "Suc k"]) simp
    next
      case False
      then have "x = Release (int n)" using j(4) one(3) by (auto simp: granted_def split: pool_op.splits)
      then show ?thesis using Suc by (intro exI [of _ 0]) simp
    qed
  qed
  have twice: "\<exists>k. i < k \<and> k < j \<and> (x # xs) ! k = Release v"
    if j: "i < j" "j < length (r # rs)" "(r # rs) ! i = Some v" "(r # rs) ! j = Some v" "v \<noteq> err" for i j v
  proof -
    obtain m where m: "j = Suc m" using j(1) by (cases j) auto
    obtain k where "i \<le> k" "k < m" "xs ! k = Release v"
    proof (cases i)
      case 0
      then obtain n where "v = int n" "n \<in> used s1"
        using j(3,5) one(3) by (cases x) (auto simp: granted_def)
      then show thesis using r(4) [rule_format, of m n] j m 0 that by auto
    next
      case (Suc i1)
      then show thesis using r(5) [rule_format, of i1 m v] j m that by (auto simp: Suc_le_eq)
    qed
    then show ?thesis using m by (intro exI [of _ "Suc k"]) simp
  qed
  have room: "\<exists>n < cap. (r # rs) ! j = Some (int n)"
    if c: "card (used s) + count_list (x # xs) Request \<le> cap" and j: "j < length (x # xs)" "(x # xs) ! j = Request" for j
  proof -
    have le: "card (used s1) + count_list xs Request \<le> cap \<and> (x = Request \<longrightarrow> (\<exists>n < cap. r = Some (int n)))"
    proof (cases x)
      case Request
      then have "used s \<noteq> {..<cap}" using c by (intro room) simp
      then show ?thesis using Request one(3) c by (auto simp: granted_def)
    next
      case (Release v)
      then have "card (used s1) \<le> card (used s)" using one(3) by (auto simp: granted_def intro!: card_mono)
      then show ?thesis using Release c by simp
    qed
    show ?thesis using r(6) le j by (cases j) auto
  qed
  show ?case
  proof (rule exI [of _ "r # rs"], rule exI [of _ s2], intro conjI)
    show "run (x # xs) s = Some (r # rs, s2)" by (rule one(1) [OF r(1)])
    show "\<forall>j n. j < length (r # rs) \<and> (r # rs) ! j = Some (int n) \<and> int n \<noteq> err \<and> n \<in> used s \<longrightarrow>
      (\<exists>k < j. (x # xs) ! k = Release (int n))" using again by blast
    show "\<forall>i j v. i < j \<and> j < length (r # rs) \<and> (r # rs) ! i = Some v \<and> (r # rs) ! j = Some v \<and> v \<noteq> err \<longrightarrow>
      (\<exists>k. i < k \<and> k < j \<and> (x # xs) ! k = Release v)" using twice by blast
    show "card (used s) + count_list (x # xs) Request \<le> cap \<longrightarrow>
      (\<forall>j < length (x # xs). (x # xs) ! j = Request \<longrightarrow> (\<exists>n < cap. (r # rs) ! j = Some (int n)))" using room by blast
  qed (use r(2,3) in simp_all)
qed

lemma release_alloc_room:
  assumes "inv s" "n < cap"
  shows "\<exists>s' m s''. release (int n) s = Some s' \<and> alloc s' = Some (int m, s'') \<and> m < cap"
proof -
  obtain s' where s': "release (int n) s = Some s'" "inv s'" "used s' = used s - {n}"
    using release_law [OF assms] by blast
  have "used s' \<noteq> {..<cap}" using s'(3) assms(2) by auto
  then show ?thesis using alloc_free_law [OF s'(2)] s'(1) by blast
qed

end

section \<open>frames.c\<close>

record frames =
  frame_bitMap :: "int list"

function alloc_scan :: "hw \<Rightarrow> nat \<Rightarrow> int list \<Rightarrow> (int \<times> int list) option" where
  "alloc_scan H i bm =
     (if i < NUM_VPN H then do {
        b \<leftarrow> arr_get bm (int i);
        if b = 0 then do { bm \<leftarrow> arr_set bm (int i) 1; Some (int i, bm) }
        else alloc_scan H (Suc i) bm }
      else Some (ERROR H, bm))"
  by pat_completeness auto
termination
  by (relation "measure (\<lambda>(H, i, bm). NUM_VPN H - i)") auto

declare alloc_scan.simps [simp del]

definition allocate_frame :: "hw \<Rightarrow> 'a frames_scheme \<Rightarrow> (int \<times> 'a frames_scheme) option" where
  "allocate_frame H s = do {
     (r, bm) \<leftarrow> alloc_scan H 0 (frame_bitMap s);
     Some (r, s\<lparr>frame_bitMap := bm\<rparr>) }"

definition free_frame :: "hw \<Rightarrow> int \<Rightarrow> 'a frames_scheme \<Rightarrow> 'a frames_scheme option" where
  "free_frame H pfn s =
     (if pfn < 0 \<or> pfn \<ge> int (NUM_VPN H) then Some s
      else do {
        b \<leftarrow> arr_get (frame_bitMap s) pfn;
        if b = 0 then Some s
        else do { bm \<leftarrow> arr_set (frame_bitMap s) pfn 0; Some (s\<lparr>frame_bitMap := bm\<rparr>) } })"

section \<open>Correctness\<close>

definition frames_inv :: "hw \<Rightarrow> 'a frames_scheme \<Rightarrow> bool" where
  "frames_inv H s \<longleftrightarrow> NUM_VPN H \<le> length (frame_bitMap s)"

definition used_frames :: "hw \<Rightarrow> 'a frames_scheme \<Rightarrow> nat set" where
  "used_frames H s = {n. n < NUM_VPN H \<and> frame_bitMap s ! n \<noteq> 0}"

lemma alloc_scan_spec:
  assumes "NUM_VPN H \<le> length bm"
  shows "alloc_scan H i bm =
    (if \<exists>n. i \<le> n \<and> n < NUM_VPN H \<and> bm ! n = 0
     then (let n = (LEAST n. i \<le> n \<and> n < NUM_VPN H \<and> bm ! n = 0) in Some (int n, bm[n := 1]))
     else Some (ERROR H, bm))"
  using assms
proof (induction H i bm rule: alloc_scan.induct)
  case (1 H i bm)
  consider (out) "\<not> i < NUM_VPN H" | (hit) "i < NUM_VPN H" "bm ! i = 0" | (miss) "i < NUM_VPN H" "bm ! i \<noteq> 0"
    by blast
  then show ?case
  proof cases
    case out
    then show ?thesis by (auto simp: alloc_scan.simps [of H i])
  next
    case hit
    then have "(LEAST n. i \<le> n \<and> n < NUM_VPN H \<and> bm ! n = 0) = i" by (intro Least_equality) auto
    with hit "1.prems" show ?thesis by (auto simp: alloc_scan.simps [of H i])
  next
    case miss
    have eq: "(i \<le> n \<and> n < NUM_VPN H \<and> bm ! n = 0) = (Suc i \<le> n \<and> n < NUM_VPN H \<and> bm ! n = 0)" for n
      using miss(2) by (metis Suc_leD Suc_leI le_neq_implies_less)
    have "alloc_scan H i bm = alloc_scan H (Suc i) bm"
      using miss "1.prems" by (simp add: alloc_scan.simps [of H i])
    also have "\<dots> = (if \<exists>n. Suc i \<le> n \<and> n < NUM_VPN H \<and> bm ! n = 0
       then (let n = (LEAST n. Suc i \<le> n \<and> n < NUM_VPN H \<and> bm ! n = 0) in Some (int n, bm[n := 1]))
       else Some (ERROR H, bm))"
      using miss "1.prems" by (intro "1.IH") auto
    finally show ?thesis by (simp only: eq)
  qed
qed

lemma allocate_frame_free:
  assumes inv: "frames_inv H s" and free: "used_frames H s \<noteq> {..<NUM_VPN H}"
  shows "\<exists>n. allocate_frame H s = Some (int n, s\<lparr>frame_bitMap := (frame_bitMap s)[n := 1]\<rparr>)
    \<and> n < NUM_VPN H \<and> n \<notin> used_frames H s \<and> (\<forall>m < n. m \<in> used_frames H s)"
proof -
  let ?P = "\<lambda>n. 0 \<le> n \<and> n < NUM_VPN H \<and> frame_bitMap s ! n = 0"
  define n where "n = (LEAST n. ?P n)"
  have ex: "\<exists>n. ?P n" using free by (auto simp: used_frames_def)
  then have n: "?P n" unfolding n_def by (rule LeastI_ex)
  have least: "\<not> ?P m" if "m < n" for m using that not_less_Least unfolding n_def by blast
  have "alloc_scan H 0 (frame_bitMap s) = Some (int n, (frame_bitMap s)[n := 1])"
    using alloc_scan_spec [of H "frame_bitMap s" 0] inv ex by (simp add: frames_inv_def n_def Let_def)
  with n least show ?thesis by (auto simp: allocate_frame_def used_frames_def)
qed

lemma allocate_frame_full:
  assumes inv: "frames_inv H s" and full: "used_frames H s = {..<NUM_VPN H}"
  shows "allocate_frame H s = Some (ERROR H, s)"
proof -
  have "\<not> (\<exists>n. 0 \<le> n \<and> n < NUM_VPN H \<and> frame_bitMap s ! n = 0)"
    using full by (auto simp: used_frames_def set_eq_iff)
  then have "alloc_scan H 0 (frame_bitMap s) = Some (ERROR H, frame_bitMap s)"
    using alloc_scan_spec [of H "frame_bitMap s" 0] inv by (simp only: frames_inv_def if_False)
  then show ?thesis by (simp add: allocate_frame_def)
qed

lemma used_frames_set:
  assumes "frames_inv H s" "n < NUM_VPN H"
  shows "used_frames H (s\<lparr>frame_bitMap := (frame_bitMap s)[n := v]\<rparr>)
    = (if v = 0 then used_frames H s - {n} else insert n (used_frames H s))"
  using assms by (auto simp: used_frames_def frames_inv_def nth_list_update)

lemma free_frame_run:
  assumes "frames_inv H s" "n < NUM_VPN H"
  shows "free_frame H (int n) s = Some (s\<lparr>frame_bitMap := (frame_bitMap s)[n := 0]\<rparr>)"
proof -
  have "(frame_bitMap s)[n := 0] = frame_bitMap s" if "frame_bitMap s ! n = 0"
    using that by (metis list_update_id)
  with assms show ?thesis by (auto simp: free_frame_def frames_inv_def)
qed

interpretation fp: frame_pool "frames_inv H" "used_frames H" "NUM_VPN H" "ERROR H"
  "allocate_frame H" "free_frame H" for H
proof unfold_locales
  fix s :: "'a frames_scheme" and n
  assume inv: "frames_inv H s"
  show "allocate_frame H s = Some (ERROR H, s)" if "used_frames H s = {..<NUM_VPN H}"
    using allocate_frame_full [OF inv that] .
  show "\<exists>n s'. allocate_frame H s = Some (int n, s') \<and> frames_inv H s' \<and> n < NUM_VPN H
      \<and> n \<notin> used_frames H s \<and> used_frames H s' = insert n (used_frames H s)"
    if "used_frames H s \<noteq> {..<NUM_VPN H}"
    using allocate_frame_free [OF inv that] used_frames_set [OF inv, of _ 1] inv
    by (fastforce simp: frames_inv_def)
  show "\<exists>s'. free_frame H (int n) s = Some s' \<and> frames_inv H s' \<and> used_frames H s' = used_frames H s - {n}"
    if "n < NUM_VPN H"
    using free_frame_run [OF inv that] used_frames_set [OF inv that, of 0] inv
    by (simp add: frames_inv_def)
  show "free_frame H r s = Some s" if "r \<notin> int ` {..<NUM_VPN H}" for r
  proof -
    have "int (nat r) = r \<longrightarrow> nat r \<notin> {..<NUM_VPN H}" using that by (metis image_eqI)
    then have "r < 0 \<or> r \<ge> int (NUM_VPN H)" by (cases "0 \<le> r") (simp_all add: nat_less_iff not_less)
    then show ?thesis by (simp add: free_frame_def)
  qed
qed (auto simp: used_frames_def)

text \<open>A run of the allocator: any sequence of requests and releases, with the results of the requests.\<close>

definition frame_run :: "hw \<Rightarrow> pool_op list \<Rightarrow> 'a frames_scheme \<Rightarrow> (int option list \<times> 'a frames_scheme) option" where
  "frame_run H = frame_pool.run (allocate_frame H) (free_frame H)"

lemma frame_run_simps [simp]:
  "frame_run H [] s = Some ([], s)"
  "frame_run H (Request # xs) s = do { (r, s) \<leftarrow> allocate_frame H s; (rs, s) \<leftarrow> frame_run H xs s; Some (Some r # rs, s) }"
  "frame_run H (Release r # xs) s = do { s \<leftarrow> free_frame H r s; (rs, s) \<leftarrow> frame_run H xs s; Some (None # rs, s) }"
  by (simp_all add: frame_run_def)

end
