(* ===== verification/Memory.thy ===== *)
theory Memory
  imports Frames
begin

text \<open>
  Page tables, address translation and the kernel heap: \<open>memory.c\<close>.

  A page table entry has the three fields of \<open>pte_t\<close> at their hardware width. The Region 0
  table is a static array; the other tables live on the kernel heap and are reached by
  pointer. The processor's view of memory (\<open>translate\<close>, byte and \<open>int\<close> accesses,
  \<open>memcpy\<close>) follows the documented single-level translation, so that a store through an
  unmapped or write-protected page has no result. Writes to the privileged registers are
  recorded in a log.
\<close>

section \<open>State\<close>

record pte =
  valid :: bool
  prot :: "3 word"
  pfn :: "24 word"

definition zero_pte :: pte where
  "zero_pte = \<lparr>valid = False, prot = 0, pfn = 0\<rparr>"

type_synonym pt_ptr = nat

datatype pt_base = Region0 | Table pt_ptr

datatype reg_write =
    W_PTBR0
  | W_PTLR0 u32
  | W_PTBR1 pt_ptr
  | W_PTLR1 nat
  | W_VM_ENABLE
  | W_VECTOR_BASE
  | W_TLB_FLUSH u32
  | W_TLB_FLUSH_1
  | W_TLB_FLUSH_ALL
  | W_TLB_FLUSH_KSTACK

record mem = frames +
  region0_pt :: "pte list"
  page_tables :: "pt_ptr \<rightharpoonup> pte list"
  vm_enabled :: int
  kernel_brk :: u32
  ptbr1 :: "pt_ptr option"
  pmem :: "nat \<Rightarrow> nat \<Rightarrow> u8"
  reg_log :: "reg_write list"

definition WriteRegister :: "reg_write \<Rightarrow> 'a mem_scheme \<Rightarrow> 'a mem_scheme" where
  "WriteRegister r s =
     (let s = s\<lparr>reg_log := reg_log s @ [r]\<rparr>
      in case r of W_PTBR1 p \<Rightarrow> s\<lparr>ptbr1 := Some p\<rparr> | _ \<Rightarrow> s)"

section \<open>Page tables\<close>

definition ADDR_TO_PAGE_NUM :: "hw \<Rightarrow> u32 \<Rightarrow> u32" where
  "ADDR_TO_PAGE_NUM H a = drop_bit (PAGESHIFT H) a"

definition PAGE_NUM_TO_ADDR :: "hw \<Rightarrow> u32 \<Rightarrow> u32" where
  "PAGE_NUM_TO_ADDR H p = push_bit (PAGESHIFT H) p"

definition pt_get :: "pt_base \<Rightarrow> int \<Rightarrow> 'a mem_scheme \<Rightarrow> pte option" where
  "pt_get b i s = (case b of
       Region0 \<Rightarrow> arr_get (region0_pt s) i
     | Table p \<Rightarrow> do { t \<leftarrow> page_tables s p; arr_get t i })"

definition pt_set :: "pt_base \<Rightarrow> int \<Rightarrow> pte \<Rightarrow> 'a mem_scheme \<Rightarrow> 'a mem_scheme option" where
  "pt_set b i e s = (case b of
       Region0 \<Rightarrow> do { t \<leftarrow> arr_set (region0_pt s) i e; Some (s\<lparr>region0_pt := t\<rparr>) }
     | Table p \<Rightarrow> do {
         t \<leftarrow> page_tables s p;
         t \<leftarrow> arr_set t i e;
         Some (s\<lparr>page_tables := (page_tables s)(p \<mapsto> t)\<rparr>) })"

definition set_frame :: "int \<Rightarrow> int \<Rightarrow> 'a frames_scheme \<Rightarrow> 'a frames_scheme option" where
  "set_frame f v s = do { bm \<leftarrow> arr_set (frame_bitMap s) f v; Some (s\<lparr>frame_bitMap := bm\<rparr>) }"

definition map_page :: "pt_base \<Rightarrow> int \<Rightarrow> int \<Rightarrow> 3 word \<Rightarrow> 'a mem_scheme \<Rightarrow> 'a mem_scheme option"
where
  "map_page b vpn f pr s = do {
     e \<leftarrow> pt_get b vpn s;
     let e = e\<lparr>valid := True, prot := pr, pfn := word_of_int f\<rparr>;
     s \<leftarrow> pt_set b vpn e s;
     set_frame (uint (pfn e)) 1 s }"

definition unmap_page :: "hw \<Rightarrow> pt_base \<Rightarrow> int \<Rightarrow> 'a mem_scheme \<Rightarrow> 'a mem_scheme option" where
  "unmap_page H b vpn s = do {
     e \<leftarrow> pt_get b vpn s;
     let e = e\<lparr>valid := False, prot := 0\<rparr>;
     s \<leftarrow> pt_set b vpn e s;
     s \<leftarrow> free_frame H (uint (pfn e)) s;
     pt_set b vpn (e\<lparr>pfn := 0\<rparr>) s }"

section \<open>The processor's accesses to memory\<close>

definition translate :: "hw \<Rightarrow> 3 word \<Rightarrow> u32 \<Rightarrow> 'a mem_scheme \<Rightarrow> (nat \<times> nat) option" where
  "translate H need a s = do {
     e \<leftarrow> (if a < VMEM_1_BASE H then pt_get Region0 (uint (ADDR_TO_PAGE_NUM H a)) s
          else if a < VMEM_1_LIMIT H then do {
            p \<leftarrow> ptbr1 s;
            pt_get (Table p) (uint (ADDR_TO_PAGE_NUM H (a - VMEM_1_BASE H))) s }
          else None);
     guard (valid e \<and> and (prot e) need = need);
     Some (unat (pfn e), unat (take_bit (PAGESHIFT H) a)) }"

definition load8 :: "hw \<Rightarrow> u32 \<Rightarrow> 'a mem_scheme \<Rightarrow> u8 option" where
  "load8 H a s = do { (f, k) \<leftarrow> translate H (PROT_READ H) a s; Some (pmem s f k) }"

definition store8 :: "hw \<Rightarrow> u32 \<Rightarrow> u8 \<Rightarrow> 'a mem_scheme \<Rightarrow> 'a mem_scheme option" where
  "store8 H a v s = do {
     (f, k) \<leftarrow> translate H (PROT_WRITE H) a s;
     Some (s\<lparr>pmem := (pmem s)(f := (pmem s f)(k := v))\<rparr>) }"

fun load_bytes :: "hw \<Rightarrow> u32 \<Rightarrow> nat \<Rightarrow> 'a mem_scheme \<Rightarrow> u8 list option" where
  "load_bytes H a 0 s = Some []"
| "load_bytes H a (Suc n) s = do { b \<leftarrow> load8 H a s; bs \<leftarrow> load_bytes H (a + 1) n s; Some (b # bs) }"

fun store_bytes :: "hw \<Rightarrow> u32 \<Rightarrow> u8 list \<Rightarrow> 'a mem_scheme \<Rightarrow> 'a mem_scheme option" where
  "store_bytes H a [] s = Some s"
| "store_bytes H a (b # bs) s = do { s \<leftarrow> store8 H a b s; store_bytes H (a + 1) bs s }"

definition store_int :: "hw \<Rightarrow> u32 \<Rightarrow> u32 \<Rightarrow> 'a mem_scheme \<Rightarrow> 'a mem_scheme option" where
  "store_int H a v s = store_bytes H a (enc_int H v) s"

definition load_int :: "hw \<Rightarrow> u32 \<Rightarrow> 'a mem_scheme \<Rightarrow> u32 option" where
  "load_int H a s = map_option (dec_int H) (load_bytes H a 4 s)"

text \<open>\<open>memcpy\<close> between two virtual ranges.\<close>

fun memcpy :: "hw \<Rightarrow> u32 \<Rightarrow> u32 \<Rightarrow> nat \<Rightarrow> 'a mem_scheme \<Rightarrow> 'a mem_scheme option" where
  "memcpy H d a 0 s = Some s"
| "memcpy H d a (Suc n) s = do { b \<leftarrow> load8 H a s; s \<leftarrow> store8 H d b s; memcpy H (d + 1) (a + 1) n s }"

section \<open>The kernel break\<close>

function shrink_loop :: "hw \<Rightarrow> u32 \<Rightarrow> u32 \<Rightarrow> 'a mem_scheme \<Rightarrow> 'a mem_scheme option" where
  "shrink_loop H i cur s =
     (if i < cur then do {
        e \<leftarrow> pt_get Region0 (uint i) s;
        s \<leftarrow> (if valid e then do {
               s \<leftarrow> free_frame H (uint (pfn e)) s;
               s \<leftarrow> set_frame (uint (pfn e)) 0 s;
               pt_set Region0 (uint i) zero_pte s }
             else Some s);
        shrink_loop H (i + 1) cur (WriteRegister (W_TLB_FLUSH (PAGE_NUM_TO_ADDR H i)) s) }
      else Some s)"
  by pat_completeness auto
termination
  by (relation "measure (\<lambda>(H, i, cur, s). unat cur - unat i)") (auto intro: word_loop_measure)

text \<open>
  The growing loop leaves by \<open>return ERROR\<close> (\<open>False\<close>) at the stack boundary or when no
  frame is free; \<open>True\<close> is the normal end.
\<close>

function grow_loop :: "hw \<Rightarrow> u32 \<Rightarrow> u32 \<Rightarrow> 'a mem_scheme \<Rightarrow> (bool \<times> 'a mem_scheme) option" where
  "grow_loop H i new s =
     (if i < new then
        if i \<ge> ADDR_TO_PAGE_NUM H (KERNEL_STACK_BASE H) then Some (False, s)
        else do {
          (f, s) \<leftarrow> allocate_frame H s;
          if f = ERROR H then Some (False, s)
          else do {
            s \<leftarrow> set_frame f 1 s;
            s \<leftarrow> pt_set Region0 (uint i)
                  \<lparr>valid = True, prot = or (PROT_READ H) (PROT_WRITE H), pfn = word_of_int f\<rparr> s;
            grow_loop H (i + 1) new (WriteRegister (W_TLB_FLUSH (PAGE_NUM_TO_ADDR H i)) s) } }
      else Some (True, s))"
  by pat_completeness auto
termination
  by (relation "measure (\<lambda>(H, i, new, s). unat new - unat i)") (auto intro: word_loop_measure)

declare shrink_loop.simps [simp del] grow_loop.simps [simp del]

definition SetKernelBrk :: "hw \<Rightarrow> u32 \<Rightarrow> 'a mem_scheme \<Rightarrow> (int \<times> 'a mem_scheme) option" where
  "SetKernelBrk H addr s =
     (let new_brk_page = ADDR_TO_PAGE_NUM H addr;
          current_kernel_brk_page = ADDR_TO_PAGE_NUM H (kernel_brk s);
          first_kernel_data_page_num = ADDR_TO_PAGE_NUM H (first_kernel_data_page H);
          kernel_heap_max_page_num = ADDR_TO_PAGE_NUM H (KERNEL_STACK_BASE H)
      in if new_brk_page < first_kernel_data_page_num then Some (ERROR H, s)
         else if vm_enabled s = 0 then
           (if new_brk_page \<ge> kernel_heap_max_page_num then Some (ERROR H, s)
            else if addr < kernel_brk s then Some (ERROR H, s)
            else Some (0, s\<lparr>kernel_brk := addr\<rparr>))
         else if new_brk_page \<ge> kernel_heap_max_page_num then Some (ERROR H, s)
         else if new_brk_page < current_kernel_brk_page then do {
           s \<leftarrow> shrink_loop H new_brk_page current_kernel_brk_page s;
           Some (0, s\<lparr>kernel_brk := addr\<rparr>) }
         else if new_brk_page > current_kernel_brk_page then do {
           (done, s) \<leftarrow> grow_loop H current_kernel_brk_page new_brk_page s;
           if done then Some (0, s\<lparr>kernel_brk := addr\<rparr>) else Some (ERROR H, s) }
         else Some (0, s\<lparr>kernel_brk := addr\<rparr>))"

section \<open>Boot-time tables and kernel stacks\<close>

text \<open>
  The two mapping loops of \<open>init_region0_pageTable\<close>. The loop index is an \<open>int\<close>; the
  comparison with the unsigned \<open>num_physical_frames\<close> is done on unsigned values, as C
  converts the index.
\<close>

function map_kernel_loop ::
  "hw \<Rightarrow> u32 \<Rightarrow> int \<Rightarrow> int \<Rightarrow> int \<Rightarrow> 'a mem_scheme \<Rightarrow> 'a mem_scheme option" where
  "map_kernel_loop H nframes data_start brk_start v s =
     (if v < brk_start then
        if v \<ge> int (MAX_PT_LEN H) then Some s
        else if (word_of_int v :: u32) \<ge> nframes then Some s
        else do {
          e \<leftarrow> pt_get Region0 v s;
          s \<leftarrow> pt_set Region0 v (e\<lparr>valid := True\<rparr>) s;
          s \<leftarrow> map_page Region0 v v
                (if v < data_start then or (PROT_READ H) (PROT_EXEC H)
                 else or (PROT_READ H) (PROT_WRITE H)) s;
          map_kernel_loop H nframes data_start brk_start (v + 1) s }
      else Some s)"
  by pat_completeness auto
termination
  by (relation "measure (\<lambda>(H, n, d, b, v, s). nat (b - v))") auto

function map_stack_loop :: "hw \<Rightarrow> u32 \<Rightarrow> int \<Rightarrow> int \<Rightarrow> 'a mem_scheme \<Rightarrow> 'a mem_scheme option" where
  "map_stack_loop H nframes limit v s =
     (if v < limit then
        if v \<ge> int (MAX_PT_LEN H) then Some s
        else if (word_of_int v :: u32) \<ge> nframes then Some s
        else do {
          s \<leftarrow> map_page Region0 v v (or (PROT_READ H) (PROT_WRITE H)) s;
          map_stack_loop H nframes limit (v + 1) s }
      else Some s)"
  by pat_completeness auto
termination
  by (relation "measure (\<lambda>(H, n, l, v, s). nat (l - v))") auto

declare map_kernel_loop.simps [simp del] map_stack_loop.simps [simp del]

text \<open>\<open>ok\<close>: whether \<open>calloc\<close> found memory for the bitmap; the code goes on without it.\<close>

definition init_region0_pageTable ::
  "hw \<Rightarrow> bool \<Rightarrow> int \<Rightarrow> int \<Rightarrow> int \<Rightarrow> u32 \<Rightarrow> 'a mem_scheme \<Rightarrow> 'a mem_scheme option" where
  "init_region0_pageTable H ok text_start data_start brk_start pmem_size s = do {
     guard (PAGESIZE H \<noteq> 0);
     let nframes = pmem_size div PAGESIZE H;
     guard ok;
     s \<leftarrow> Some (s\<lparr>frame_bitMap := replicate (unat nframes) 0\<rparr>);
     s \<leftarrow> set_frame 0 1 s;
     s \<leftarrow> map_kernel_loop H nframes data_start brk_start text_start s;
     s \<leftarrow> map_stack_loop H nframes (uint (ADDR_TO_PAGE_NUM H (KERNEL_STACK_LIMIT H)))
           (uint (ADDR_TO_PAGE_NUM H (KERNEL_STACK_BASE H))) s;
     s \<leftarrow> Some (WriteRegister W_PTBR0 s);
     Some (WriteRegister (W_PTLR0 (VMEM_0_LIMIT H div PAGESIZE H)) s) }"

definition enable_virtual_memory :: "'a mem_scheme \<Rightarrow> 'a mem_scheme" where
  "enable_virtual_memory s = (WriteRegister W_VM_ENABLE s)\<lparr>vm_enabled := 1\<rparr>"

text \<open>
  \<open>InitializeKernelStack\<close> fills a fresh table with one entry per kernel stack page: the
  boot stack's own frames before virtual memory is on, newly allocated frames after. The
  loops run over \<open>j\<close> from 0; \<open>n\<close> is the number of pages left. \<open>Halted\<close> is the call of
  \<open>Halt()\<close> when \<open>malloc\<close> or the frame allocator fails.
\<close>

definition kstack_pages :: "hw \<Rightarrow> nat" where
  "kstack_pages H = unat (ADDR_TO_PAGE_NUM H (KERNEL_STACK_MAXSIZE H))"

fun kstack_identity_loop :: "hw \<Rightarrow> pt_ptr \<Rightarrow> int \<Rightarrow> nat \<Rightarrow> 'a mem_scheme \<Rightarrow> 'a mem_scheme option" where
  "kstack_identity_loop H p j 0 s = Some s"
| "kstack_identity_loop H p j (Suc n) s = do {
     s \<leftarrow> map_page (Table p) j (uint (ADDR_TO_PAGE_NUM H (KERNEL_STACK_BASE H)) + j)
           (or (PROT_READ H) (PROT_WRITE H)) s;
     kstack_identity_loop H p (j + 1) n s }"

fun kstack_alloc_loop ::
  "hw \<Rightarrow> pt_ptr \<Rightarrow> int \<Rightarrow> nat \<Rightarrow> 'a mem_scheme \<Rightarrow> (unit run \<times> 'a mem_scheme) option" where
  "kstack_alloc_loop H p j 0 s = Some (Ret (), s)"
| "kstack_alloc_loop H p j (Suc n) s = do {
     (f, s) \<leftarrow> allocate_frame H s;
     if f = ERROR H then Some (Halted, s)
     else do {
       s \<leftarrow> map_page (Table p) j f (or (PROT_READ H) (PROT_WRITE H)) s;
       kstack_alloc_loop H p (j + 1) n s } }"

definition InitializeKernelStack ::
  "hw \<Rightarrow> pt_ptr option \<Rightarrow> pte list \<Rightarrow> 'a mem_scheme \<Rightarrow> (pt_ptr run \<times> 'a mem_scheme) option" where
  "InitializeKernelStack H m junk s =
     (case m of None \<Rightarrow> Some (Halted, s)
      | Some p \<Rightarrow> do {
          s \<leftarrow> Some (s\<lparr>page_tables := (page_tables s)(p \<mapsto> take (kstack_pages H) junk)\<rparr>);
          s \<leftarrow> (if vm_enabled s = 0 then kstack_identity_loop H p 0 (kstack_pages H) s else Some s);
          if vm_enabled s = 1 then do {
            (r, s) \<leftarrow> kstack_alloc_loop H p 0 (kstack_pages H) s;
            Some (case r of Halted \<Rightarrow> Halted | Ret _ \<Rightarrow> Ret p, s) }
          else Some (Ret p, s) })"

section \<open>The kernel break: what the loops do\<close>

definition rw_pte :: "hw \<Rightarrow> nat \<Rightarrow> pte" where
  "rw_pte H f = \<lparr>valid = True, prot = or (PROT_READ H) (PROT_WRITE H), pfn = word_of_nat f\<rparr>"

definition clear_pte :: "pte \<Rightarrow> pte" where
  "clear_pte e = (if valid e then zero_pte else e)"

lemma clear_rw_pte [simp]: "clear_pte (rw_pte H f) = zero_pte"
  by (simp add: clear_pte_def rw_pte_def)

lemma set_frame_run: "f < length (frame_bitMap s) \<Longrightarrow>
  set_frame (int f) v s = Some (s\<lparr>frame_bitMap := (frame_bitMap s)[f := v]\<rparr>)"
  by (simp add: set_frame_def)

lemma pt_get_Region0: "i < length (region0_pt s) \<Longrightarrow> pt_get Region0 (int i) s = Some (region0_pt s ! i)"
  by (simp add: pt_get_def)

lemma pt_set_Region0: "i < length (region0_pt s) \<Longrightarrow>
  pt_set Region0 (int i) e s = Some (s\<lparr>region0_pt := (region0_pt s)[i := e]\<rparr>)"
  by (simp add: pt_set_def)

lemma uint_nat_eq: "uint (i :: 'a::len word) = int (unat i)"
  by simp

lemma used_frames_upd_simps [simp]:
  "used_frames H (s\<lparr>region0_pt := t\<rparr>) = used_frames H s"
  "used_frames H (WriteRegister r s) = used_frames H s"
  "frames_inv H (s\<lparr>region0_pt := t\<rparr>) = frames_inv H s"
  "frames_inv H (WriteRegister r s) = frames_inv H s"
  by (simp_all add: used_frames_def frames_inv_def WriteRegister_def Let_def split: reg_write.split)

lemma WriteRegister_simps [simp]:
  "frame_bitMap (WriteRegister r s) = frame_bitMap s"
  "region0_pt (WriteRegister r s) = region0_pt s"
  "page_tables (WriteRegister r s) = page_tables s"
  "vm_enabled (WriteRegister r s) = vm_enabled s"
  "kernel_brk (WriteRegister r s) = kernel_brk s"
  "pmem (WriteRegister r s) = pmem s"
  by (simp_all add: WriteRegister_def Let_def split: reg_write.split)

text \<open>One iteration of the growing loop.\<close>

lemma grow_step:
  assumes inv: "frames_inv H s" and err: "ERROR H < 0"
    and i: "i < new" "new \<le> ADDR_TO_PAGE_NUM H (KERNEL_STACK_BASE H)" "unat new \<le> length (region0_pt s)"
    and room: "used_frames H s \<noteq> {..<NUM_VPN H}"
  shows "\<exists>f s'. grow_loop H i new s = grow_loop H (i + 1) new s' \<and> frames_inv H s' \<and> f < NUM_VPN H
    \<and> f \<notin> used_frames H s \<and> used_frames H s' = insert f (used_frames H s)
    \<and> region0_pt s' = (region0_pt s)[unat i := rw_pte H f]
    \<and> kernel_brk s' = kernel_brk s \<and> vm_enabled s' = vm_enabled s \<and> page_tables s' = page_tables s"
proof -
  obtain f where f: "allocate_frame H s = Some (int f, s\<lparr>frame_bitMap := (frame_bitMap s)[f := 1]\<rparr>)"
    "f < NUM_VPN H" "f \<notin> used_frames H s"
    using allocate_frame_free [OF inv room] by blast
  define s' where "s' = WriteRegister (W_TLB_FLUSH (PAGE_NUM_TO_ADDR H i))
     (s\<lparr>frame_bitMap := (frame_bitMap s)[f := 1], region0_pt := (region0_pt s)[unat i := rw_pte H f]\<rparr>)"
  have il: "unat i < length (region0_pt s)" using i by (simp add: word_less_nat_alt)
  have fl: "f < length (frame_bitMap s)" using f(2) inv by (simp add: frames_inv_def)
  have "\<not> ADDR_TO_PAGE_NUM H (KERNEL_STACK_BASE H) \<le> i" using i(1,2) by (meson leD le_less_trans not_le)
  then have "grow_loop H i new s = grow_loop H (i + 1) new s'"
    using i(1) f(1) err il fl
    by (simp add: grow_loop.simps [of H i new s] set_frame_run uint_nat_eq pt_set_Region0 s'_def rw_pte_def
        del: of_nat_unat)
  moreover have "frames_inv H s'" using inv by (simp add: frames_inv_def s'_def)
  moreover have "used_frames H s' = insert f (used_frames H s)"
    using used_frames_set [OF inv f(2), of 1] by (simp add: s'_def used_frames_def)
  ultimately show ?thesis
    using f(2,3) by (intro exI [of _ f] exI [of _ s']) (simp add: s'_def)
qed

lemma grow_loop_spec:
  assumes "frames_inv H s" "ERROR H < 0" "i \<le> new"
    "new \<le> ADDR_TO_PAGE_NUM H (KERNEL_STACK_BASE H)" "unat new \<le> length (region0_pt s)"
  shows "\<exists>fs s'. grow_loop H i new s
      = Some (unat new - unat i \<le> NUM_VPN H - card (used_frames H s), s')
    \<and> length fs = min (unat new - unat i) (NUM_VPN H - card (used_frames H s)) \<and> distinct fs
    \<and> set fs \<inter> used_frames H s = {} \<and> used_frames H s' = used_frames H s \<union> set fs \<and> frames_inv H s'
    \<and> region0_pt s' = take (unat i) (region0_pt s) @ map (rw_pte H) fs
         @ drop (unat i + length fs) (region0_pt s)
    \<and> kernel_brk s' = kernel_brk s \<and> vm_enabled s' = vm_enabled s \<and> page_tables s' = page_tables s"
  using assms
proof (induction "unat new - unat i" arbitrary: i s)
  case 0
  then have "\<not> i < new" by (simp add: word_less_nat_alt)
  with 0 show ?case by (intro exI [of _ "[]"] exI [of _ s]) (simp add: grow_loop.simps [of H new new s])
next
  case (Suc n)
  have lt: "i < new" using Suc.hyps(2) by (simp add: word_less_nat_alt)
  have si: "unat (i + 1) = Suc (unat i)" by (rule unat_suc_below [OF lt])
  show ?case
  proof (cases "used_frames H s = {..<NUM_VPN H}")
    case True
    have "\<not> ADDR_TO_PAGE_NUM H (KERNEL_STACK_BASE H) \<le> i"
      using lt Suc.prems(4) by (meson leD le_less_trans not_le)
    then have "grow_loop H i new s = Some (False, s)"
      using lt allocate_frame_full [OF Suc.prems(1) True] by (simp add: grow_loop.simps [of H i new s])
    then show ?thesis
      using Suc.prems(1) Suc.hyps(2) True by (intro exI [of _ "[]"] exI [of _ s]) simp
  next
    case False
    obtain f s1 where st: "grow_loop H i new s = grow_loop H (i + 1) new s1" "frames_inv H s1" "f < NUM_VPN H"
      "f \<notin> used_frames H s" "used_frames H s1 = insert f (used_frames H s)"
      "region0_pt s1 = (region0_pt s)[unat i := rw_pte H f]"
      "kernel_brk s1 = kernel_brk s" "vm_enabled s1 = vm_enabled s" "page_tables s1 = page_tables s"
      using grow_step [OF Suc.prems(1,2) lt Suc.prems(4,5) False] by blast
    have c1: "card (used_frames H s1) = Suc (card (used_frames H s))"
      using st(4,5) by (simp add: fp.finite_used)
    have c0: "card (used_frames H s) < NUM_VPN H" using c1 fp.card_used [of H s1] by simp
    have le: "i + 1 \<le> new" using lt by (simp add: word_le_nat_alt word_less_nat_alt si)
    have n1: "n = unat new - unat (i + 1)" using Suc.hyps(2) si by simp
    obtain fs s2 where r: "grow_loop H (i + 1) new s1
          = Some (unat new - unat (i + 1) \<le> NUM_VPN H - card (used_frames H s1), s2)"
      "length fs = min (unat new - unat (i + 1)) (NUM_VPN H - card (used_frames H s1))" "distinct fs"
      "set fs \<inter> used_frames H s1 = {}" "used_frames H s2 = used_frames H s1 \<union> set fs" "frames_inv H s2"
      "region0_pt s2 = take (unat (i + 1)) (region0_pt s1) @ map (rw_pte H) fs
         @ drop (unat (i + 1) + length fs) (region0_pt s1)"
      "kernel_brk s2 = kernel_brk s1" "vm_enabled s2 = vm_enabled s1" "page_tables s2 = page_tables s1"
      using Suc.hyps(1) [OF n1 st(2) Suc.prems(2) le Suc.prems(4)] Suc.prems(5) st(6) by auto
    have il: "unat i < length (region0_pt s)" using lt Suc.prems(5) by (simp add: word_less_nat_alt)
    have "region0_pt s2 = take (unat i) (region0_pt s) @ map (rw_pte H) (f # fs)
         @ drop (unat i + length (f # fs)) (region0_pt s)"
      using il by (simp add: r(7) st(6) si take_Suc_conv_app_nth)
    moreover have "grow_loop H i new s = Some (unat new - unat i \<le> NUM_VPN H - card (used_frames H s), s2)"
      using st(1) r(1) c0 c1 Suc.hyps(2) si by simp arith
    moreover have "length (f # fs) = min (unat new - unat i) (NUM_VPN H - card (used_frames H s))"
      using r(2) c0 c1 Suc.hyps(2) si by simp arith
    moreover have "distinct (f # fs)" "set (f # fs) \<inter> used_frames H s = {}"
      "used_frames H s2 = used_frames H s \<union> set (f # fs)"
      using r(3-5) st(4,5) by auto
    moreover have "kernel_brk s2 = kernel_brk s" "vm_enabled s2 = vm_enabled s" "page_tables s2 = page_tables s"
      using r(8-10) st(7-9) by simp_all
    ultimately show ?thesis using r(6) by blast
  qed
qed

text \<open>One iteration of the shrinking loop.\<close>

lemma shrink_step:
  assumes inv: "frames_inv H s" and i: "i < cur" "unat cur \<le> length (region0_pt s)"
    and pf: "valid (region0_pt s ! unat i) \<Longrightarrow> unat (pfn (region0_pt s ! unat i)) < NUM_VPN H"
  shows "\<exists>s'. shrink_loop H i cur s = shrink_loop H (i + 1) cur s' \<and> frames_inv H s'
    \<and> used_frames H s' = used_frames H s -
        (if valid (region0_pt s ! unat i) then {unat (pfn (region0_pt s ! unat i))} else {})
    \<and> region0_pt s' = (region0_pt s)[unat i := clear_pte (region0_pt s ! unat i)]
    \<and> vm_enabled s' = vm_enabled s \<and> page_tables s' = page_tables s"
proof -
  let ?e = "region0_pt s ! unat i" and ?fl = "W_TLB_FLUSH (PAGE_NUM_TO_ADDR H i)"
  have il: "unat i < length (region0_pt s)" using i by (simp add: word_less_nat_alt)
  show ?thesis
  proof (cases "valid ?e")
    case False
    then have "shrink_loop H i cur s = shrink_loop H (i + 1) cur (WriteRegister ?fl s)"
      using i(1) il by (simp add: shrink_loop.simps [of H i cur s] uint_nat_eq pt_get_Region0 del: of_nat_unat)
    with False inv show ?thesis
      by (intro exI [of _ "WriteRegister ?fl s"]) (simp add: clear_pte_def)
  next
    case True
    let ?f = "unat (pfn ?e)"
    define bm where "bm = (frame_bitMap s)[?f := 0]"
    define s' where "s' = WriteRegister ?fl (s\<lparr>frame_bitMap := bm, region0_pt := (region0_pt s)[unat i := zero_pte]\<rparr>)"
    have fl: "?f < NUM_VPN H" "?f < length (frame_bitMap s)"
      using pf [OF True] inv by (auto simp: frames_inv_def)
    have "shrink_loop H i cur s = shrink_loop H (i + 1) cur s'"
      using i(1) il True fl free_frame_run [OF inv fl(1)]
      by (simp add: shrink_loop.simps [of H i cur s] uint_nat_eq pt_get_Region0 set_frame_run pt_set_Region0
          s'_def bm_def del: of_nat_unat)
    moreover have "frames_inv H s'" using inv by (simp add: s'_def bm_def frames_inv_def)
    moreover have "used_frames H s' = used_frames H s - {?f}"
      using used_frames_set [OF inv fl(1), of 0] by (simp add: s'_def bm_def used_frames_def)
    ultimately show ?thesis
      using True by (intro exI [of _ s']) (simp add: s'_def clear_pte_def)
  qed
qed

definition valid_frames :: "pte list \<Rightarrow> nat set" where
  "valid_frames t = {unat (pfn e) | e. e \<in> set t \<and> valid e}"

lemma valid_frames_simps [simp]:
  "valid_frames [] = {}"
  "valid_frames (e # t) = (if valid e then {unat (pfn e)} else {}) \<union> valid_frames t"
  "valid_frames (t @ u) = valid_frames t \<union> valid_frames u"
  by (auto simp: valid_frames_def)

definition pt_range :: "nat \<Rightarrow> nat \<Rightarrow> 'a list \<Rightarrow> 'a list" where
  "pt_range i j xs = take (j - i) (drop i xs)"

lemma pt_range_Suc: "i < j \<Longrightarrow> i < length xs \<Longrightarrow> pt_range i j xs = xs ! i # pt_range (Suc i) j xs"
  unfolding pt_range_def by (metis Cons_nth_drop_Suc Suc_diff_Suc take_Suc_Cons)

lemma pt_range_upd_before: "k < i \<Longrightarrow> pt_range i j (xs[k := v]) = pt_range i j xs"
  by (simp add: pt_range_def)

lemma pt_range_length [simp]: "j \<le> length xs \<Longrightarrow> length (pt_range i j xs) = j - i"
  by (simp add: pt_range_def)

lemma shrink_loop_spec:
  assumes "frames_inv H s" "i \<le> cur" "unat cur \<le> length (region0_pt s)"
    "valid_frames (pt_range (unat i) (unat cur) (region0_pt s)) \<subseteq> {..<NUM_VPN H}"
  shows "\<exists>s'. shrink_loop H i cur s = Some s' \<and> frames_inv H s'
    \<and> used_frames H s' = used_frames H s - valid_frames (pt_range (unat i) (unat cur) (region0_pt s))
    \<and> region0_pt s' = take (unat i) (region0_pt s)
        @ map clear_pte (pt_range (unat i) (unat cur) (region0_pt s)) @ drop (unat cur) (region0_pt s)
    \<and> vm_enabled s' = vm_enabled s \<and> page_tables s' = page_tables s"
  using assms
proof (induction "unat cur - unat i" arbitrary: i s)
  case 0
  then have "unat i = unat cur" by (simp add: word_le_nat_alt)
  then have "i = cur" by (simp only: word_unat_eq_iff)
  with 0 show ?case
    by (intro exI [of _ s]) (simp add: shrink_loop.simps [of H cur cur s] pt_range_def)
next
  case (Suc n)
  have lt: "i < cur" using Suc.hyps(2) by (simp add: word_less_nat_alt)
  have si: "unat (i + 1) = Suc (unat i)" by (rule unat_suc_below [OF lt])
  have il: "unat i < length (region0_pt s)" using lt Suc.prems(3) by (simp add: word_less_nat_alt)
  have sl: "pt_range (unat i) (unat cur) (region0_pt s)
      = region0_pt s ! unat i # pt_range (Suc (unat i)) (unat cur) (region0_pt s)"
    using lt il by (intro pt_range_Suc) (simp_all add: word_less_nat_alt)
  have pf: "unat (pfn (region0_pt s ! unat i)) < NUM_VPN H" if "valid (region0_pt s ! unat i)"
    using Suc.prems(4) that by (simp add: sl)
  obtain s1 where s1: "shrink_loop H i cur s = shrink_loop H (i + 1) cur s1" "frames_inv H s1"
    "used_frames H s1 = used_frames H s -
        (if valid (region0_pt s ! unat i) then {unat (pfn (region0_pt s ! unat i))} else {})"
    "region0_pt s1 = (region0_pt s)[unat i := clear_pte (region0_pt s ! unat i)]"
    "vm_enabled s1 = vm_enabled s" "page_tables s1 = page_tables s"
    using shrink_step [OF Suc.prems(1) lt Suc.prems(3) pf] by blast
  have sl1: "pt_range (unat (i + 1)) (unat cur) (region0_pt s1) = pt_range (Suc (unat i)) (unat cur) (region0_pt s)"
    by (simp add: s1(4) si pt_range_upd_before)
  have le: "i + 1 \<le> cur" using lt by (simp add: word_le_nat_alt word_less_nat_alt si)
  have n1: "n = unat cur - unat (i + 1)" using Suc.hyps(2) si by simp
  have len: "unat cur \<le> length (region0_pt s1)" using Suc.prems(3) by (simp add: s1(4))
  have vf: "valid_frames (pt_range (unat (i + 1)) (unat cur) (region0_pt s1)) \<subseteq> {..<NUM_VPN H}"
    using Suc.prems(4) unfolding sl1 by (simp add: sl)
  obtain s2 where s2: "shrink_loop H (i + 1) cur s1 = Some s2" "frames_inv H s2"
    "used_frames H s2 = used_frames H s1 - valid_frames (pt_range (unat (i + 1)) (unat cur) (region0_pt s1))"
    "region0_pt s2 = take (unat (i + 1)) (region0_pt s1)
        @ map clear_pte (pt_range (unat (i + 1)) (unat cur) (region0_pt s1)) @ drop (unat cur) (region0_pt s1)"
    "vm_enabled s2 = vm_enabled s1" "page_tables s2 = page_tables s1"
    using Suc.hyps(1) [of "i + 1" s1, OF n1 s1(2) le len vf] by blast
  have "drop (unat cur) (region0_pt s1) = drop (unat cur) (region0_pt s)"
    using lt by (simp add: s1(4) word_less_nat_alt)
  then have "region0_pt s2 = take (unat i) (region0_pt s)
      @ map clear_pte (pt_range (unat i) (unat cur) (region0_pt s)) @ drop (unat cur) (region0_pt s)"
    using il unfolding s2(4) sl1 sl by (simp add: s1(4) si take_Suc_conv_app_nth)
  moreover have "used_frames H s2 = used_frames H s - valid_frames (pt_range (unat i) (unat cur) (region0_pt s))"
    by (auto simp: s2(3) s1(3) sl1 sl)
  ultimately show ?case using s1 s2 by auto
qed

section \<open>SetKernelBrk\<close>

definition mem_inv :: "hw \<Rightarrow> 'a mem_scheme \<Rightarrow> bool" where
  "mem_inv H s \<longleftrightarrow> frames_inv H s \<and> length (region0_pt s) = MAX_PT_LEN H
     \<and> unat (ADDR_TO_PAGE_NUM H (KERNEL_STACK_BASE H)) \<le> MAX_PT_LEN H"

lemma mem_invD:
  "mem_inv H s \<Longrightarrow> frames_inv H s"
  "mem_inv H s \<Longrightarrow> p \<le> ADDR_TO_PAGE_NUM H (KERNEL_STACK_BASE H) \<Longrightarrow> unat p \<le> length (region0_pt s)"
  by (auto simp: mem_inv_def word_le_nat_alt)

abbreviation brk_page :: "hw \<Rightarrow> u32 \<Rightarrow> nat" where
  "brk_page H a \<equiv> unat (ADDR_TO_PAGE_NUM H a)"

lemma SetKernelBrk_grow:
  assumes "mem_inv H s" "ERROR H < 0" "vm_enabled s \<noteq> 0"
    and lo: "ADDR_TO_PAGE_NUM H (first_kernel_data_page H) \<le> ADDR_TO_PAGE_NUM H addr"
    and hi: "ADDR_TO_PAGE_NUM H addr < ADDR_TO_PAGE_NUM H (KERNEL_STACK_BASE H)"
    and up: "ADDR_TO_PAGE_NUM H (kernel_brk s) < ADDR_TO_PAGE_NUM H addr"
  shows "\<exists>fs s'. SetKernelBrk H addr s =
      Some (if brk_page H addr - brk_page H (kernel_brk s) \<le> NUM_VPN H - card (used_frames H s)
            then 0 else ERROR H, s')
    \<and> length fs = min (brk_page H addr - brk_page H (kernel_brk s)) (NUM_VPN H - card (used_frames H s))
    \<and> distinct fs \<and> set fs \<inter> used_frames H s = {} \<and> used_frames H s' = used_frames H s \<union> set fs
    \<and> region0_pt s' = take (brk_page H (kernel_brk s)) (region0_pt s) @ map (rw_pte H) fs
         @ drop (brk_page H (kernel_brk s) + length fs) (region0_pt s)
    \<and> kernel_brk s' = (if brk_page H addr - brk_page H (kernel_brk s) \<le> NUM_VPN H - card (used_frames H s)
                       then addr else kernel_brk s)
    \<and> vm_enabled s' = vm_enabled s \<and> frames_inv H s'"
proof -
  let ?i = "ADDR_TO_PAGE_NUM H (kernel_brk s)" and ?new = "ADDR_TO_PAGE_NUM H addr"
  have le: "?i \<le> ?new" "?new \<le> ADDR_TO_PAGE_NUM H (KERNEL_STACK_BASE H)" using up hi by simp_all
  have len: "unat ?new \<le> length (region0_pt s)" using mem_invD(2) [OF assms(1) le(2)] .
  obtain fs s1 where g: "grow_loop H ?i ?new s
      = Some (unat ?new - unat ?i \<le> NUM_VPN H - card (used_frames H s), s1)"
    "length fs = min (unat ?new - unat ?i) (NUM_VPN H - card (used_frames H s))" "distinct fs"
    "set fs \<inter> used_frames H s = {}" "used_frames H s1 = used_frames H s \<union> set fs" "frames_inv H s1"
    "region0_pt s1 = take (unat ?i) (region0_pt s) @ map (rw_pte H) fs
         @ drop (unat ?i + length fs) (region0_pt s)"
    "kernel_brk s1 = kernel_brk s" "vm_enabled s1 = vm_enabled s"
    using grow_loop_spec [OF mem_invD(1) [OF assms(1)] assms(2) le len] by blast
  let ?fits = "unat ?new - unat ?i \<le> NUM_VPN H - card (used_frames H s)"
  define s' where "s' = (if ?fits then s1\<lparr>kernel_brk := addr\<rparr> else s1)"
  have "SetKernelBrk H addr s = Some (if ?fits then 0 else ERROR H, s')"
    using assms(3) lo hi up g(1) by (auto simp: SetKernelBrk_def Let_def s'_def)
  moreover have "used_frames H s' = used_frames H s1" "region0_pt s' = region0_pt s1"
    "kernel_brk s' = (if ?fits then addr else kernel_brk s)" "vm_enabled s' = vm_enabled s" "frames_inv H s'"
    using g(6,8,9) by (simp_all add: s'_def used_frames_def frames_inv_def)
  ultimately show ?thesis using g(2-5,7) by (intro exI [of _ fs] exI [of _ s']) simp
qed

lemma SetKernelBrk_shrink:
  assumes "mem_inv H s" "vm_enabled s \<noteq> 0"
    and lo: "ADDR_TO_PAGE_NUM H (first_kernel_data_page H) \<le> ADDR_TO_PAGE_NUM H addr"
    and hi: "ADDR_TO_PAGE_NUM H (kernel_brk s) \<le> ADDR_TO_PAGE_NUM H (KERNEL_STACK_BASE H)"
    and down: "ADDR_TO_PAGE_NUM H addr < ADDR_TO_PAGE_NUM H (kernel_brk s)"
    and vf: "valid_frames (pt_range (brk_page H addr) (brk_page H (kernel_brk s)) (region0_pt s))
               \<subseteq> {..<NUM_VPN H}"
  shows "\<exists>s'. SetKernelBrk H addr s = Some (0, s')
    \<and> used_frames H s' = used_frames H s
        - valid_frames (pt_range (brk_page H addr) (brk_page H (kernel_brk s)) (region0_pt s))
    \<and> region0_pt s' = take (brk_page H addr) (region0_pt s)
        @ map clear_pte (pt_range (brk_page H addr) (brk_page H (kernel_brk s)) (region0_pt s))
        @ drop (brk_page H (kernel_brk s)) (region0_pt s)
    \<and> kernel_brk s' = addr \<and> vm_enabled s' = vm_enabled s \<and> frames_inv H s'"
proof -
  let ?cur = "ADDR_TO_PAGE_NUM H (kernel_brk s)" and ?new = "ADDR_TO_PAGE_NUM H addr"
  have len: "unat ?cur \<le> length (region0_pt s)" using mem_invD(2) [OF assms(1) hi] .
  have le: "?new \<le> ?cur" using down by simp
  obtain s1 where g: "shrink_loop H ?new ?cur s = Some s1" "frames_inv H s1"
    "used_frames H s1 = used_frames H s - valid_frames (pt_range (unat ?new) (unat ?cur) (region0_pt s))"
    "region0_pt s1 = take (unat ?new) (region0_pt s)
        @ map clear_pte (pt_range (unat ?new) (unat ?cur) (region0_pt s)) @ drop (unat ?cur) (region0_pt s)"
    "vm_enabled s1 = vm_enabled s"
    using shrink_loop_spec [OF mem_invD(1) [OF assms(1)] le len vf] by blast
  have nm: "\<not> ADDR_TO_PAGE_NUM H (KERNEL_STACK_BASE H) \<le> ?new" using down hi by (meson leD less_le_trans)
  have "SetKernelBrk H addr s = Some (0, s1\<lparr>kernel_brk := addr\<rparr>)"
    using assms(2) lo down g(1) nm by (auto simp: SetKernelBrk_def Let_def)
  moreover have "used_frames H (s1\<lparr>kernel_brk := addr\<rparr>) = used_frames H s1"
    "frames_inv H (s1\<lparr>kernel_brk := addr\<rparr>)"
    using g(2) by (simp_all add: used_frames_def frames_inv_def)
  ultimately show ?thesis using g(3-5) by simp
qed

section \<open>Loads and stores\<close>

lemma translate_pmem [simp]: "translate H p a (s\<lparr>pmem := m\<rparr>) = translate H p a s"
  by (simp add: translate_def pt_get_def split: pt_base.split)

lemma translate_frame_bitMap [simp]: "translate H p a (s\<lparr>frame_bitMap := m\<rparr>) = translate H p a s"
  by (simp add: translate_def pt_get_def split: pt_base.split)

lemma store_bytes_run:
  assumes "\<And>k. k < length bs \<Longrightarrow> translate H (PROT_WRITE H) (a + of_nat k) s = Some (f, off + k)"
  shows "store_bytes H a bs s = Some (s\<lparr>pmem := (pmem s)
    (f := (\<lambda>k. if off \<le> k \<and> k < off + length bs then bs ! (k - off) else pmem s f k))\<rparr>)"
  using assms
proof (induction bs arbitrary: a off s)
  case Nil
  have "(\<lambda>k. if off \<le> k \<and> k < off then [] ! (k - off) else pmem s f k) = pmem s f" by (rule ext) auto
  then show ?case by simp
next
  case (Cons b bs)
  let ?s = "s\<lparr>pmem := (pmem s)(f := (pmem s f)(off := b))\<rparr>"
  have st: "store8 H a b s = Some ?s" using Cons.prems [of 0] by (simp add: store8_def)
  have tr: "translate H (PROT_WRITE H) (a + 1 + of_nat k) ?s = Some (f, Suc off + k)" if "k < length bs" for k
    using Cons.prems [of "Suc k"] that by (simp add: add.assoc)
  define m where "m = (pmem s)
    (f := (\<lambda>k. if off \<le> k \<and> k < off + length (b # bs) then (b # bs) ! (k - off) else pmem s f k))"
  have eq: "(pmem ?s)(f := (\<lambda>k. if Suc off \<le> k \<and> k < Suc off + length bs
      then bs ! (k - Suc off) else pmem ?s f k)) = m"
    by (intro ext) (auto simp: m_def nth_Cons')
  have "store_bytes H (a + 1) bs ?s = Some (?s\<lparr>pmem := (pmem ?s)(f := (\<lambda>k.
      if Suc off \<le> k \<and> k < Suc off + length bs then bs ! (k - Suc off) else pmem ?s f k))\<rparr>)"
    by (rule Cons.IH [OF tr])
  also have "\<dots> = Some (s\<lparr>pmem := m\<rparr>)" unfolding eq by simp
  finally show ?case using st unfolding m_def [symmetric] by simp
qed

lemma load_bytes_run:
  assumes "\<And>k. k < n \<Longrightarrow> translate H (PROT_READ H) (a + of_nat k) s = Some (f, off + k)"
  shows "load_bytes H a n s = Some (map (\<lambda>k. pmem s f (off + k)) [0..<n])"
  using assms
proof (induction n arbitrary: a off)
  case (Suc n)
  have l: "load8 H a s = Some (pmem s f off)" using Suc.prems [of 0] by (simp add: load8_def)
  have tr: "translate H (PROT_READ H) (a + 1 + of_nat k) s = Some (f, Suc off + k)" if "k < n" for k
    using Suc.prems [of "Suc k"] that by (simp add: add.assoc)
  have "map (\<lambda>k. pmem s f (off + k)) [0..<Suc n]
      = pmem s f off # map (\<lambda>k. pmem s f (Suc off + k)) [0..<n]"
    by (simp add: map_upt_Suc del: upt_Suc)
  then show ?case using l Suc.IH [OF tr] by simp
qed simp

text \<open>An \<open>int\<close> stored through a pointer is read back through the same pointer.\<close>

lemma load_store_int:
  assumes "hw_ok H"
    and w: "\<And>k. k < 4 \<Longrightarrow> translate H (PROT_WRITE H) (a + of_nat k) s = Some (f, off + k)"
    and r: "\<And>k. k < 4 \<Longrightarrow> translate H (PROT_READ H) (a + of_nat k) s = Some (f, off + k)"
  shows "\<exists>s'. store_int H a v s = Some s' \<and> load_int H a s' = Some v"
proof -
  define m where "m = (pmem s)
    (f := (\<lambda>k. if off \<le> k \<and> k < off + 4 then enc_int H v ! (k - off) else pmem s f k))"
  have st: "store_int H a v s = Some (s\<lparr>pmem := m\<rparr>)"
    using store_bytes_run [of "enc_int H v" H a s f off] w hw_okD(9) [OF assms(1)]
    by (simp add: store_int_def m_def)
  have "load_bytes H a 4 (s\<lparr>pmem := m\<rparr>) = Some (map (\<lambda>k. m f (off + k)) [0..<4])"
    using load_bytes_run [of 4 H a "s\<lparr>pmem := m\<rparr>" f off] r by simp
  also have "map (\<lambda>k. m f (off + k)) [0..<4] = enc_int H v"
    using hw_okD(9) [OF assms(1), of v] by (intro nth_equalityI) (auto simp: m_def)
  finally show ?thesis using st hw_okD(10) [OF assms(1)] by (simp add: load_int_def)
qed

lemma memcpy_run:
  assumes "\<And>k. k < n \<Longrightarrow> translate H (PROT_WRITE H) (d + of_nat k) s = Some (fd, off + k)"
    and "\<And>k. k < n \<Longrightarrow> translate H (PROT_READ H) (a + of_nat k) s = Some (fs, off + k)"
    and "fd \<noteq> fs"
  shows "memcpy H d a n s = Some (s\<lparr>pmem := (pmem s)
    (fd := (\<lambda>k. if off \<le> k \<and> k < off + n then pmem s fs k else pmem s fd k))\<rparr>)"
  using assms
proof (induction n arbitrary: d a off s)
  case 0
  have "(\<lambda>k. if off \<le> k \<and> k < off then pmem s fs k else pmem s fd k) = pmem s fd" by (rule ext) auto
  then show ?case by simp
next
  case (Suc n)
  let ?s = "s\<lparr>pmem := (pmem s)(fd := (pmem s fd)(off := pmem s fs off))\<rparr>"
  have st: "load8 H a s = Some (pmem s fs off)" "store8 H d (pmem s fs off) s = Some ?s"
    using Suc.prems(1,2) [of 0] by (simp_all add: store8_def load8_def)
  have tr: "translate H (PROT_WRITE H) (d + 1 + of_nat k) ?s = Some (fd, Suc off + k)"
    "translate H (PROT_READ H) (a + 1 + of_nat k) ?s = Some (fs, Suc off + k)" if "k < n" for k
    using Suc.prems(1,2) [of "Suc k"] that by (simp_all add: add.assoc)
  define m where "m = (pmem s)(fd := (\<lambda>k. if off \<le> k \<and> k < off + Suc n then pmem s fs k else pmem s fd k))"
  have eq: "(pmem ?s)(fd := (\<lambda>k. if Suc off \<le> k \<and> k < Suc off + n then pmem ?s fs k else pmem ?s fd k)) = m"
    using Suc.prems(3) by (intro ext) (auto simp: m_def)
  have "memcpy H (d + 1) (a + 1) n ?s = Some (?s\<lparr>pmem := (pmem ?s)
      (fd := (\<lambda>k. if Suc off \<le> k \<and> k < Suc off + n then pmem ?s fs k else pmem ?s fd k))\<rparr>)"
    by (rule Suc.IH [OF tr Suc.prems(3)])
  also have "\<dots> = Some (s\<lparr>pmem := m\<rparr>)" unfolding eq by simp
  finally show ?case using st unfolding m_def [symmetric] by simp
qed

end
