(* ===== verification/Foundations.thy ===== *)
theory Foundations
  imports DList Memory
begin

text \<open>
  Properties of the three layers everything else is built on: the lists of \<open>list.c\<close>, the
  frame bitmap of \<open>frames.c\<close>, and the kernel break and memory accesses of \<open>memory.c\<close>.
\<close>

section \<open>Lists\<close>

text \<open>
  C24: On a heap that represents the sequences \<open>Q\<close>, every operation of \<open>list.c\<close> on a list is
  the corresponding operation on its sequence, and leaves every other list as it is: inserting
  at the tail and at the head, removing from anywhere, taking from the front, looking at the
  front and searching. None of them follows a NULL or dangling pointer, and the search ends.
\<close>

theorem list_operations_refine_sequences:
  assumes "lists_ok h Q" "Q l = Some xs"
  shows "(\<forall>n. n \<notin> queued Q \<and> has_elem h n \<longrightarrow>
        (\<exists>h'. insert_tail (Some l) (Some (Elem n)) h = Some h' \<and> lists_ok h' (Q(l \<mapsto> xs @ [n])))
      \<and> (\<exists>h'. insert_head (Some l) (Some (Elem n)) h = Some h' \<and> lists_ok h' (Q(l \<mapsto> n # xs))))
    \<and> (\<forall>n \<in> set xs. \<exists>h'. list_remove (Some l) (Some (Elem n)) h = Some h' \<and> lists_ok h' (Q(l \<mapsto> remove1 n xs)))
    \<and> (case xs of [] \<Rightarrow> pop H (Some l) h = Some (None, h)
       | n # ns \<Rightarrow> \<exists>h'. pop H (Some l) h = Some (Some (Elem n), h') \<and> lists_ok h' (Q(l \<mapsto> ns)))
    \<and> peek H (Some l) h = Some (if xs = [] then None else Some (Elem (hd xs)))
    \<and> (\<forall>n. list_contains H (Some l) (Some (Elem n)) h = Some (if n \<in> set xs then 1 else 0))"
proof (intro conjI allI ballI impI)
  show "\<exists>h'. insert_tail (Some l) (Some (Elem n)) h = Some h' \<and> lists_ok h' (Q(l \<mapsto> xs @ [n]))"
    if "n \<notin> queued Q \<and> has_elem h n" for n using insert_tail_ok [OF assms, of n] that by blast
  show "\<exists>h'. insert_head (Some l) (Some (Elem n)) h = Some h' \<and> lists_ok h' (Q(l \<mapsto> n # xs))"
    if "n \<notin> queued Q \<and> has_elem h n" for n using insert_head_ok [OF assms, of n] that by blast
  show "\<exists>h'. list_remove (Some l) (Some (Elem n)) h = Some h' \<and> lists_ok h' (Q(l \<mapsto> remove1 n xs))"
    if "n \<in> set xs" for n using list_remove_ok [OF assms that] by blast
  show "case xs of [] \<Rightarrow> pop H (Some l) h = Some (None, h)
       | n # ns \<Rightarrow> \<exists>h'. pop H (Some l) h = Some (Some (Elem n), h') \<and> lists_ok h' (Q(l \<mapsto> ns))"
    using pop_empty_ok [of h Q l H] pop_ok [of h Q l _ _ H] assms by (cases xs) (simp, fastforce)
  show "peek H (Some l) h = Some (if xs = [] then None else Some (Elem (hd xs)))" by (rule peek_ok [OF assms])
  show "list_contains H (Some l) (Some (Elem n)) h = Some (if n \<in> set xs then 1 else 0)" for n
    by (rule list_contains_ok [OF assms])
qed

lemma list_operations_refine_sequences_witness:
  "peek demo_hw (Some (0::nat)) (list_heap [1, 2, 3] [(0, [2, 3]), (1, [])]) = Some (Some (Elem (2::nat)))"
proof -
  have "lists_ok (list_heap [1, 2, 3] [(0, [2, 3]), (1, [])]) (map_of [(0::nat, [2, 3::nat]), (1, [])])"
    by (rule list_heap_ok(1)) simp_all
  from list_operations_refine_sequences [OF this, of 0 "[2, 3]" demo_hw] show ?thesis by simp
qed

text \<open>
  Elements inserted one by one at the tail of an empty list come out of it, popped one by
  one, in the order in which they went in, and the lists are then as they were.
\<close>

lemma list_fifo_roundtrip:
  assumes "lists_ok h Q" "Q l = Some []" "distinct es" "set es \<inter> queued Q = {}" "\<forall>e \<in> set es. has_elem h e"
  shows "\<exists>h1 h2. fill_list l es h = Some h1
    \<and> queue_store.deqs (\<lambda>l. pop H (Some l)) (length es) l h1 = Some (map Elem es, h2) \<and> lists_ok h2 Q"
proof -
  obtain h1 where h1: "fill_list l es h = Some h1" "lists_ok h1 (Q(l \<mapsto> es @ []))"
    using fill_list_ok [OF assms(1,2), of es] assms(3-5) by auto
  obtain h2 where h2: "queue_store.deqs (\<lambda>l. pop H (Some l)) (length es) l h1 = Some (map Elem es, h2)"
    "lists_ok h2 (Q(l \<mapsto> es @ [], l \<mapsto> []))"
    using qs.deqs_fifo [where H = H, OF h1(2), of l es "[]"] by auto
  have "Q(l \<mapsto> es @ [], l \<mapsto> []) = Q" using assms(2) by auto
  with h1 h2 show ?thesis by (intro exI [of _ h1] exI [of _ h2]) simp
qed

lemma list_fifo_roundtrip_demo:
  "\<exists>h1 h2. fill_list (0::nat) [3, 1] (list_heap [1, 2, 3::nat] [(0, []), (1, [2])]) = Some h1
     \<and> queue_store.deqs (\<lambda>l. pop demo_hw (Some l)) 2 0 h1 = Some ([Elem 3, Elem 1], h2)"
proof -
  let ?h = "list_heap [1, 2, 3::nat] [(0::nat, []), (1, [2])]" and ?Q = "map_of [(0::nat, []), (1, [2::nat])]"
  have ok: "lists_ok ?h ?Q" by (rule list_heap_ok(1)) simp_all
  have el: "has_elem ?h e \<longleftrightarrow> e \<in> set [1, 2, 3]" for e by (rule list_heap_ok(2)) simp_all
  have "queued ?Q = {2}" by (auto simp: queued_def split: if_splits)
  then have "set [3, 1] \<inter> queued ?Q = {}" by simp
  moreover have "\<forall>e \<in> set [3, 1]. has_elem ?h e" unfolding el by simp
  ultimately have "set [3, 1] \<inter> queued ?Q = {}" "\<forall>e \<in> set [3, 1]. has_elem ?h e" by blast+
  from list_fifo_roundtrip [OF ok _ _ this, of 0 demo_hw] show ?thesis by (simp add: numeral_2_eq_2) blast
qed

text \<open>
  C25: Destroying a represented list ends and reports success. The memory of the list is freed,
  both links of every element that was in it are NULL, and these elements are in no list and
  still allocated. No other node and no other list is touched.
\<close>

theorem destroy_list_releases:
  assumes "lists_ok h Q" "Q l = Some xs" "ERROR H \<noteq> 0"
  shows "\<exists>h'. destroy_list H (Some l) h = Some (0, h') \<and> lists_ok h' (Q(l := None)) \<and> list_gone h' l
    \<and> (\<forall>e \<in> set xs. unlinked h' e \<and> e \<notin> queued (Q(l := None))) \<and> (\<forall>e. has_elem h' e = has_elem h e)
    \<and> same_nodes l (set xs) h h'"
proof -
  have "e \<notin> queued (Q(l := None))" if "e \<in> set xs" for e
    using that lists_ok_disjoint [OF assms(1,2)] by (fastforce simp: queued_def split: if_splits)
  then show ?thesis using destroy_list_ok [OF assms] by blast
qed

lemma destroy_list_releases_witness:
  "\<exists>h'. destroy_list demo_hw (Some (0::nat)) (list_heap [1, 2::nat] [(0, [2, 1])]) = Some (0, h')
     \<and> has_elem h' 1 \<and> unlinked h' 2 \<and> list_gone h' 0"
proof -
  have ok: "lists_ok (list_heap [1, 2::nat] [(0::nat, [2, 1])]) (map_of [(0::nat, [2, 1::nat])])"
    by (rule list_heap_ok(1)) simp_all
  have "has_elem (list_heap [1, 2::nat] [(0::nat, [2, 1])]) 1" by (subst list_heap_ok(2)) simp_all
  then show ?thesis using destroy_list_releases [OF ok, of 0 "[2, 1]" demo_hw] by auto
qed

section \<open>Frames\<close>

text \<open>
  C26: With a bitmap at least as long as the number of frames the allocator scans, a request
  either gets the least free frame, which is in use afterwards and no other frame changes, or,
  exactly when every frame is in use, \<open>ERROR\<close> and nothing changes.
\<close>

theorem allocate_frame_least:
  assumes "frames_inv H s"
  shows "if used_frames H s = {..<NUM_VPN H} then allocate_frame H s = Some (ERROR H, s)
    else \<exists>n s'. allocate_frame H s = Some (int n, s') \<and> n < NUM_VPN H \<and> n \<notin> used_frames H s
      \<and> (\<forall>m < n. m \<in> used_frames H s) \<and> used_frames H s' = insert n (used_frames H s)"
proof (cases "used_frames H s = {..<NUM_VPN H}")
  case True
  then show ?thesis using allocate_frame_full [OF assms] by simp
next
  case False
  then obtain n where n: "allocate_frame H s = Some (int n, s\<lparr>frame_bitMap := (frame_bitMap s)[n := 1]\<rparr>)"
    "n < NUM_VPN H" "n \<notin> used_frames H s" "\<forall>m < n. m \<in> used_frames H s"
    using allocate_frame_free [OF assms] by blast
  have "used_frames H (s\<lparr>frame_bitMap := (frame_bitMap s)[n := 1]\<rparr>) = insert n (used_frames H s)"
    using used_frames_set [OF assms n(2), of 1] by simp
  with n False show ?thesis by auto
qed

lemma allocate_frame_least_witness:
  "\<exists>s'. allocate_frame demo_hw \<lparr>frame_bitMap = [1, 1, 0] @ replicate 13 1\<rparr> = Some (2, s')"
proof -
  let ?s = "\<lparr>frame_bitMap = [1, 1, 0] @ replicate 13 (1::int)\<rparr>"
  have inv: "frames_inv demo_hw ?s" by (simp add: frames_inv_def)
  have used: "used_frames demo_hw ?s = {..<16} - {2}"
    by (auto simp: used_frames_def nth_append nth_Cons' split: if_splits)
  have "(2::nat) \<in> {..<16}" by simp
  then have "used_frames demo_hw ?s \<noteq> {..<NUM_VPN demo_hw}" unfolding used by (metis DiffE demo_hw_simps(9) singletonI)
  then obtain n s' where n: "allocate_frame demo_hw ?s = Some (int n, s')" "n < NUM_VPN demo_hw" "n \<notin> used_frames demo_hw ?s"
    using allocate_frame_least [OF inv] by auto
  then have "n = 2" unfolding used by auto
  with n show ?thesis by auto
qed

text \<open>
  C27: Any sequence of requests and releases, in any order, has a defined outcome. A frame in use
  at its start, or one that an earlier request of it was granted, is granted by a later request
  only when it has been freed in between: no frame has two owners. While the requests are not
  more than the frames free at the start, each of them is granted a frame. (The answer \<open>ERROR\<close> grants none.)
\<close>

theorem frames_handed_out_once:
  assumes "frames_inv H s"
  shows "\<exists>rs s'. frame_run H xs s = Some (rs, s') \<and> frames_inv H s' \<and> length rs = length xs
    \<and> (\<forall>j n. j < length rs \<and> rs ! j = Some (int n) \<and> int n \<noteq> ERROR H \<and> n \<in> used_frames H s \<longrightarrow>
         (\<exists>k < j. xs ! k = Release (int n)))
    \<and> (\<forall>i j r. i < j \<and> j < length rs \<and> rs ! i = Some r \<and> rs ! j = Some r \<and> r \<noteq> ERROR H \<longrightarrow>
         (\<exists>k. i < k \<and> k < j \<and> xs ! k = Release r))
    \<and> (card (used_frames H s) + count_list xs Request \<le> NUM_VPN H \<longrightarrow>
         (\<forall>j < length xs. xs ! j = Request \<longrightarrow> (\<exists>n < NUM_VPN H. rs ! j = Some (int n))))"
  unfolding frame_run_def by (rule fp.run_ok [OF assms])

lemma frames_handed_out_once_witness:
  "\<exists>rs s'. frame_run demo_hw [Request, Release 0, Request] \<lparr>frame_bitMap = replicate 16 0\<rparr> = Some (rs, s') \<and> length rs = 3
     \<and> (\<exists>n < 16. rs ! 0 = Some (int n))"
proof -
  let ?s = "\<lparr>frame_bitMap = replicate 16 (0::int)\<rparr>" and ?xs = "[Request, Release 0, Request]"
  have inv: "frames_inv demo_hw ?s" and "used_frames demo_hw ?s = {}"
    by (auto simp: frames_inv_def used_frames_def)
  then have room: "card (used_frames demo_hw ?s) + count_list ?xs Request \<le> NUM_VPN demo_hw" by simp
  obtain rs s' where r: "frame_run demo_hw ?xs ?s = Some (rs, s')" "length rs = length ?xs"
    "\<forall>j < length ?xs. ?xs ! j = Request \<longrightarrow> (\<exists>n < NUM_VPN demo_hw. rs ! j = Some (int n))"
    using frames_handed_out_once [OF inv, of ?xs] room by (elim exE conjE) (rule that, assumption+, blast)
  have "\<exists>n < 16. rs ! 0 = Some (int n)" using r(3) [rule_format, of 0] by simp
  with r(1,2) show ?thesis by (intro exI [of _ rs] exI [of _ s']) simp
qed

section \<open>The kernel break\<close>

lemma rw_pte_simps [simp]: "valid (rw_pte H f)" "pfn (rw_pte H f) = word_of_nat f"
  by (simp_all add: rw_pte_def)




text \<open>Two of the eight pages of Region 0 hold the kernel, its heap may grow up to page 6.\<close>

definition demo_mem :: mem where
  "demo_mem = \<lparr>frame_bitMap = [1, 1] @ replicate 14 0, region0_pt = map (rw_pte demo_hw) [0, 1] @ replicate 6 zero_pte,
     page_tables = Map.empty, vm_enabled = 1, kernel_brk = 32, ptbr1 = None, pmem = \<lambda>_ _. 0, reg_log = []\<rparr>"



text \<open>
  A break below the first data page or at or above the page where the kernel stack begins
  is refused with \<open>ERROR\<close>, and so is, before virtual memory is on, one below the current
  break; a refusal changes nothing at all.
\<close>

lemma kernel_break_rejected:
  assumes "ADDR_TO_PAGE_NUM H addr < ADDR_TO_PAGE_NUM H (first_kernel_data_page H)
    \<or> ADDR_TO_PAGE_NUM H (KERNEL_STACK_BASE H) \<le> ADDR_TO_PAGE_NUM H addr
    \<or> vm_enabled s = 0 \<and> addr < kernel_brk s"
  shows "SetKernelBrk H addr s = Some (ERROR H, s)"
  using assms by (auto simp: SetKernelBrk_def Let_def)

lemma kernel_break_rejected_demo: "SetKernelBrk demo_hw 100 demo_mem = Some (-1, demo_mem)"
  using kernel_break_rejected [of demo_hw 100 demo_mem] by (simp add: ADDR_TO_PAGE_NUM_def)

text \<open>
  When the free frames do not suffice, \<open>SetKernelBrk\<close> reports \<open>ERROR\<close> and the break stays,
  but every free frame has been mapped above it by then: no frame is left in the whole system.
\<close>

lemma kernel_break_out_of_memory:
  assumes "mem_inv H s" "ERROR H < 0" "vm_enabled s \<noteq> 0"
    "ADDR_TO_PAGE_NUM H (first_kernel_data_page H) \<le> ADDR_TO_PAGE_NUM H addr"
    "ADDR_TO_PAGE_NUM H addr < ADDR_TO_PAGE_NUM H (KERNEL_STACK_BASE H)"
    "ADDR_TO_PAGE_NUM H (kernel_brk s) < ADDR_TO_PAGE_NUM H addr"
    "NUM_VPN H - card (used_frames H s) < brk_page H addr - brk_page H (kernel_brk s)"
  shows "\<exists>s'. SetKernelBrk H addr s = Some (ERROR H, s') \<and> kernel_brk s' = kernel_brk s
    \<and> used_frames H s' = {..<NUM_VPN H} \<and> allocate_frame H s' = Some (ERROR H, s')"
proof -
  have nf: "\<not> brk_page H addr - brk_page H (kernel_brk s) \<le> NUM_VPN H - card (used_frames H s)"
    using assms(7) by simp
  obtain fs s' where s': "SetKernelBrk H addr s = Some (ERROR H, s')" "length fs = NUM_VPN H - card (used_frames H s)"
    "distinct fs" "set fs \<inter> used_frames H s = {}" "used_frames H s' = used_frames H s \<union> set fs"
    "kernel_brk s' = kernel_brk s" "frames_inv H s'"
    using SetKernelBrk_grow [OF assms(1-6)] unfolding if_not_P [OF nf] min_absorb2 [OF less_imp_le [OF assms(7)]] by blast
  have "card (used_frames H s') = card (used_frames H s) + card (set fs)"
    using s'(4,5) by (simp add: card_Un_disjoint Int_commute)
  also have "\<dots> = NUM_VPN H" using s'(2) distinct_card [OF s'(3)] fp.card_used [of H s] by simp
  finally have "used_frames H s' = {..<NUM_VPN H}"
    using card_subset_eq [OF _ fp.used_bound [of H s']] by simp
  then show ?thesis using s'(1,6) allocate_frame_full [OF s'(7)] by blast
qed

lemma kernel_break_out_of_memory_demo:
  "\<exists>s'. SetKernelBrk demo_hw 80 (demo_mem\<lparr>frame_bitMap := replicate 15 1 @ [0]\<rparr>) = Some (-1, s') \<and> kernel_brk s' = 32"
proof -
  let ?s = "demo_mem\<lparr>frame_bitMap := replicate 15 1 @ [0]\<rparr>"
  have p: "ADDR_TO_PAGE_NUM demo_hw 80 = 5" "ADDR_TO_PAGE_NUM demo_hw 32 = 2" "ADDR_TO_PAGE_NUM demo_hw 96 = 6"
    "ADDR_TO_PAGE_NUM demo_hw 1 = 0" by (simp_all add: ADDR_TO_PAGE_NUM_def)
  have k: "kernel_brk ?s = 32" "vm_enabled ?s \<noteq> 0" by (simp_all add: demo_mem_def)
  have m: "mem_inv demo_hw ?s" by (simp add: mem_inv_def demo_mem_def frames_inv_def ADDR_TO_PAGE_NUM_def)
  have "frame_bitMap ?s ! n = 0 \<longleftrightarrow> \<not> n < 15" if "n < 16" for n
    using that by (auto simp: nth_append)
  then have "used_frames demo_hw ?s = {..<15}" by (auto simp: used_frames_def)
  then show ?thesis using kernel_break_out_of_memory [OF m _ k(2), of 80] k(1) p by auto
qed

end
