(* ===== verification/Pcb.thy ===== *)
theory Pcb
  imports DList Memory
begin

text \<open>
  Process control blocks and the scheduler's queues: \<open>pcb.h\<close> and \<open>pcb.c\<close>.

  A \<open>pcb_t\<close> lives at an address of the map \<open>pcbs\<close> until it is freed. Its two embedded
  list nodes and its embedded list of children are nodes and lists of the list heap
  \<open>lists\<close>, so \<open>container_of\<close> is pattern matching on the node, and freeing a block also
  takes its nodes away: a list that still links to them is then followed into freed
  memory, which has no result.
\<close>

section \<open>Data\<close>

type_synonym pcb_ptr = nat
type_synonym buf_ptr = nat
type_synonym obj_ptr = nat

datatype state_t =
    PROCESS_DEFAULT
  | PROCESS_RUNNING
  | PROCESS_READY
  | PROCESS_DELAYED
  | PROCESS_BLOCKED
  | PROCESS_ZOMBIE

text \<open>The value of an enumerator where the code compares it with an \<open>int\<close>.\<close>

definition enum_state :: "state_t \<Rightarrow> int" where
  "enum_state st = (case st of PROCESS_DEFAULT \<Rightarrow> 0 | PROCESS_RUNNING \<Rightarrow> 1 | PROCESS_READY \<Rightarrow> 2
     | PROCESS_DELAYED \<Rightarrow> 3 | PROCESS_BLOCKED \<Rightarrow> 4 | PROCESS_ZOMBIE \<Rightarrow> 5)"

text \<open>The lists of the kernel and the nodes that go into them.\<close>

datatype lref =
    ReadyQ
  | DelayQ
  | BlockedQ
  | ZombieQ
  | Children pcb_ptr
  | PipeReaders obj_ptr
  | PipeWriters obj_ptr
  | LockWaiters obj_ptr
  | CvarWaiters obj_ptr

datatype eref = QueueNode pcb_ptr | ChildNode pcb_ptr

type_synonym kernel_lists = "(lref, eref) lheap"
type_synonym node_ptr = "(lref, eref) node option"

text \<open>The user context as \<open>Documentation/Yalnix Reqs.md\<close> lists its fields.\<close>

record user_context =
  uc_code :: int
  uc_addr :: u32
  uc_pc :: u32
  uc_sp :: u32
  regs :: "nat \<Rightarrow> u32"

definition set_reg :: "nat \<Rightarrow> u32 \<Rightarrow> user_context \<Rightarrow> user_context" where
  "set_reg i v u = u\<lparr>regs := (regs u)(i := v)\<rparr>"

text \<open>
  A kernel context together with the kernel stack it runs on is the point of the kernel at
  which \<open>KernelContextSwitch\<close> was called: one constructor per call, with the local
  variables that are still used after it returns.
\<close>

datatype kcont =
    K_Unset
  | K_Clock
  | K_Exit
  | K_Wait u32 u32
  | K_Delay
  | K_PipeRead u32 "buf_ptr option" int
  | K_PipeWrite "buf_ptr option"
  | K_LockAcquire
  | K_CvarWait int
  | K_Fork pcb_ptr
  | K_KernelStart pcb_ptr pcb_ptr

record pcb =
  user_context :: user_context
  kernel_context :: kcont
  pid :: int
  region1_pt :: "pt_ptr option"
  kernel_stack :: "pt_ptr option"
  brk :: u32
  state :: state_t
  time_slice :: int
  run_time :: int
  delay_ticks :: int
  exit_code :: int
  parent :: "pcb_ptr option"
  waiting_for_children :: int
  tty_read_buffer :: "buf_ptr option"
  tty_read_len :: int
  tty_read_terminal :: int
  tty_write_buffer :: "buf_ptr option"
  tty_write_len :: int
  tty_write_terminal :: int
  tty_write_offset :: int
  waiting_lock_id :: int
  waiting_cvar_id :: int
  waiting_pipe_id :: int
  pipe_buffer :: "buf_ptr option"
  pipe_len :: int
  write_loc :: int
  should_fork :: bool

text \<open>
  The kernel state. \<open>kbufs\<close> and \<open>kints\<close> are the byte buffers and the single \<open>int\<close> cells
  that system calls allocate on the kernel heap.
\<close>

record kstate = mem +
  lists :: kernel_lists
  pcbs :: "pcb_ptr \<rightharpoonup> pcb"
  current_process :: "pcb_ptr option"
  idle_process :: "pcb_ptr option"
  kbufs :: "buf_ptr \<rightharpoonup> u8 list"
  kints :: "u32 \<rightharpoonup> u32"

section \<open>Access\<close>

definition get_pcb :: "pcb_ptr option \<Rightarrow> 'a kstate_scheme \<Rightarrow> pcb option" where
  "get_pcb p s = do { p \<leftarrow> p; pcbs s p }"

definition upd_pcb :: "pcb_ptr option \<Rightarrow> (pcb \<Rightarrow> pcb) \<Rightarrow> 'a kstate_scheme \<Rightarrow> 'a kstate_scheme option" where
  "upd_pcb p f s = do { p \<leftarrow> p; c \<leftarrow> pcbs s p; Some (s\<lparr>pcbs := (pcbs s)(p \<mapsto> f c)\<rparr>) }"

definition on_lists ::
  "(kernel_lists \<Rightarrow> kernel_lists option) \<Rightarrow> 'a kstate_scheme \<Rightarrow> 'a kstate_scheme option" where
  "on_lists f s = do { h \<leftarrow> f (lists s); Some (s\<lparr>lists := h\<rparr>) }"

fun pcb_from_queue_node :: "node_ptr \<Rightarrow> pcb_ptr option" where
  "pcb_from_queue_node (Some (Elem (QueueNode p))) = Some p"
| "pcb_from_queue_node _ = None"

fun pcb_from_children_node :: "node_ptr \<Rightarrow> pcb_ptr option" where
  "pcb_from_children_node (Some (Elem (ChildNode p))) = Some p"
| "pcb_from_children_node _ = None"

text \<open>\<open>free\<close> of a process control block and of a page table; freeing twice is undefined.\<close>

definition free_pcb :: "pcb_ptr \<Rightarrow> 'a kstate_scheme \<Rightarrow> 'a kstate_scheme option" where
  "free_pcb p s = do {
     _ \<leftarrow> pcbs s p;
     Some (s\<lparr>pcbs := (pcbs s)(p := None),
       lists := free_list (Children p) (free_elem (QueueNode p) (free_elem (ChildNode p) (lists s)))\<rparr>) }"

definition free_table :: "pt_ptr option \<Rightarrow> 'a mem_scheme \<Rightarrow> 'a mem_scheme option" where
  "free_table p s = (case p of None \<Rightarrow> Some s
     | Some t \<Rightarrow> do { _ \<leftarrow> page_tables s t; Some (s\<lparr>page_tables := (page_tables s)(t := None)\<rparr>) })"

text \<open>A store of an \<open>int\<close> through a pointer: a cell of the kernel heap or a user address.\<close>

definition deref_store :: "hw \<Rightarrow> u32 \<Rightarrow> u32 \<Rightarrow> 'a kstate_scheme \<Rightarrow> 'a kstate_scheme option" where
  "deref_store H a v s =
     (if kints s a \<noteq> None then Some (s\<lparr>kints := (kints s)(a \<mapsto> v)\<rparr>) else store_int H a v s)"

section \<open>Creation\<close>

definition create_queue ::
  "(lref \<Rightarrow> bool) \<Rightarrow> (lref, eref) junk \<Rightarrow> lref \<Rightarrow> 'a kstate_scheme \<Rightarrow> (lref option \<times> 'a kstate_scheme) option"
where
  "create_queue ok j l s = do {
     (r, h) \<leftarrow> create_list (if ok l then Some l else None) j (lists s);
     Some (r, s\<lparr>lists := h\<rparr>) }"

text \<open>\<open>ok\<close> says for which of the queues \<open>malloc\<close> finds memory.\<close>

definition init_pcb_system ::
  "hw \<Rightarrow> (lref \<Rightarrow> bool) \<Rightarrow> (lref, eref) junk \<Rightarrow> 'a kstate_scheme \<Rightarrow> (int \<times> 'a kstate_scheme) option" where
  "init_pcb_system H ok j s = do {
     (r, s) \<leftarrow> create_queue ok j ReadyQ s;
     (d, s) \<leftarrow> create_queue ok j DelayQ s;
     (b, s) \<leftarrow> create_queue ok j BlockedQ s;
     (z, s) \<leftarrow> create_queue ok j ZombieQ s;
     if r = None \<or> d = None \<or> z = None \<or> b = None then Some (ERROR H, s) else Some (0, s) }"

text \<open>
  What the environment supplies to \<open>create_pcb\<close>: the results of \<open>malloc\<close> and \<open>calloc\<close>,
  the bytes \<open>malloc\<close> left in the block, and the process id \<open>helper_new_pid\<close> hands out.
\<close>

record pcb_env =
  m_pcb :: "pcb_ptr option"
  m_pt :: "pt_ptr option"
  m_pid :: int
  m_junk :: pcb
  m_ljunk :: "(lref, eref) junk"

definition fresh_pcb :: "pcb_env \<Rightarrow> pcb" where
  "fresh_pcb a = (m_junk a)\<lparr>state := PROCESS_DEFAULT, time_slice := 4, run_time := 0,
     delay_ticks := 0, exit_code := 0, parent := None, waiting_for_children := 0,
     region1_pt := m_pt a, pid := m_pid a, brk := 0,
     tty_read_buffer := None, tty_read_len := 0, tty_read_terminal := -1,
     tty_write_buffer := None, tty_write_len := 0, tty_write_terminal := -1, tty_write_offset := 0,
     waiting_lock_id := -1, waiting_cvar_id := -1, waiting_pipe_id := -1,
     pipe_buffer := None, pipe_len := 0, write_loc := 0, should_fork := True\<rparr>"

definition create_pcb ::
  "hw \<Rightarrow> pcb_env \<Rightarrow> 'a kstate_scheme \<Rightarrow> (pcb_ptr option \<times> 'a kstate_scheme) option" where
  "create_pcb H a s =
     (case m_pcb a of None \<Rightarrow> Some (None, s)
      | Some p \<Rightarrow> do {
          let h = alloc_elem (QueueNode p) (m_ljunk a) (alloc_elem (ChildNode p) (m_ljunk a)
                    (alloc_list (Children p) (m_ljunk a) (lists s)));
          h \<leftarrow> list_init (Children p) h;
          let s = s\<lparr>lists := h, pcbs := (pcbs s)(p \<mapsto> fresh_pcb a)\<rparr>;
          let s = (case m_pt a of None \<Rightarrow> s
                   | Some t \<Rightarrow> s\<lparr>page_tables := (page_tables s)(t \<mapsto> replicate (MAX_PT_LEN H) zero_pte)\<rparr>);
          Some (Some p, s) })"

section \<open>The queues\<close>

text \<open>
  The four \<open>add_to\<close> functions have one body, up to the queue, the state and the extra
  assignment of the delay queue; so have the four \<open>remove_from\<close> functions.
\<close>

definition queue_add ::
  "lref \<Rightarrow> (pcb \<Rightarrow> pcb) \<Rightarrow> pcb_ptr option \<Rightarrow> 'a kstate_scheme \<Rightarrow> 'a kstate_scheme option" where
  "queue_add l f process s =
     (case process of None \<Rightarrow> Some s
      | Some p \<Rightarrow> do {
          c \<leftarrow> pcbs s p;
          if state c \<noteq> PROCESS_DEFAULT then Some s
          else do {
            s \<leftarrow> upd_pcb (Some p) f s;
            on_lists (insert_tail (Some l) (Some (Elem (QueueNode p)))) s } })"

definition queue_remove ::
  "lref \<Rightarrow> state_t \<Rightarrow> pcb_ptr option \<Rightarrow> 'a kstate_scheme \<Rightarrow> 'a kstate_scheme option" where
  "queue_remove l st process s =
     (case process of None \<Rightarrow> Some s
      | Some p \<Rightarrow> do {
          c \<leftarrow> pcbs s p;
          if state c \<noteq> st then Some s
          else do {
            s \<leftarrow> upd_pcb (Some p) (\<lambda>c. c\<lparr>state := PROCESS_DEFAULT\<rparr>) s;
            on_lists (list_remove (Some l) (Some (Elem (QueueNode p)))) s } })"

definition add_to_ready_queue :: "pcb_ptr option \<Rightarrow> 'a kstate_scheme \<Rightarrow> 'a kstate_scheme option" where
  "add_to_ready_queue = queue_add ReadyQ (\<lambda>c. c\<lparr>state := PROCESS_READY\<rparr>)"

definition remove_from_ready_queue :: "pcb_ptr option \<Rightarrow> 'a kstate_scheme \<Rightarrow> 'a kstate_scheme option" where
  "remove_from_ready_queue = queue_remove ReadyQ PROCESS_READY"

definition add_to_delay_queue ::
  "pcb_ptr option \<Rightarrow> int \<Rightarrow> 'a kstate_scheme \<Rightarrow> 'a kstate_scheme option" where
  "add_to_delay_queue process ticks =
     queue_add DelayQ (\<lambda>c. c\<lparr>state := PROCESS_DELAYED, delay_ticks := ticks\<rparr>) process"

definition remove_from_delay_queue :: "pcb_ptr option \<Rightarrow> 'a kstate_scheme \<Rightarrow> 'a kstate_scheme option" where
  "remove_from_delay_queue = queue_remove DelayQ PROCESS_DELAYED"

definition add_to_zombie_queue :: "pcb_ptr option \<Rightarrow> 'a kstate_scheme \<Rightarrow> 'a kstate_scheme option" where
  "add_to_zombie_queue = queue_add ZombieQ (\<lambda>c. c\<lparr>state := PROCESS_ZOMBIE\<rparr>)"

definition remove_from_zombie_queue :: "pcb_ptr option \<Rightarrow> 'a kstate_scheme \<Rightarrow> 'a kstate_scheme option" where
  "remove_from_zombie_queue = queue_remove ZombieQ PROCESS_ZOMBIE"

definition add_to_blocked_queue :: "pcb_ptr option \<Rightarrow> 'a kstate_scheme \<Rightarrow> 'a kstate_scheme option" where
  "add_to_blocked_queue = queue_add BlockedQ (\<lambda>c. c\<lparr>state := PROCESS_BLOCKED\<rparr>)"

definition remove_from_blocked_queue :: "pcb_ptr option \<Rightarrow> 'a kstate_scheme \<Rightarrow> 'a kstate_scheme option" where
  "remove_from_blocked_queue = queue_remove BlockedQ PROCESS_BLOCKED"

section \<open>Searching and ticking\<close>

text \<open>\<open>n\<close> is the number of iterations left, \<open>len - c\<close> in the code.\<close>

fun zombie_loop :: "nat \<Rightarrow> node_ptr \<Rightarrow> 'a kstate_scheme \<Rightarrow> pcb_ptr option option" where
  "zombie_loop 0 cur s = Some None"
| "zombie_loop (Suc n) cur s = do {
     p \<leftarrow> pcb_from_children_node cur;
     c \<leftarrow> pcbs s p;
     if state c = PROCESS_ZOMBIE then Some (Some p)
     else do { cur \<leftarrow> get_next cur (lists s); zombie_loop n cur s } }"

definition find_zombie_child ::
  "hw \<Rightarrow> pcb_ptr option \<Rightarrow> 'a kstate_scheme \<Rightarrow> pcb_ptr option option" where
  "find_zombie_child H process s =
     (case process of None \<Rightarrow> Some None
      | Some p \<Rightarrow> do {
          _ \<leftarrow> pcbs s p;
          e \<leftarrow> list_is_empty H (Some (Children p)) (lists s);
          if e \<noteq> 0 then Some None
          else do {
            len \<leftarrow> counts (lists s) (Children p);
            cur \<leftarrow> peek H (Some (Children p)) (lists s);
            zombie_loop (nat len) cur s } })"

partial_function (option) delay_loop :: "node_ptr \<Rightarrow> 'a kstate_scheme \<Rightarrow> 'a kstate_scheme option" where
  "delay_loop cur s =
     (if cur = Some (Sentinel DelayQ) then Some s
      else do {
        nx \<leftarrow> get_next cur (lists s);
        p \<leftarrow> pcb_from_queue_node cur;
        s \<leftarrow> upd_pcb (Some p) (\<lambda>c. c\<lparr>delay_ticks := delay_ticks c - 1\<rparr>) s;
        c \<leftarrow> pcbs s p;
        s \<leftarrow> (if delay_ticks c = 0 then do {
               s \<leftarrow> remove_from_delay_queue (Some p) s;
               add_to_ready_queue (Some p) s }
             else Some s);
        delay_loop nx s })"

definition update_delayed_processes :: "hw \<Rightarrow> 'a kstate_scheme \<Rightarrow> 'a kstate_scheme option" where
  "update_delayed_processes H s = do {
     e \<leftarrow> list_is_empty H (Some DelayQ) (lists s);
     if e \<noteq> 0 then Some s
     else do { cur \<leftarrow> get_next (Some (Sentinel DelayQ)) (lists s); delay_loop cur s } }"

partial_function (option) reap_loop :: "node_ptr \<Rightarrow> 'a kstate_scheme \<Rightarrow> 'a kstate_scheme option" where
  "reap_loop cur s =
     (if cur = Some (Sentinel ZombieQ) then Some s
      else do {
        nx \<leftarrow> get_next cur (lists s);
        p \<leftarrow> pcb_from_queue_node cur;
        c \<leftarrow> pcbs s p;
        s \<leftarrow> (if parent c = None then do {
               s \<leftarrow> remove_from_zombie_queue (Some p) s;
               free_pcb p s }
             else Some s);
        reap_loop nx s })"

definition check_zombies :: "hw \<Rightarrow> 'a kstate_scheme \<Rightarrow> 'a kstate_scheme option" where
  "check_zombies H s = do {
     e \<leftarrow> list_is_empty H (Some ZombieQ) (lists s);
     if e \<noteq> 0 then Some s
     else do { cur \<leftarrow> peek H (Some ZombieQ) (lists s); reap_loop cur s } }"

partial_function (option) pid_loop ::
  "lref \<Rightarrow> int \<Rightarrow> node_ptr \<Rightarrow> 'a kstate_scheme \<Rightarrow> pcb_ptr option option" where
  "pid_loop l i cur s =
     (if cur = Some (Sentinel l) then Some None
      else do {
        p \<leftarrow> pcb_from_queue_node cur;
        c \<leftarrow> pcbs s p;
        if i = pid c then Some (Some p)
        else do { nx \<leftarrow> get_next cur (lists s); pid_loop l i nx s } })"

definition list_contains_pid ::
  "hw \<Rightarrow> lref option \<Rightarrow> int \<Rightarrow> 'a kstate_scheme \<Rightarrow> pcb_ptr option option" where
  "list_contains_pid H list i s =
     (case list of None \<Rightarrow> Some None
      | Some l \<Rightarrow> do {
          e \<leftarrow> list_is_empty H (Some l) (lists s);
          if e \<noteq> 0 then Some None
          else do { cur \<leftarrow> get_next (Some (Sentinel l)) (lists s); pid_loop l i cur s } })"

section \<open>Parents and children\<close>

definition add_child ::
  "pcb_ptr option \<Rightarrow> pcb_ptr option \<Rightarrow> 'a kstate_scheme \<Rightarrow> 'a kstate_scheme option" where
  "add_child par child s =
     (case par of None \<Rightarrow> Some s
      | Some q \<Rightarrow> (case child of None \<Rightarrow> Some s
      | Some c \<Rightarrow> do {
          s \<leftarrow> upd_pcb (Some c) (\<lambda>x. x\<lparr>parent := Some q\<rparr>) s;
          on_lists (insert_tail (Some (Children q)) (Some (Elem (ChildNode c)))) s }))"

definition remove_child :: "pcb_ptr option \<Rightarrow> 'a kstate_scheme \<Rightarrow> 'a kstate_scheme option" where
  "remove_child child s =
     (case child of None \<Rightarrow> Some s
      | Some c \<Rightarrow> do {
          x \<leftarrow> pcbs s c;
          (case parent x of None \<Rightarrow> Some s
           | Some q \<Rightarrow> do {
               s \<leftarrow> on_lists (list_remove (Some (Children q)) (Some (Elem (ChildNode c)))) s;
               upd_pcb (Some c) (\<lambda>x. x\<lparr>parent := None\<rparr>) s }) })"

partial_function (option) orphan_loop ::
  "hw \<Rightarrow> pcb_ptr \<Rightarrow> 'a kstate_scheme \<Rightarrow> 'a kstate_scheme option" where
  "orphan_loop H q s = do {
     e \<leftarrow> list_is_empty H (Some (Children q)) (lists s);
     if e \<noteq> 0 then Some s
     else do {
       (n, h) \<leftarrow> pop H (Some (Children q)) (lists s);
       s \<leftarrow> Some (s\<lparr>lists := h\<rparr>);
       c \<leftarrow> pcb_from_children_node n;
       x \<leftarrow> pcbs s c;
       s \<leftarrow> (if state x = PROCESS_ZOMBIE then free_pcb c s
            else upd_pcb (Some c) (\<lambda>x. x\<lparr>parent := None\<rparr>) s);
       orphan_loop H q s } }"

text \<open>The guards test \<open>current_process\<close>, the loop works on the argument.\<close>

definition orphan_children :: "hw \<Rightarrow> pcb_ptr \<Rightarrow> 'a kstate_scheme \<Rightarrow> 'a kstate_scheme option" where
  "orphan_children H par s =
     (case current_process s of None \<Rightarrow> Some s
      | Some q \<Rightarrow> do {
          e \<leftarrow> list_is_empty H (Some (Children q)) (lists s);
          if e \<noteq> 0 then Some s else orphan_loop H par s })"

section \<open>Releasing a process\<close>

text \<open>
  \<open>entry\<close> is a local copy of the page table entry: the loop frees the frames and leaves
  the table as it is. \<open>n\<close> iterations are left.
\<close>

fun free_user_loop :: "hw \<Rightarrow> pt_ptr option \<Rightarrow> int \<Rightarrow> nat \<Rightarrow> 'a mem_scheme \<Rightarrow> 'a mem_scheme option" where
  "free_user_loop H t i 0 s = Some s"
| "free_user_loop H t i (Suc n) s = do {
     p \<leftarrow> t;
     entry \<leftarrow> pt_get (Table p) i s;
     s \<leftarrow> (if valid entry then free_frame H (uint (pfn entry)) s else Some s);
     free_user_loop H t (i + 1) n s }"

definition free_userspace :: "hw \<Rightarrow> pcb_ptr option \<Rightarrow> 'a kstate_scheme \<Rightarrow> 'a kstate_scheme option" where
  "free_userspace H proc s =
     (case proc of None \<Rightarrow> Some s
      | Some p \<Rightarrow> do {
          c \<leftarrow> pcbs s p;
          free_user_loop H (region1_pt c) 0 (MAX_PT_LEN H) s })"

fun free_stack_loop :: "hw \<Rightarrow> pt_ptr option \<Rightarrow> int \<Rightarrow> nat \<Rightarrow> 'a mem_scheme \<Rightarrow> 'a mem_scheme option" where
  "free_stack_loop H t i 0 s = Some s"
| "free_stack_loop H t i (Suc n) s = do {
     p \<leftarrow> t;
     entry \<leftarrow> pt_get (Table p) i s;
     s \<leftarrow> free_frame H (uint (pfn entry)) s;
     free_stack_loop H t (i + 1) n s }"

definition free_process_memory :: "hw \<Rightarrow> pcb_ptr option \<Rightarrow> 'a kstate_scheme \<Rightarrow> 'a kstate_scheme option" where
  "free_process_memory H proc s =
     (case proc of None \<Rightarrow> Some s
      | Some p \<Rightarrow> do {
          s \<leftarrow> free_userspace H (Some p) s;
          c \<leftarrow> pcbs s p;
          free_stack_loop H (kernel_stack c) 0 (kstack_pages H) s })"

definition wake_waiting_parent ::
  "hw \<Rightarrow> pcb_ptr \<Rightarrow> pcb_ptr \<Rightarrow> int \<Rightarrow> 'a kstate_scheme \<Rightarrow> 'a kstate_scheme option" where
  "wake_waiting_parent H q p status s = do {
     s \<leftarrow> remove_from_blocked_queue (Some q) s;
     s \<leftarrow> add_to_ready_queue (Some q) s;
     y \<leftarrow> pcbs s q;
     let status_ptr = regs (user_context y) 0;
     s \<leftarrow> (if status_ptr \<noteq> 0 then deref_store H status_ptr (word_of_int status) s else Some s);
     x \<leftarrow> pcbs s p;
     s \<leftarrow> upd_pcb (Some q) (\<lambda>y. y\<lparr>user_context := set_reg 0 (word_of_int (pid x)) (user_context y)\<rparr>) s;
     free_pcb p s }"

definition terminate_process ::
  "hw \<Rightarrow> pcb_ptr option \<Rightarrow> int \<Rightarrow> 'a kstate_scheme \<Rightarrow> 'a kstate_scheme option" where
  "terminate_process H process status s =
     (case process of None \<Rightarrow> Some s
      | Some p \<Rightarrow> do {
          s \<leftarrow> upd_pcb (Some p) (\<lambda>c. c\<lparr>exit_code := status, state := PROCESS_DEFAULT\<rparr>) s;
          s \<leftarrow> orphan_children H p s;
          s \<leftarrow> free_process_memory H (Some p) s;
          c \<leftarrow> pcbs s p;
          s \<leftarrow> free_table (kernel_stack c) s;
          s \<leftarrow> free_table (region1_pt c) s;
          c \<leftarrow> pcbs s p;
          s \<leftarrow> (case state c of
                 PROCESS_READY \<Rightarrow> remove_from_ready_queue (Some p) s
               | PROCESS_DELAYED \<Rightarrow> remove_from_delay_queue (Some p) s
               | PROCESS_BLOCKED \<Rightarrow> remove_from_blocked_queue (Some p) s
               | _ \<Rightarrow> Some s);
          c \<leftarrow> pcbs s p;
          (case parent c of
             Some q \<Rightarrow> do {
               y \<leftarrow> pcbs s q;
               if waiting_for_children y \<noteq> 0 then wake_waiting_parent H q p status s
               else add_to_zombie_queue (Some p) s }
           | None \<Rightarrow> add_to_zombie_queue (Some p) s) })"

section \<open>The scheduler invariant\<close>

text \<open>
  Which lists a process may be linked into in which state. A blocked process waits in the
  blocked queue (for a child) or in the waiting list of a pipe, lock or condition variable.
\<close>

fun state_queues :: "state_t \<Rightarrow> lref \<Rightarrow> bool" where
  "state_queues PROCESS_DEFAULT l = False"
| "state_queues PROCESS_RUNNING l = False"
| "state_queues PROCESS_READY l = (l = ReadyQ)"
| "state_queues PROCESS_DELAYED l = (l = DelayQ)"
| "state_queues PROCESS_ZOMBIE l = (l = ZombieQ)"
| "state_queues PROCESS_BLOCKED l = (case l of
     BlockedQ \<Rightarrow> True | PipeReaders _ \<Rightarrow> True | PipeWriters _ \<Rightarrow> True
   | LockWaiters _ \<Rightarrow> True | CvarWaiters _ \<Rightarrow> True | _ \<Rightarrow> False)"

definition idle_state :: "state_t \<Rightarrow> bool" where
  "idle_state st \<longleftrightarrow> st = PROCESS_DEFAULT \<or> st = PROCESS_RUNNING"

lemma idle_state_queues: "idle_state st \<longleftrightarrow> (\<forall>l. \<not> state_queues st l)"
  unfolding idle_state_def
  by (cases st) (auto intro: exI [of _ BlockedQ])

fun kind_ok :: "eref \<Rightarrow> lref \<Rightarrow> bool" where
  "kind_ok (ChildNode p) l = (case l of Children _ \<Rightarrow> True | _ \<Rightarrow> False)"
| "kind_ok (QueueNode p) l = (case l of Children _ \<Rightarrow> False | _ \<Rightarrow> True)"

type_synonym ghost = "lref \<rightharpoonup> eref list"

definition sched_inv :: "kernel_lists \<Rightarrow> (pcb_ptr \<rightharpoonup> pcb) \<Rightarrow> ghost \<Rightarrow> bool" where
  "sched_inv h P Q \<longleftrightarrow> lists_ok h Q \<and> {ReadyQ, DelayQ, BlockedQ, ZombieQ} \<subseteq> dom Q
    \<and> (\<forall>p l. in_q Q (QueueNode p) l \<longrightarrow> (\<exists>c. P p = Some c \<and> state_queues (state c) l))
    \<and> (\<forall>p c. P p = Some c \<and> \<not> idle_state (state c) \<longrightarrow> (\<exists>l. in_q Q (QueueNode p) l))
    \<and> (\<forall>e l. in_q Q e l \<longrightarrow> kind_ok e l)
    \<and> (\<forall>p c. P p = Some c \<longrightarrow> has_elem h (QueueNode p) \<and> has_elem h (ChildNode p) \<and> Children p \<in> dom Q)"

lemma sched_invD:
  assumes "sched_inv h P Q"
  shows "lists_ok h Q"
    and "{ReadyQ, DelayQ, BlockedQ, ZombieQ} \<subseteq> dom Q"
    and "in_q Q (QueueNode p) l \<Longrightarrow> \<exists>c. P p = Some c \<and> state_queues (state c) l"
    and "P p = Some c \<Longrightarrow> \<not> idle_state (state c) \<Longrightarrow> \<exists>l. in_q Q (QueueNode p) l"
    and "in_q Q e l \<Longrightarrow> kind_ok e l"
    and "P p = Some c \<Longrightarrow> has_elem h (QueueNode p)"
    and "P p = Some c \<Longrightarrow> has_elem h (ChildNode p)"
    and "P p = Some c \<Longrightarrow> Children p \<in> dom Q"
  using assms unfolding sched_inv_def by blast+

lemma sched_inv_queue:
  assumes "sched_inv h P Q" "l \<in> {ReadyQ, DelayQ, BlockedQ, ZombieQ}"
  obtains xs where "Q l = Some xs"
  using sched_invD(2) [OF assms(1)] assms(2) by blast

lemma sched_inv_idle_unqueued:
  assumes "sched_inv h P Q" "P p = Some c" "idle_state (state c)"
  shows "QueueNode p \<notin> queued Q"
  using sched_invD(3) [OF assms(1), of p] assms(2,3) by (auto simp: queued_in_q idle_state_queues)

lemma sched_inv_position:
  assumes "sched_inv h P Q" "P p = Some c" "\<not> idle_state (state c)"
  obtains l where "in_q Q (QueueNode p) l" "state_queues (state c) l"
  using sched_invD(3,4) [OF assms(1)] assms(2,3) by (metis option.inject)

text \<open>Updates that keep every \<open>state\<close> field keep the invariant.\<close>

lemma sched_inv_same_state:
  assumes "sched_inv h P Q" "P p = Some c" "state c' = state c"
  shows "sched_inv h (P(p \<mapsto> c')) Q"
  using assms unfolding sched_inv_def by (auto split: if_splits) (metis option.inject)+

text \<open>One process changes its state and its place in the lists, the others keep theirs.\<close>

lemma sched_inv_change:
  assumes inv: "sched_inv h P Q" and ok: "lists_ok h' Q'" and dom: "dom Q \<subseteq> dom Q'"
    and el: "\<And>e. has_elem h' e = has_elem h e" and p: "P p = Some c"
    and others: "\<And>e l. e \<noteq> QueueNode p \<Longrightarrow> in_q Q' e l = in_q Q e l"
    and mine: "\<And>l. in_q Q' (QueueNode p) l \<Longrightarrow> state_queues (state c') l"
      "\<not> idle_state (state c') \<Longrightarrow> \<exists>l. in_q Q' (QueueNode p) l"
  shows "sched_inv h' (P(p \<mapsto> c')) Q'"
  unfolding sched_inv_def
proof (intro conjI allI impI)
  show "lists_ok h' Q'" by (rule ok)
  show "{ReadyQ, DelayQ, BlockedQ, ZombieQ} \<subseteq> dom Q'" using sched_invD(2) [OF inv] dom by blast
  show "\<exists>ca. (P(p \<mapsto> c')) pa = Some ca \<and> state_queues (state ca) l" if "in_q Q' (QueueNode pa) l" for pa l
    using that mine(1) others [of "QueueNode pa" l] sched_invD(3) [OF inv, of pa l] by (cases "pa = p") auto
  show "\<exists>l. in_q Q' (QueueNode pa) l" if "(P(p \<mapsto> c')) pa = Some ca \<and> \<not> idle_state (state ca)" for pa ca
    using that mine(2) others [of "QueueNode pa"] sched_invD(4) [OF inv, of pa ca] by (cases "pa = p") auto
  show "kind_ok e l" if i: "in_q Q' e l" for e l
  proof (cases "e = QueueNode p")
    case True
    then have "state_queues (state c') l" using mine(1) i by simp
    then show ?thesis using True by (cases "state c'"; cases l) auto
  next
    case False
    with i others sched_invD(5) [OF inv] show ?thesis by blast
  qed
  show "has_elem h' (QueueNode pa)" "has_elem h' (ChildNode pa)" "Children pa \<in> dom Q'"
    if "(P(p \<mapsto> c')) pa = Some ca" for pa ca
    using that p sched_invD(6-8) [OF inv, of pa] el dom by (auto split: if_splits)
qed

lemmas pcb_access [defs] = get_pcb_def upd_pcb_def on_lists_def

lemma queue_add_ok:
  assumes inv: "sched_inv (lists s) (pcbs s) Q" and p: "pcbs s p = Some c" "state c = PROCESS_DEFAULT"
    and l: "Q l = Some xs" "state_queues (state (f c)) l"
  shows "\<exists>h'. queue_add l f (Some p) s = Some (s\<lparr>pcbs := (pcbs s)(p \<mapsto> f c), lists := h'\<rparr>)
    \<and> sched_inv h' ((pcbs s)(p \<mapsto> f c)) (Q(l \<mapsto> xs @ [QueueNode p]))"
proof -
  have nq: "QueueNode p \<notin> queued Q"
    by (rule sched_inv_idle_unqueued [OF inv p(1)]) (simp add: p(2) idle_state_def)
  obtain h' where h': "insert_tail (Some l) (Some (Elem (QueueNode p))) (lists s) = Some h'"
    "lists_ok h' (Q(l \<mapsto> xs @ [QueueNode p]))" "\<forall>e. has_elem h' e = has_elem (lists s) e"
    using insert_tail_ok [OF sched_invD(1) [OF inv] l(1) nq sched_invD(6) [OF inv p(1)]] by blast
  have "sched_inv h' ((pcbs s)(p \<mapsto> f c)) (Q(l \<mapsto> xs @ [QueueNode p]))"
    by (rule sched_inv_change [OF inv h'(2) _ _ p(1)])
       (use h'(3) nq l in \<open>auto simp: in_q_append queued_in_q\<close>)
  moreover have "queue_add l f (Some p) s = Some (s\<lparr>pcbs := (pcbs s)(p \<mapsto> f c), lists := h'\<rparr>)"
    using h'(1) p by (simp add: queue_add_def pcb_access)
  ultimately show ?thesis by blast
qed

lemma queue_add_busy:
  "pcbs s p = Some c \<Longrightarrow> state c \<noteq> PROCESS_DEFAULT \<Longrightarrow> queue_add l f (Some p) s = Some s"
  by (simp add: queue_add_def)

lemma queue_remove_ok:
  assumes inv: "sched_inv (lists s) (pcbs s) Q" and p: "pcbs s p = Some c" "state c = st"
    and l: "Q l = Some xs" "QueueNode p \<in> set xs"
  shows "\<exists>h'. queue_remove l st (Some p) s
      = Some (s\<lparr>pcbs := (pcbs s)(p \<mapsto> c\<lparr>state := PROCESS_DEFAULT\<rparr>), lists := h'\<rparr>)
    \<and> sched_inv h' ((pcbs s)(p \<mapsto> c\<lparr>state := PROCESS_DEFAULT\<rparr>)) (Q(l \<mapsto> remove1 (QueueNode p) xs))"
proof -
  let ?Q = "Q(l \<mapsto> remove1 (QueueNode p) xs)"
  have ok: "lists_ok (lists s) Q" using sched_invD(1) [OF inv] .
  obtain h' where h': "list_remove (Some l) (Some (Elem (QueueNode p))) (lists s) = Some h'"
    "lists_ok h' ?Q" "\<forall>e. has_elem h' e = has_elem (lists s) e"
    using list_remove_ok [OF ok l] by blast
  have set: "set (remove1 (QueueNode p) xs) = set xs - {QueueNode p}"
    using lists_ok_distinct [OF ok l(1)] by simp
  have only: "l' = l" if "in_q Q (QueueNode p) l'" for l'
    using qs.in_q_unique [OF ok in_qI [where Q = Q, OF l] that] .
  have "sched_inv h' ((pcbs s)(p \<mapsto> c\<lparr>state := PROCESS_DEFAULT\<rparr>)) ?Q"
    by (rule sched_inv_change [OF inv h'(2) _ _ p(1)])
       (use h'(3) only in_q_remove [of Q l xs "remove1 (QueueNode p) xs", OF l(1) set] in \<open>auto simp: idle_state_def\<close>)
  moreover have "queue_remove l st (Some p) s
      = Some (s\<lparr>pcbs := (pcbs s)(p \<mapsto> c\<lparr>state := PROCESS_DEFAULT\<rparr>), lists := h'\<rparr>)"
    using h'(1) p by (simp add: queue_remove_def pcb_access)
  ultimately show ?thesis by blast
qed

lemma queue_remove_other:
  "pcbs s p = Some c \<Longrightarrow> state c \<noteq> st \<Longrightarrow> queue_remove l st (Some p) s = Some s"
  by (simp add: queue_remove_def)

text \<open>The lists other than the children lists hold queue nodes only.\<close>

lemma queue_nodes:
  assumes "sched_inv h P Q" "Q l = Some xs" "\<And>q. l \<noteq> Children q"
  obtains ps where "xs = map QueueNode ps"
proof -
  have "\<exists>p. e = QueueNode p" if "e \<in> set xs" for e
  proof -
    have "kind_ok e l" using sched_invD(5) [OF assms(1) in_qI [where Q = Q, OF assms(2) that]] .
    then show ?thesis using assms(3) by (cases e; cases l) auto
  qed
  then have "\<exists>ps. xs = map QueueNode ps" by (simp add: ex_map_conv)
  then show thesis using that by blast
qed

section \<open>A clock tick\<close>

definition tick :: "pcb \<Rightarrow> pcb" where
  "tick c = (if delay_ticks c = 1 then c\<lparr>delay_ticks := 0, state := PROCESS_READY\<rparr>
             else c\<lparr>delay_ticks := delay_ticks c - 1\<rparr>)"

definition tick_all :: "pcb_ptr list \<Rightarrow> (pcb_ptr \<rightharpoonup> pcb) \<Rightarrow> (pcb_ptr \<rightharpoonup> pcb)" where
  "tick_all ps P = (\<lambda>q. if q \<in> set ps then map_option tick (P q) else P q)"

definition due :: "(pcb_ptr \<rightharpoonup> pcb) \<Rightarrow> pcb_ptr \<Rightarrow> bool" where
  "due P p = (case P p of None \<Rightarrow> False | Some c \<Rightarrow> delay_ticks c = 1)"

abbreviation ticked :: "ghost \<Rightarrow> (pcb_ptr \<rightharpoonup> pcb) \<Rightarrow> pcb_ptr list \<Rightarrow> pcb_ptr list \<Rightarrow> ghost" where
  "ticked Q P ps rs \<equiv> Q(DelayQ \<mapsto> map QueueNode (filter (\<lambda>p. \<not> due P p) ps),
     ReadyQ \<mapsto> map QueueNode (rs @ filter (due P) ps))"

text \<open>One iteration for the process \<open>p\<close>: \<open>dn\<close> was visited before, \<open>rest\<close> follows.\<close>

lemma delay_step:
  assumes inv: "sched_inv (lists s) (pcbs s) Q"
    and d: "Q DelayQ = Some (map QueueNode (dn @ p # rest))" and r: "Q ReadyQ = Some (map QueueNode rs)"
    and p: "pcbs s p = Some c"
  shows "\<exists>h'. delay_loop (Some (Elem (QueueNode p))) s
      = delay_loop (Some (seg_start (map QueueNode rest) (Sentinel DelayQ)))
          (s\<lparr>pcbs := (pcbs s)(p \<mapsto> tick c), lists := h'\<rparr>)
    \<and> sched_inv h' ((pcbs s)(p \<mapsto> tick c))
        (Q(DelayQ \<mapsto> map QueueNode (dn @ (if due (pcbs s) p then [] else [p]) @ rest),
           ReadyQ \<mapsto> map QueueNode (rs @ (if due (pcbs s) p then [p] else []))))"
proof -
  have ok: "lists_ok (lists s) Q" using sched_invD(1) [OF inv] .
  have nx: "get_next (Some (Elem (QueueNode p))) (lists s)
      = Some (Some (seg_start (map QueueNode rest) (Sentinel DelayQ)))"
    using get_next_ok [OF ok, of DelayQ "map QueueNode dn" "QueueNode p" "map QueueNode rest"] d by simp
  have st: "state c = PROCESS_DELAYED"
    using sched_invD(3) [OF inv in_qI [where Q = Q, OF d], of p] p by (cases "state c") auto
  let ?c = "c\<lparr>delay_ticks := delay_ticks c - 1\<rparr>" and ?s = "s\<lparr>pcbs := (pcbs s)(p \<mapsto> c\<lparr>delay_ticks := delay_ticks c - 1\<rparr>)\<rparr>"
  have inv1: "sched_inv (lists ?s) (pcbs ?s) Q" using sched_inv_same_state [OF inv p, of ?c] by simp
  show ?thesis
  proof (cases "delay_ticks c = 1")
    case False
    have "Q(DelayQ \<mapsto> map QueueNode (dn @ p # rest), ReadyQ \<mapsto> map QueueNode rs) = Q"
      using d r by (auto simp: fun_eq_iff)
    then show ?thesis
      using inv1 False p nx
      by (intro exI [of _ "lists s"])
         (simp add: delay_loop.simps [of "Some (Elem (QueueNode p))" s] pcb_access tick_def due_def)
  next
    case True
    have dis: "p \<notin> set dn" using lists_ok_distinct [OF ok d] by (auto simp: distinct_map)
    have rem: "remove1 (QueueNode p) (map QueueNode (dn @ p # rest)) = map QueueNode (dn @ rest)"
      using dis by (auto simp: remove1_append)
    have "\<exists>h'. queue_remove DelayQ PROCESS_DELAYED (Some p) ?s
        = Some (?s\<lparr>pcbs := (pcbs ?s)(p \<mapsto> ?c\<lparr>state := PROCESS_DEFAULT\<rparr>), lists := h'\<rparr>)
      \<and> sched_inv h' ((pcbs ?s)(p \<mapsto> ?c\<lparr>state := PROCESS_DEFAULT\<rparr>))
          (Q(DelayQ \<mapsto> remove1 (QueueNode p) (map QueueNode (dn @ p # rest))))"
      by (rule queue_remove_ok [OF inv1 _ _ d]) (use st in auto)
    then obtain h1 where h1: "remove_from_delay_queue (Some p) ?s
        = Some (?s\<lparr>pcbs := (pcbs ?s)(p \<mapsto> ?c\<lparr>state := PROCESS_DEFAULT\<rparr>), lists := h1\<rparr>)"
      "sched_inv h1 ((pcbs ?s)(p \<mapsto> ?c\<lparr>state := PROCESS_DEFAULT\<rparr>)) (Q(DelayQ \<mapsto> map QueueNode (dn @ rest)))"
      unfolding rem remove_from_delay_queue_def by blast
    let ?s1 = "?s\<lparr>pcbs := (pcbs ?s)(p \<mapsto> ?c\<lparr>state := PROCESS_DEFAULT\<rparr>), lists := h1\<rparr>"
    have inv2: "sched_inv (lists ?s1) (pcbs ?s1) (Q(DelayQ \<mapsto> map QueueNode (dn @ rest)))" using h1(2) by simp
    have "\<exists>h'. queue_add ReadyQ (\<lambda>c. c\<lparr>state := PROCESS_READY\<rparr>) (Some p) ?s1
        = Some (?s1\<lparr>pcbs := (pcbs ?s1)(p \<mapsto> ?c\<lparr>state := PROCESS_DEFAULT, state := PROCESS_READY\<rparr>), lists := h'\<rparr>)
      \<and> sched_inv h' ((pcbs ?s1)(p \<mapsto> ?c\<lparr>state := PROCESS_DEFAULT, state := PROCESS_READY\<rparr>))
        (Q(DelayQ \<mapsto> map QueueNode (dn @ rest), ReadyQ \<mapsto> map QueueNode rs @ [QueueNode p]))"
      by (rule queue_add_ok [OF inv2]) (use r in auto)
    then obtain h2 where h2: "add_to_ready_queue (Some p) ?s1
        = Some (?s1\<lparr>pcbs := (pcbs ?s1)(p \<mapsto> ?c\<lparr>state := PROCESS_READY\<rparr>), lists := h2\<rparr>)"
      "sched_inv h2 ((pcbs ?s1)(p \<mapsto> ?c\<lparr>state := PROCESS_READY\<rparr>))
        (Q(DelayQ \<mapsto> map QueueNode (dn @ rest), ReadyQ \<mapsto> map QueueNode rs @ [QueueNode p]))"
      unfolding add_to_ready_queue_def by auto
    have "delay_loop (Some (Elem (QueueNode p))) s
      = delay_loop (Some (seg_start (map QueueNode rest) (Sentinel DelayQ)))
          (s\<lparr>pcbs := (pcbs s)(p \<mapsto> tick c), lists := h2\<rparr>)"
      using True p nx h1(1) h2(1)
      by (simp add: delay_loop.simps [of "Some (Elem (QueueNode p))" s] upd_pcb_def tick_def)
    moreover have "sched_inv h2 ((pcbs s)(p \<mapsto> tick c))
        (Q(DelayQ \<mapsto> map QueueNode (dn @ rest), ReadyQ \<mapsto> map QueueNode (rs @ [p])))"
      using h2(2) True by (simp add: tick_def)
    ultimately show ?thesis using True p by (intro exI [of _ h2]) (simp add: due_def)
  qed
qed

lemma tick_all_Cons:
  "p \<notin> set ps \<Longrightarrow> P p = Some c \<Longrightarrow> tick_all ps (P(p \<mapsto> tick c)) = tick_all (p # ps) P"
  by (auto simp: tick_all_def fun_eq_iff)

lemma due_upd: "q \<noteq> p \<Longrightarrow> due (P(p := v)) q = due P q"
  by (simp add: due_def)

lemma filter_due_upd: "p \<notin> set ps \<Longrightarrow> filter (due (P(p := v))) ps = filter (due P) ps"
  "p \<notin> set ps \<Longrightarrow> filter (\<lambda>q. \<not> due (P(p := v)) q) ps = filter (\<lambda>q. \<not> due P q) ps"
  by (intro filter_cong refl, metis due_upd)+

lemma delay_loop_ok:
  assumes "sched_inv (lists s) (pcbs s) Q" "Q DelayQ = Some (map QueueNode (dn @ ps))"
    "Q ReadyQ = Some (map QueueNode rs)"
  shows "\<exists>h'. delay_loop (Some (seg_start (map QueueNode ps) (Sentinel DelayQ))) s
      = Some (s\<lparr>pcbs := tick_all ps (pcbs s), lists := h'\<rparr>)
    \<and> sched_inv h' (tick_all ps (pcbs s))
        (Q(DelayQ \<mapsto> map QueueNode (dn @ filter (\<lambda>p. \<not> due (pcbs s) p) ps),
           ReadyQ \<mapsto> map QueueNode (rs @ filter (due (pcbs s)) ps)))"
  using assms
proof (induction ps arbitrary: s Q dn rs)
  case Nil
  have "Q(DelayQ \<mapsto> map QueueNode dn, ReadyQ \<mapsto> map QueueNode rs) = Q" "tick_all [] (pcbs s) = pcbs s"
    using Nil.prems(2,3) by (auto simp: fun_eq_iff tick_all_def)
  then have "sched_inv (lists s) (tick_all [] (pcbs s)) (Q(DelayQ
      \<mapsto> map QueueNode (dn @ filter (\<lambda>p. \<not> due (pcbs s) p) []),
      ReadyQ \<mapsto> map QueueNode (rs @ filter (due (pcbs s)) [])))"
    "delay_loop (Some (seg_start (map QueueNode []) (Sentinel DelayQ))) s
      = Some (s\<lparr>pcbs := tick_all [] (pcbs s), lists := lists s\<rparr>)"
    using Nil.prems(1) by (simp_all add: seg_start_def delay_loop.simps [of "Some (Sentinel DelayQ)" s])
  then show ?case by blast
next
  case (Cons p ps)
  obtain c where c: "pcbs s p = Some c"
    using sched_invD(3) [OF Cons.prems(1) in_qI [where Q = Q, OF Cons.prems(2)], of p] by auto
  have np: "p \<notin> set ps"
    using lists_ok_distinct [OF sched_invD(1) [OF Cons.prems(1)] Cons.prems(2)] by (auto simp: distinct_map)
  let ?dn = "dn @ (if due (pcbs s) p then [] else [p])" and ?rs = "rs @ (if due (pcbs s) p then [p] else [])"
  let ?Q = "Q(DelayQ \<mapsto> map QueueNode (dn @ (if due (pcbs s) p then [] else [p]) @ ps), ReadyQ \<mapsto> map QueueNode ?rs)"
  obtain h1 where h1: "delay_loop (Some (Elem (QueueNode p))) s
      = delay_loop (Some (seg_start (map QueueNode ps) (Sentinel DelayQ)))
          (s\<lparr>pcbs := (pcbs s)(p \<mapsto> tick c), lists := h1\<rparr>)"
    "sched_inv h1 ((pcbs s)(p \<mapsto> tick c)) ?Q"
    using delay_step [OF Cons.prems c] by blast
  let ?s = "s\<lparr>pcbs := (pcbs s)(p \<mapsto> tick c), lists := h1\<rparr>"
  have i: "sched_inv (lists ?s) (pcbs ?s) ?Q" using h1(2) by simp
  have dq: "?Q DelayQ = Some (map QueueNode (?dn @ ps))" and rq: "?Q ReadyQ = Some (map QueueNode ?rs)"
    by simp_all
  have "\<exists>h'. delay_loop (Some (seg_start (map QueueNode ps) (Sentinel DelayQ))) ?s
      = Some (?s\<lparr>pcbs := tick_all ps (pcbs ?s), lists := h'\<rparr>)
    \<and> sched_inv h' (tick_all ps (pcbs ?s))
        (?Q(DelayQ \<mapsto> map QueueNode (?dn @ filter (\<lambda>p. \<not> due (pcbs ?s) p) ps),
           ReadyQ \<mapsto> map QueueNode (?rs @ filter (due (pcbs ?s)) ps)))"
    by (rule Cons.IH [OF i dq rq])
  then obtain h2 where h2: "delay_loop (Some (seg_start (map QueueNode ps) (Sentinel DelayQ))) ?s
      = Some (s\<lparr>pcbs := tick_all (p # ps) (pcbs s), lists := h2\<rparr>)"
    "sched_inv h2 (tick_all (p # ps) (pcbs s))
        (?Q(DelayQ \<mapsto> map QueueNode (?dn @ filter (\<lambda>p. \<not> due (pcbs s) p) ps),
           ReadyQ \<mapsto> map QueueNode (?rs @ filter (due (pcbs s)) ps)))"
    using np c by (auto simp: tick_all_Cons filter_due_upd)
  have "?Q(DelayQ \<mapsto> map QueueNode (?dn @ filter (\<lambda>p. \<not> due (pcbs s) p) ps),
           ReadyQ \<mapsto> map QueueNode (?rs @ filter (due (pcbs s)) ps))
      = Q(DelayQ \<mapsto> map QueueNode (dn @ filter (\<lambda>p. \<not> due (pcbs s) p) (p # ps)),
           ReadyQ \<mapsto> map QueueNode (rs @ filter (due (pcbs s)) (p # ps)))"
    by (rule ext) simp
  with h2(2) have "sched_inv h2 (tick_all (p # ps) (pcbs s))
      (Q(DelayQ \<mapsto> map QueueNode (dn @ filter (\<lambda>p. \<not> due (pcbs s) p) (p # ps)),
           ReadyQ \<mapsto> map QueueNode (rs @ filter (due (pcbs s)) (p # ps))))"
    by (simp only:)
  moreover have "delay_loop (Some (seg_start (map QueueNode (p # ps)) (Sentinel DelayQ))) s
      = Some (s\<lparr>pcbs := tick_all (p # ps) (pcbs s), lists := h2\<rparr>)"
    using h1(1) h2(1) by (simp add: seg_start_def)
  ultimately show ?case by blast
qed

lemma update_delayed_processes_ok:
  assumes inv: "sched_inv (lists s) (pcbs s) Q"
    and d: "Q DelayQ = Some (map QueueNode ps)" and r: "Q ReadyQ = Some (map QueueNode rs)"
  shows "\<exists>h'. update_delayed_processes H s = Some (s\<lparr>pcbs := tick_all ps (pcbs s), lists := h'\<rparr>)
    \<and> sched_inv h' (tick_all ps (pcbs s)) (ticked Q (pcbs s) ps rs)"
proof -
  have ok: "lists_ok (lists s) Q" using sched_invD(1) [OF inv] .
  have d': "Q DelayQ = Some (map QueueNode ([] @ ps))" using d by simp
  obtain h' where h': "delay_loop (Some (seg_start (map QueueNode ps) (Sentinel DelayQ))) s
      = Some (s\<lparr>pcbs := tick_all ps (pcbs s), lists := h'\<rparr>)"
    "sched_inv h' (tick_all ps (pcbs s)) (ticked Q (pcbs s) ps rs)"
    using delay_loop_ok [OF inv d' r] by auto
  show ?thesis
  proof (cases ps)
    case Nil
    then have "tick_all ps (pcbs s) = pcbs s" "ticked Q (pcbs s) ps rs = Q"
      using d r by (auto simp: tick_all_def fun_eq_iff)
    moreover have "update_delayed_processes H s = Some s"
      using list_is_empty_ok [OF ok d, of H] Nil by (simp add: update_delayed_processes_def)
    ultimately show ?thesis using inv by (intro exI [of _ "lists s"]) simp
  next
    case Cons
    have "update_delayed_processes H s = Some (s\<lparr>pcbs := tick_all ps (pcbs s), lists := h'\<rparr>)"
      using list_is_empty_ok [OF ok d, of H] get_first_ok [OF ok d] h'(1) Cons
      by (simp add: update_delayed_processes_def)
    with h'(2) show ?thesis by blast
  qed
qed

end
