(* ===== verification/Process.thy ===== *)
theory Process
  imports Pcb
begin

text \<open>
  What the scheduler queues, the delay clock and the process family of \<open>pcb.c\<close> guarantee.

  The ghost map \<open>Q\<close> of the scheduler invariant gives the contents of every list; the
  lemmas follow the operations through it. The properties about delayed processes and about
  the search for zombie children are at the end, with a small system of four processes as
  their instance.
\<close>

section \<open>The queue operations\<close>

definition pcb_ok :: "'a kstate_scheme \<Rightarrow> ghost \<Rightarrow> bool" where
  "pcb_ok s Q \<longleftrightarrow> sched_inv (lists s) (pcbs s) Q"

text \<open>The state an \<open>add_to\<close> function gives the process, and the queue it appends to.\<close>

lemma queue_add_state:
  assumes inv: "pcb_ok s Q" and p: "pcbs s p = Some c" "state c = PROCESS_DEFAULT"
    and l: "Q l = Some xs" "state_queues (state (f c)) l"
  shows "\<exists>s'. queue_add l f (Some p) s = Some s' \<and> pcb_ok s' (Q(l \<mapsto> xs @ [QueueNode p]))
    \<and> pcbs s' = (pcbs s)(p \<mapsto> f c)"
  using queue_add_ok [where Q = Q and f = f, OF inv [unfolded pcb_ok_def] p l] by (auto simp: pcb_ok_def)

lemma queue_remove_state:
  assumes inv: "pcb_ok s Q" and p: "pcbs s p = Some c" "state c = st"
    and l: "Q l = Some xs" "QueueNode p \<in> set xs"
  shows "\<exists>s'. queue_remove l st (Some p) s = Some s' \<and> pcb_ok s' (Q(l \<mapsto> remove1 (QueueNode p) xs))
    \<and> pcbs s' = (pcbs s)(p \<mapsto> c\<lparr>state := PROCESS_DEFAULT\<rparr>)"
  using queue_remove_ok [where Q = Q, OF inv [unfolded pcb_ok_def] p l] by (auto simp: pcb_ok_def)

text \<open>The head of a waiting list is made ready: \<open>pop\<close>, then \<open>insert_tail\<close> into the ready queue.\<close>

lemma wake_ok:
  assumes inv: "sched_inv h P Q" and l: "Q l = Some (QueueNode q # xs)" "l \<noteq> ReadyQ"
    and r: "Q ReadyQ = Some ys" and c: "P q = Some c" "state c' = PROCESS_READY"
  shows "\<exists>h1 h2. pop H (Some l) h = Some (Some (Elem (QueueNode q)), h1)
    \<and> insert_tail (Some ReadyQ) (Some (Elem (QueueNode q))) h1 = Some h2 \<and> lists_ok h1 (Q(l \<mapsto> xs))
    \<and> sched_inv h2 (P(q \<mapsto> c')) (Q(l \<mapsto> xs, ReadyQ \<mapsto> ys @ [QueueNode q]))"
proof -
  have ok: "lists_ok h Q" using sched_invD(1) [OF inv] .
  let ?Q1 = "Q(l \<mapsto> xs)" and ?Q = "Q(l \<mapsto> xs, ReadyQ \<mapsto> ys @ [QueueNode q])"
  obtain h1 h2 where w: "pop H (Some l) h = Some (Some (Elem (QueueNode q)), h1)" "lists_ok h1 ?Q1"
    "insert_tail (Some ReadyQ) (Some (Elem (QueueNode q))) h1 = Some h2" "lists_ok h2 ?Q"
    "\<forall>e. has_elem h2 e = has_elem h e"
    using qs.wake_head [OF ok l(1) r l(2), of H] by blast
  have set: "set xs = set (QueueNode q # xs) - {QueueNode q}" using lists_ok_distinct [OF ok l(1)] by auto
  have i1: "in_q ?Q1 e l' \<longleftrightarrow> in_q Q e l' \<and> \<not> (e = QueueNode q \<and> l' = l)" for e l'
    using in_q_remove [of Q l "QueueNode q # xs" xs "QueueNode q" e l'] l(1) set by blast
  have i2: "in_q ?Q e l' \<longleftrightarrow> in_q ?Q1 e l' \<or> (e = QueueNode q \<and> l' = ReadyQ)" for e l'
    using l(2) r by (intro in_q_append) simp
  have only: "l' = l" if "in_q Q (QueueNode q) l'" for l'
    using qs.in_q_unique [OF ok in_qI [where Q = Q, OF l(1)] that] by simp
  have "sched_inv h2 (P(q \<mapsto> c')) ?Q"
    by (rule sched_inv_change [OF inv w(4) _ _ c(1)]) (use w(5) c(2) i1 i2 only in auto)
  with w show ?thesis by blast
qed

text \<open>\<open>add_to_ready_queue\<close> for a process whose state was just set to the default.\<close>

lemma add_to_ready_run:
  assumes "pcbs s q = Some c" "state c = PROCESS_DEFAULT"
    "insert_tail (Some ReadyQ) (Some (Elem (QueueNode q))) (lists s) = Some h"
  shows "add_to_ready_queue (Some q) s
    = Some (s\<lparr>pcbs := (pcbs s)(q \<mapsto> c\<lparr>state := PROCESS_READY\<rparr>), lists := h\<rparr>)"
  using assms by (simp add: add_to_ready_queue_def queue_add_def pcb_access)

section \<open>Delays\<close>

text \<open>\<open>n\<close> clock interrupts, as far as the delay queue is concerned.\<close>

fun clock_ticks :: "hw \<Rightarrow> nat \<Rightarrow> 'a kstate_scheme \<Rightarrow> 'a kstate_scheme option" where
  "clock_ticks H 0 s = Some s"
| "clock_ticks H (Suc n) s = do { s \<leftarrow> update_delayed_processes H s; clock_ticks H n s }"

lemma one_tick:
  assumes inv: "pcb_ok s Q" and d: "in_q Q (QueueNode p) DelayQ" and p: "pcbs s p = Some c"
  shows "\<exists>s' Q'. update_delayed_processes H s = Some s' \<and> pcb_ok s' Q' \<and> pcbs s' p = Some (tick c)
    \<and> in_q Q' (QueueNode p) (if delay_ticks c = 1 then ReadyQ else DelayQ)"
proof -
  note si = inv [unfolded pcb_ok_def]
  obtain ds where ds: "Q DelayQ = Some ds" "QueueNode p \<in> set ds" using d by (auto simp: in_q_def)
  obtain ps where ps: "ds = map QueueNode ps" by (rule queue_nodes [OF si ds(1)]) auto
  obtain rs' where "Q ReadyQ = Some rs'" by (rule sched_inv_queue [OF si, of ReadyQ]) auto
  moreover obtain rs where "rs' = map QueueNode rs"
    by (rule queue_nodes [OF si, of ReadyQ rs']) (use calculation in auto)
  ultimately have rs: "Q ReadyQ = Some (map QueueNode rs)" by simp
  obtain h' where h': "update_delayed_processes H s = Some (s\<lparr>pcbs := tick_all ps (pcbs s), lists := h'\<rparr>)"
    "sched_inv h' (tick_all ps (pcbs s)) (ticked Q (pcbs s) ps rs)"
    using update_delayed_processes_ok [OF si, of ps rs H] ds(1) ps rs by auto
  have pin: "p \<in> set ps" using ds(2) ps by auto
  have "in_q (ticked Q (pcbs s) ps rs) (QueueNode p) (if delay_ticks c = 1 then ReadyQ else DelayQ)"
    using pin p by (auto simp: in_q_def due_def)
  moreover have "tick_all ps (pcbs s) p = Some (tick c)" using pin p by (simp add: tick_all_def)
  ultimately show ?thesis using h' by (auto simp: pcb_ok_def)
qed

lemma delay_countdown:
  assumes "pcb_ok s Q" "in_q Q (QueueNode p) DelayQ" "pcbs s p = Some c" "int k < delay_ticks c"
  shows "\<exists>s' Q'. clock_ticks H k s = Some s' \<and> pcb_ok s' Q' \<and> in_q Q' (QueueNode p) DelayQ
    \<and> pcbs s' p = Some (c\<lparr>delay_ticks := delay_ticks c - int k\<rparr>)"
  using assms
proof (induction k arbitrary: s Q c)
  case 0
  then show ?case by fastforce
next
  case (Suc k)
  have ne: "delay_ticks c \<noteq> 1" using Suc.prems(4) by auto
  obtain s1 Q1 where s1: "update_delayed_processes H s = Some s1" "pcb_ok s1 Q1"
    "pcbs s1 p = Some (c\<lparr>delay_ticks := delay_ticks c - 1\<rparr>)" "in_q Q1 (QueueNode p) DelayQ"
    using one_tick [OF Suc.prems(1-3), of H] ne by (auto simp: tick_def)
  obtain s2 Q2 where "clock_ticks H k s1 = Some s2" "pcb_ok s2 Q2" "in_q Q2 (QueueNode p) DelayQ"
    "pcbs s2 p = Some (c\<lparr>delay_ticks := delay_ticks c - 1, delay_ticks := delay_ticks c - 1 - int k\<rparr>)"
    using Suc.IH [OF s1(2,4,3)] Suc.prems(4) by auto
  then show ?case using s1(1)
    by (intro exI [of _ s2] exI [of _ Q2]) (simp add: algebra_simps)
qed

lemma clock_ticks_add: "clock_ticks H (m + n) s = clock_ticks H m s \<bind> clock_ticks H n"
  by (induction m arbitrary: s) (auto simp: bind_assoc split: Option.bind_splits)

lemma delay_expires:
  assumes "pcb_ok s Q" "in_q Q (QueueNode p) DelayQ" "pcbs s p = Some c" "0 < delay_ticks c"
  shows "\<exists>s' Q'. clock_ticks H (nat (delay_ticks c)) s = Some s' \<and> pcb_ok s' Q'
    \<and> in_q Q' (QueueNode p) ReadyQ \<and> pcbs s' p = Some (c\<lparr>delay_ticks := 0, state := PROCESS_READY\<rparr>)"
proof -
  obtain k where k: "delay_ticks c = int (Suc k)" using assms(4) by (metis zero_less_imp_eq_int gr0_conv_Suc)
  then have kk: "nat (delay_ticks c) = k + 1" "int k < delay_ticks c" by simp_all
  obtain s1 Q1 where s1: "clock_ticks H k s = Some s1" "pcb_ok s1 Q1" "in_q Q1 (QueueNode p) DelayQ"
    "pcbs s1 p = Some (c\<lparr>delay_ticks := 1\<rparr>)"
    using delay_countdown [OF assms(1-3) kk(2), of H] k by auto
  obtain s2 Q2 where "update_delayed_processes H s1 = Some s2" "pcb_ok s2 Q2" "in_q Q2 (QueueNode p) ReadyQ"
    "pcbs s2 p = Some (c\<lparr>delay_ticks := 0, state := PROCESS_READY\<rparr>)"
    using one_tick [OF s1(2,3,4), of H] by (auto simp: tick_def)
  with s1(1) show ?thesis unfolding kk(1) clock_ticks_add by (intro exI [of _ s2] exI [of _ Q2]) simp
qed


section \<open>Families\<close>

text \<open>
  The list of children of \<open>q\<close> holds exactly the live processes whose parent is \<open>q\<close>, and
  only live processes have such a list.
\<close>

definition family_ok :: "(pcb_ptr \<rightharpoonup> pcb) \<Rightarrow> ghost \<Rightarrow> bool" where
  "family_ok P Q \<longleftrightarrow> (\<forall>c q. in_q Q (ChildNode c) (Children q) \<longleftrightarrow> (\<exists>x. P c = Some x \<and> parent x = Some q))
     \<and> (\<forall>q. Children q \<in> dom Q \<longrightarrow> q \<in> dom P)"

lemma family_okD:
  assumes "family_ok P Q"
  shows "in_q Q (ChildNode c) (Children q) \<Longrightarrow> \<exists>x. P c = Some x \<and> parent x = Some q"
    and "P c = Some x \<Longrightarrow> parent x = Some q \<Longrightarrow> in_q Q (ChildNode c) (Children q)"
    and "Children q \<in> dom Q \<Longrightarrow> \<exists>x. P q = Some x"
  using assms unfolding family_ok_def by blast+

lemma children_nodes:
  assumes "sched_inv h P Q" "Q (Children q) = Some xs"
  obtains cs where "xs = map ChildNode cs"
proof -
  have "\<exists>c. e = ChildNode c" if "e \<in> set xs" for e
    using sched_invD(5) [OF assms(1) in_qI [where Q = Q, OF assms(2) that]] by (cases e) auto
  then have "\<exists>cs. xs = map ChildNode cs" by (simp add: ex_map_conv)
  then show thesis using that by blast
qed

text \<open>A change of the lists that leaves every queue node where it is.\<close>

lemma sched_inv_lists:
  assumes inv: "sched_inv h P Q" and ok: "lists_ok h' Q'" and dom: "dom Q \<subseteq> dom Q'"
    and el: "\<And>e. has_elem h' e = has_elem h e"
    and qn: "\<And>p l. in_q Q' (QueueNode p) l = in_q Q (QueueNode p) l"
    and cn: "\<And>c l. in_q Q' (ChildNode c) l \<Longrightarrow> in_q Q (ChildNode c) l \<or> (\<exists>q. l = Children q)"
  shows "sched_inv h' P Q'"
  unfolding sched_inv_def
proof (intro conjI allI impI)
  show "lists_ok h' Q'" by (rule ok)
  show "{ReadyQ, DelayQ, BlockedQ, ZombieQ} \<subseteq> dom Q'" using sched_invD(2) [OF inv] dom by blast
  show "\<exists>c. P p = Some c \<and> state_queues (state c) l" if "in_q Q' (QueueNode p) l" for p l
    using that sched_invD(3) [OF inv] by (simp add: qn)
  show "\<exists>l. in_q Q' (QueueNode p) l" if "P p = Some c \<and> \<not> idle_state (state c)" for p c
    using that sched_invD(4) [OF inv] by (auto simp: qn)
  show "kind_ok e l" if i: "in_q Q' e l" for e l
  proof (cases e)
    case (QueueNode p)
    then show ?thesis using i qn sched_invD(5) [OF inv] by blast
  next
    case (ChildNode c)
    then show ?thesis using i cn [of c l] sched_invD(5) [OF inv, of e l] by auto
  qed
  show "has_elem h' (QueueNode p)" "has_elem h' (ChildNode p)" "Children p \<in> dom Q'" if "P p = Some c" for p c
    using that sched_invD(6-8) [OF inv, of p] el dom by auto
qed

lemma sched_inv_pcb:
  assumes "pcb_ok s Q" "pcbs s p = Some c" "state (f c) = state c"
  shows "\<exists>s'. upd_pcb (Some p) f s = Some s' \<and> pcb_ok s' Q \<and> pcbs s' = (pcbs s)(p \<mapsto> f c)
    \<and> lists s' = lists s"
  using sched_inv_same_state [of "lists s" "pcbs s" Q p c "f c"] assms by (auto simp: pcb_ok_def upd_pcb_def)

lemma add_child_ok:
  assumes inv: "pcb_ok s Q" and fam: "family_ok (pcbs s) Q"
    and c: "pcbs s c = Some x" "parent x = None" and q: "pcbs s q = Some y" "Q (Children q) = Some xs"
  shows "\<exists>h'. add_child (Some q) (Some c) s = Some (s\<lparr>pcbs := (pcbs s)(c \<mapsto> x\<lparr>parent := Some q\<rparr>), lists := h'\<rparr>)
    \<and> sched_inv h' ((pcbs s)(c \<mapsto> x\<lparr>parent := Some q\<rparr>)) (Q(Children q \<mapsto> xs @ [ChildNode c]))
    \<and> family_ok ((pcbs s)(c \<mapsto> x\<lparr>parent := Some q\<rparr>)) (Q(Children q \<mapsto> xs @ [ChildNode c]))"
proof -
  let ?Q = "Q(Children q \<mapsto> xs @ [ChildNode c])" and ?P = "(pcbs s)(c \<mapsto> x\<lparr>parent := Some q\<rparr>)"
  note si = inv [unfolded pcb_ok_def]
  have nq: "ChildNode c \<notin> queued Q"
  proof
    assume "ChildNode c \<in> queued Q"
    then obtain l where l: "in_q Q (ChildNode c) l" by (auto simp: queued_in_q)
    then obtain q' where "l = Children q'" using sched_invD(5) [OF si l] by (cases l) auto
    then show False using family_okD(1) [OF fam, of c q'] l c by auto
  qed
  obtain h' where h': "insert_tail (Some (Children q)) (Some (Elem (ChildNode c))) (lists s) = Some h'"
    "lists_ok h' ?Q" "\<forall>e. has_elem h' e = has_elem (lists s) e"
    using insert_tail_ok [OF sched_invD(1) [OF si] q(2) nq sched_invD(7) [OF si c(1)]] by blast
  have iq: "in_q ?Q e l \<longleftrightarrow> in_q Q e l \<or> (e = ChildNode c \<and> l = Children q)" for e l
    using q(2) by (rule in_q_append)
  have "sched_inv h' (pcbs s) ?Q"
    by (rule sched_inv_lists [OF si h'(2)]) (use h'(3) iq in auto)
  then have "sched_inv h' ?P ?Q" by (rule sched_inv_same_state [where P = "pcbs s" and p = c and c = x]) (use c in simp_all)
  moreover have "family_ok ?P ?Q"
    using fam c q unfolding family_ok_def iq by auto
  moreover have "add_child (Some q) (Some c) s = Some (s\<lparr>pcbs := ?P, lists := h'\<rparr>)"
    using h'(1) c(1) by (simp add: add_child_def pcb_access)
  ultimately show ?thesis by blast
qed

lemma remove_child_ok:
  assumes inv: "pcb_ok s Q" and fam: "family_ok (pcbs s) Q" and c: "pcbs s c = Some x" "parent x = Some q"
  shows "\<exists>s' xs. Q (Children q) = Some xs \<and> remove_child (Some c) s = Some s'
    \<and> pcb_ok s' (Q(Children q \<mapsto> remove1 (ChildNode c) xs))
    \<and> family_ok (pcbs s') (Q(Children q \<mapsto> remove1 (ChildNode c) xs))
    \<and> pcbs s' = (pcbs s)(c \<mapsto> x\<lparr>parent := None\<rparr>)"
proof -
  note si = inv [unfolded pcb_ok_def]
  have ic: "in_q Q (ChildNode c) (Children q)" using family_okD(2) [OF fam c] .
  then obtain xs where xs: "Q (Children q) = Some xs" "ChildNode c \<in> set xs" by (auto simp: in_q_def)
  let ?Q = "Q(Children q \<mapsto> remove1 (ChildNode c) xs)" and ?P = "(pcbs s)(c \<mapsto> x\<lparr>parent := None\<rparr>)"
  obtain h' where h': "list_remove (Some (Children q)) (Some (Elem (ChildNode c))) (lists s) = Some h'"
    "lists_ok h' ?Q" "\<forall>e. has_elem h' e = has_elem (lists s) e"
    using list_remove_ok [OF sched_invD(1) [OF si] xs] by blast
  have set: "set (remove1 (ChildNode c) xs) = set xs - {ChildNode c}"
    using lists_ok_distinct [OF sched_invD(1) [OF si] xs(1)] by simp
  have iq: "in_q ?Q e l \<longleftrightarrow> in_q Q e l \<and> \<not> (e = ChildNode c \<and> l = Children q)" for e l
    using in_q_remove [of Q "Children q" xs "remove1 (ChildNode c) xs" "ChildNode c" e l] xs(1) set by blast
  have "sched_inv h' (pcbs s) ?Q"
    by (rule sched_inv_lists [OF si h'(2)]) (use h'(3) iq in auto)
  then have "sched_inv h' ?P ?Q" by (rule sched_inv_same_state [where P = "pcbs s" and p = c and c = x]) (use c in simp_all)
  moreover have "family_ok ?P ?Q"
    using fam c xs unfolding family_ok_def iq by auto
  moreover have "remove_child (Some c) s = Some (s\<lparr>lists := h', pcbs := ?P\<rparr>)"
    using h'(1) c by (simp add: remove_child_def pcb_access)
  ultimately show ?thesis using xs(1) by (auto simp: pcb_ok_def)
qed

section \<open>Zombie children\<close>

definition is_zombie :: "(pcb_ptr \<rightharpoonup> pcb) \<Rightarrow> pcb_ptr \<Rightarrow> bool" where
  "is_zombie P c = (case P c of None \<Rightarrow> False | Some x \<Rightarrow> state x = PROCESS_ZOMBIE)"

lemma zombie_loop_ok:
  assumes "lists_ok (lists s) Q" "Q (Children q) = Some (map ChildNode (dn @ cs))"
    "\<forall>c \<in> set cs. pcbs s c \<noteq> None"
  shows "zombie_loop (length cs) (Some (seg_start (map ChildNode cs) (Sentinel (Children q)))) s
    = Some (List.find (is_zombie (pcbs s)) cs)"
  using assms
proof (induction cs arbitrary: dn)
  case (Cons c cs)
  obtain x where x: "pcbs s c = Some x" using Cons.prems(3) by auto
  have st: "seg_start (map ChildNode (c # cs)) (Sentinel (Children q)) = Elem (ChildNode c)"
    by (simp add: seg_start_def)
  have nx: "get_next (Some (Elem (ChildNode c))) (lists s)
      = Some (Some (seg_start (map ChildNode cs) (Sentinel (Children q))))"
    using get_next_ok [OF Cons.prems(1), of "Children q" "map ChildNode dn" "ChildNode c" "map ChildNode cs"]
      Cons.prems(2) by simp
  have "zombie_loop (length cs) (Some (seg_start (map ChildNode cs) (Sentinel (Children q)))) s
      = Some (List.find (is_zombie (pcbs s)) cs)"
    using Cons.IH [of "dn @ [c]"] Cons.prems by simp
  moreover have "is_zombie (pcbs s) c \<longleftrightarrow> state x = PROCESS_ZOMBIE" using x by (simp add: is_zombie_def)
  ultimately show ?case unfolding st using x nx by simp
qed simp

lemma find_zombie_child_ok:
  assumes inv: "pcb_ok s Q" and fam: "family_ok (pcbs s) Q" and q: "pcbs s q = Some y"
  shows "\<exists>cs. Q (Children q) = Some (map ChildNode cs)
    \<and> (\<forall>c. c \<in> set cs \<longleftrightarrow> (\<exists>x. pcbs s c = Some x \<and> parent x = Some q))
    \<and> find_zombie_child H (Some q) s = Some (List.find (is_zombie (pcbs s)) cs)"
proof -
  note si = inv [unfolded pcb_ok_def]
  have ok: "lists_ok (lists s) Q" using sched_invD(1) [OF si] .
  obtain xs where xs: "Q (Children q) = Some xs" using sched_invD(8) [OF si q] by blast
  obtain cs where cs: "xs = map ChildNode cs" by (rule children_nodes [OF si xs])
  have mem: "c \<in> set cs \<longleftrightarrow> (\<exists>x. pcbs s c = Some x \<and> parent x = Some q)" for c
  proof -
    have "c \<in> set cs \<longleftrightarrow> in_q Q (ChildNode c) (Children q)" using xs cs by (auto simp: in_q_def)
    then show ?thesis using family_okD(1,2) [OF fam] by blast
  qed
  have "zombie_loop (length cs) (Some (seg_start (map ChildNode cs) (Sentinel (Children q)))) s
      = Some (List.find (is_zombie (pcbs s)) cs)"
    by (rule zombie_loop_ok [where Q = Q and dn = "[]"]) (use ok xs cs mem in auto)
  moreover have "list_is_empty H (Some (Children q)) (lists s) = Some (if cs = [] then 1 else 0)"
    using list_is_empty_ok [OF ok xs] cs by simp
  moreover have "peek H (Some (Children q)) (lists s)
      = Some (if cs = [] then None else Some (seg_start (map ChildNode cs) (Sentinel (Children q))))"
    using peek_ok [OF ok xs, of H] cs by (cases cs) (simp_all add: seg_start_def)
  ultimately have "find_zombie_child H (Some q) s = Some (List.find (is_zombie (pcbs s)) cs)"
    using q lists_ok_count [OF ok xs] cs by (cases "cs = []") (simp_all add: find_zombie_child_def)
  then show ?thesis using xs cs mem by blast
qed


section \<open>Small systems\<close>

text \<open>
  A finite system given by its lists and its processes; the executable \<open>system_check\<close>
  decides that it satisfies both invariants.
\<close>

definition system_check :: "eref list \<Rightarrow> (lref \<times> eref list) list \<Rightarrow> (pcb_ptr \<times> pcb) list \<Rightarrow> bool" where
  "system_check nodes ls ps \<longleftrightarrow> distinct (map fst ls) \<and> distinct (concat (map snd ls)) \<and> distinct (map fst ps)
     \<and> (\<forall>(l, es) \<in> set ls. \<forall>e \<in> set es. e \<in> set nodes \<and> kind_ok e l \<and> (case e of
          QueueNode p \<Rightarrow> (\<exists>(p', c) \<in> set ps. p' = p \<and> state_queues (state c) l)
        | ChildNode c \<Rightarrow> (\<exists>(c', x) \<in> set ps. c' = c \<and> (case parent x of None \<Rightarrow> False | Some q \<Rightarrow> l = Children q))))
     \<and> (\<forall>l \<in> {ReadyQ, DelayQ, BlockedQ, ZombieQ}. l \<in> fst ` set ls)
     \<and> (\<forall>(l, es) \<in> set ls. case l of Children q \<Rightarrow> q \<in> fst ` set ps | _ \<Rightarrow> True)
     \<and> (\<forall>(p, c) \<in> set ps. QueueNode p \<in> set nodes \<and> ChildNode p \<in> set nodes \<and> Children p \<in> fst ` set ls
          \<and> (\<not> idle_state (state c) \<longrightarrow> (\<exists>(l, es) \<in> set ls. QueueNode p \<in> set es))
          \<and> (case parent c of None \<Rightarrow> True | Some q \<Rightarrow> (\<exists>(l, es) \<in> set ls. l = Children q \<and> ChildNode p \<in> set es)))"

lemma in_q_map_of:
  "distinct (map fst ls) \<Longrightarrow> in_q (map_of ls) e l \<longleftrightarrow> (\<exists>es. (l, es) \<in> set ls \<and> e \<in> set es)"
  by (auto simp: in_q_def)

lemma system_check_ok:
  assumes "system_check nodes ls ps"
  shows "sched_inv (list_heap nodes ls) (map_of ps) (map_of ls)" "family_ok (map_of ps) (map_of ls)"
proof -
  note sc = assms [unfolded system_check_def]
  have d: "distinct (map fst ls)" "distinct (concat (map snd ls))" "distinct (map fst ps)" using sc by blast+
  have sub: "set (concat (map snd ls)) \<subseteq> set nodes" using sc by (auto; blast)
  have P: "map_of ps p = Some c \<longleftrightarrow> (p, c) \<in> set ps" for p c using d(3) by simp
  have mem: "(l, es) \<in> set ls \<Longrightarrow> e \<in> set es \<Longrightarrow> kind_ok e l \<and> (case e of
          QueueNode p \<Rightarrow> (\<exists>(p', c) \<in> set ps. p' = p \<and> state_queues (state c) l)
        | ChildNode c \<Rightarrow> (\<exists>(c', x) \<in> set ps. c' = c \<and> (case parent x of None \<Rightarrow> False | Some q \<Rightarrow> l = Children q)))"
    for l es e using sc by blast
  have pr: "(p, c) \<in> set ps \<Longrightarrow> QueueNode p \<in> set nodes \<and> ChildNode p \<in> set nodes \<and> Children p \<in> fst ` set ls
          \<and> (\<not> idle_state (state c) \<longrightarrow> (\<exists>(l, es) \<in> set ls. QueueNode p \<in> set es))
          \<and> (case parent c of None \<Rightarrow> True | Some q \<Rightarrow> (\<exists>(l, es) \<in> set ls. l = Children q \<and> ChildNode p \<in> set es))"
    for p c using sc by blast
  show "sched_inv (list_heap nodes ls) (map_of ps) (map_of ls)"
    unfolding sched_inv_def in_q_map_of [OF d(1)] P list_heap_ok(2) [OF d(1,2) sub]
  proof (intro conjI allI impI)
    show "lists_ok (list_heap nodes ls) (map_of ls)" by (rule list_heap_ok(1) [OF d(1,2) sub])
    show "{ReadyQ, DelayQ, BlockedQ, ZombieQ} \<subseteq> dom (map_of ls)"
      unfolding dom_map_of_conv_image_fst using sc by blast
    show "\<exists>c. (p, c) \<in> set ps \<and> state_queues (state c) l"
      if "\<exists>es. (l, es) \<in> set ls \<and> QueueNode p \<in> set es" for p l using that mem by fastforce
    show "kind_ok e l" if "\<exists>es. (l, es) \<in> set ls \<and> e \<in> set es" for e l using that mem by blast
    show "\<exists>l es. (l, es) \<in> set ls \<and> QueueNode p \<in> set es"
      if "(p, c) \<in> set ps \<and> \<not> idle_state (state c)" for p c using that pr [of p c] by auto
    show "QueueNode p \<in> set nodes" "ChildNode p \<in> set nodes" if "(p, c) \<in> set ps" for p c
      using pr [OF that] by blast+
    show "Children p \<in> dom (map_of ls)" if "(p, c) \<in> set ps" for p c
      unfolding dom_map_of_conv_image_fst using pr [OF that] by blast
  qed
  show "family_ok (map_of ps) (map_of ls)"
    unfolding family_ok_def in_q_map_of [OF d(1)] P dom_map_of_conv_image_fst
  proof (intro conjI allI impI iffI)
    show "\<exists>x. (c, x) \<in> set ps \<and> parent x = Some q"
      if "\<exists>es. (Children q, es) \<in> set ls \<and> ChildNode c \<in> set es" for c q
      using that mem by (fastforce split: option.splits)
    show "\<exists>es. (Children q, es) \<in> set ls \<and> ChildNode c \<in> set es"
      if "\<exists>x. (c, x) \<in> set ps \<and> parent x = Some q" for c q
      using that pr by (fastforce split: option.splits)
    show "q \<in> fst ` set ps" if "Children q \<in> fst ` set ls" for q using that sc by fastforce
  qed
qed

definition blank_pcb :: pcb where
  "blank_pcb = \<lparr>user_context = \<lparr>uc_code = 0, uc_addr = 0, uc_pc = 0, uc_sp = 0, regs = \<lambda>_. 0\<rparr>,
     kernel_context = K_Unset, pid = 0, region1_pt = None, kernel_stack = None, brk = 0,
     state = PROCESS_DEFAULT, time_slice = 4, run_time = 0, delay_ticks = 0, exit_code = 0, parent = None,
     waiting_for_children = 0, tty_read_buffer = None, tty_read_len = 0, tty_read_terminal = -1,
     tty_write_buffer = None, tty_write_len = 0, tty_write_terminal = -1, tty_write_offset = 0,
     waiting_lock_id = -1, waiting_cvar_id = -1, waiting_pipe_id = -1, pipe_buffer = None, pipe_len = 0,
     write_loc = 0, should_fork = True\<rparr>"

definition small_system ::
  "eref list \<Rightarrow> (lref \<times> eref list) list \<Rightarrow> (pcb_ptr \<times> pcb) list \<Rightarrow> pcb_ptr \<Rightarrow> kstate" where
  "small_system nodes ls ps cur = \<lparr>frame_bitMap = replicate 16 1, region0_pt = replicate 8 zero_pte,
     page_tables = Map.empty, vm_enabled = 1, kernel_brk = 32, ptbr1 = None, pmem = \<lambda>_ _. 0, reg_log = [],
     lists = list_heap nodes ls, pcbs = map_of ps, current_process = Some cur, idle_process = None,
     kbufs = Map.empty, kints = Map.empty\<rparr>"

lemma small_system_simps [simp]:
  "frame_bitMap (small_system nodes ls ps cur) = replicate 16 1"
  "region0_pt (small_system nodes ls ps cur) = replicate 8 zero_pte"
  "page_tables (small_system nodes ls ps cur) = Map.empty" "vm_enabled (small_system nodes ls ps cur) = 1"
  "lists (small_system nodes ls ps cur) = list_heap nodes ls" "pcbs (small_system nodes ls ps cur) = map_of ps"
  "current_process (small_system nodes ls ps cur) = Some cur" "kints (small_system nodes ls ps cur) = Map.empty"
  by (simp_all add: small_system_def)

text \<open>Process 1 runs; of its children 2 sleeps for two ticks, 3 is ready and 4 is a zombie.\<close>

definition family_nodes :: "eref list" where
  "family_nodes = [QueueNode 1, QueueNode 2, QueueNode 3, QueueNode 4,
     ChildNode 1, ChildNode 2, ChildNode 3, ChildNode 4]"

definition family_lists :: "(lref \<times> eref list) list" where
  "family_lists = [(ReadyQ, [QueueNode 3]), (DelayQ, [QueueNode 2]), (BlockedQ, []), (ZombieQ, [QueueNode 4]),
     (Children 1, [ChildNode 2, ChildNode 3, ChildNode 4]), (Children 2, []), (Children 3, []), (Children 4, [])]"

definition family_pcbs :: "(pcb_ptr \<times> pcb) list" where
  "family_pcbs = [(1, blank_pcb\<lparr>pid := 1, state := PROCESS_RUNNING\<rparr>),
     (2, blank_pcb\<lparr>pid := 2, state := PROCESS_DELAYED, delay_ticks := 2, parent := Some 1\<rparr>),
     (3, blank_pcb\<lparr>pid := 3, state := PROCESS_READY, parent := Some 1\<rparr>),
     (4, blank_pcb\<lparr>pid := 4, state := PROCESS_ZOMBIE, parent := Some 1\<rparr>)]"

lemmas family_defs = family_nodes_def family_lists_def family_pcbs_def blank_pcb_def

definition family_system :: kstate where
  "family_system = small_system family_nodes family_lists family_pcbs 1"

lemma family_system_ok: "pcb_ok family_system (map_of family_lists)" "family_ok (pcbs family_system) (map_of family_lists)"
proof -
  have "system_check family_nodes family_lists family_pcbs"
    by (simp add: system_check_def family_defs idle_state_def)
  from system_check_ok [OF this] show "pcb_ok family_system (map_of family_lists)"
    "family_ok (pcbs family_system) (map_of family_lists)"
    by (simp_all add: pcb_ok_def family_system_def)
qed

section \<open>Properties\<close>

text \<open>
  C6: A process that is in the delay queue with \<open>n > 0\<close> ticks to go stays there, delayed,
  for the next \<open>n - 1\<close> clock ticks with its counter going down by one at each, and is
  moved to the ready queue, in state ready, by exactly the \<open>n\<close>-th one, whatever the other
  processes in the queues do; the queues stay consistent throughout.
\<close>

theorem delay_wakes_on_time:
  assumes "pcb_ok s Q" "in_q Q (QueueNode p) DelayQ" "pcbs s p = Some c" "0 < delay_ticks c"
  shows "(\<forall>k < nat (delay_ticks c). \<exists>s' Q'. clock_ticks H k s = Some s' \<and> pcb_ok s' Q'
        \<and> in_q Q' (QueueNode p) DelayQ \<and> pcbs s' p = Some (c\<lparr>delay_ticks := delay_ticks c - int k\<rparr>))
    \<and> (\<exists>s' Q'. clock_ticks H (nat (delay_ticks c)) s = Some s' \<and> pcb_ok s' Q'
        \<and> in_q Q' (QueueNode p) ReadyQ \<and> pcbs s' p = Some (c\<lparr>delay_ticks := 0, state := PROCESS_READY\<rparr>))"
proof (intro conjI allI impI)
  fix k assume "k < nat (delay_ticks c)"
  then have "int k < delay_ticks c" by simp
  then show "\<exists>s' Q'. clock_ticks H k s = Some s' \<and> pcb_ok s' Q' \<and> in_q Q' (QueueNode p) DelayQ
      \<and> pcbs s' p = Some (c\<lparr>delay_ticks := delay_ticks c - int k\<rparr>)"
    by (rule delay_countdown [OF assms(1-3)])
qed (rule delay_expires [OF assms])

lemma delay_wakes_on_time_witness:
  "\<exists>s' Q'. clock_ticks demo_hw 2 family_system = Some s' \<and> pcb_ok s' Q' \<and> in_q Q' (QueueNode 2) ReadyQ
     \<and> map_option state (pcbs s' 2) = Some PROCESS_READY"
proof -
  have "in_q (map_of family_lists) (QueueNode 2) DelayQ" by (simp add: in_q_def family_lists_def)
  from delay_wakes_on_time [OF family_system_ok(1) this, of _ demo_hw] show ?thesis
    by (simp add: family_system_def family_pcbs_def) (metis option.map(2) pcb.select_convs(7) pcb.surjective pcb.update_convs(7))
qed

text \<open>
  C18: For a live process, \<open>find_zombie_child\<close> walks exactly the processes whose parent it
  is, in the order they were added, and returns the first one that is a zombie, or NULL when
  none is: it returns NULL if and only if the process has no zombie child.
\<close>

theorem find_zombie_child_correct:
  assumes "pcb_ok s Q" "family_ok (pcbs s) Q" "pcbs s q = Some y"
  shows "\<exists>r. find_zombie_child H (Some q) s = Some r
    \<and> (r = None \<longleftrightarrow> \<not> (\<exists>c x. pcbs s c = Some x \<and> parent x = Some q \<and> state x = PROCESS_ZOMBIE))
    \<and> (\<forall>c. r = Some c \<longrightarrow> (\<exists>x as bs. pcbs s c = Some x \<and> parent x = Some q \<and> state x = PROCESS_ZOMBIE
          \<and> Q (Children q) = Some (map ChildNode (as @ c # bs)) \<and> (\<forall>a \<in> set as. \<not> is_zombie (pcbs s) a)))"
proof -
  obtain cs where cs: "Q (Children q) = Some (map ChildNode cs)"
    "\<forall>c. c \<in> set cs \<longleftrightarrow> (\<exists>x. pcbs s c = Some x \<and> parent x = Some q)"
    "find_zombie_child H (Some q) s = Some (List.find (is_zombie (pcbs s)) cs)"
    using find_zombie_child_ok [OF assms] by blast
  have "List.find (is_zombie (pcbs s)) cs = None \<longleftrightarrow>
      \<not> (\<exists>c x. pcbs s c = Some x \<and> parent x = Some q \<and> state x = PROCESS_ZOMBIE)"
    unfolding find_None_iff is_zombie_def using cs(2) by (auto split: option.splits)
  moreover have "\<exists>x as bs. pcbs s c = Some x \<and> parent x = Some q \<and> state x = PROCESS_ZOMBIE
      \<and> Q (Children q) = Some (map ChildNode (as @ c # bs)) \<and> (\<forall>a \<in> set as. \<not> is_zombie (pcbs s) a)"
    if fd: "List.find (is_zombie (pcbs s)) cs = Some c" for c
  proof -
    obtain i where i: "i < length cs" "is_zombie (pcbs s) (cs ! i)" "c = cs ! i"
      "\<forall>j < i. \<not> is_zombie (pcbs s) (cs ! j)" using fd unfolding find_Some_iff by blast
    have "cs = take i cs @ c # drop (Suc i) cs" using i(1,3) by (simp add: id_take_nth_drop)
    moreover have "\<forall>a \<in> set (take i cs). \<not> is_zombie (pcbs s) a" using i(1,4) by (auto simp: in_set_conv_nth)
    moreover obtain x where "pcbs s c = Some x" "parent x = Some q" using cs(2) i(1,3) nth_mem by blast
    moreover have "state x = PROCESS_ZOMBIE" using i(2,3) calculation(3) by (simp add: is_zombie_def)
    ultimately show ?thesis using cs(1) by metis
  qed
  ultimately show ?thesis using cs(3) by (intro exI [of _ "List.find (is_zombie (pcbs s)) cs"]) simp
qed

lemma find_zombie_child_correct_witness: "find_zombie_child demo_hw (Some 1) family_system = Some (Some 4)"
proof -
  obtain r where r: "find_zombie_child demo_hw (Some 1) family_system = Some r"
    "r = None \<longleftrightarrow> \<not> (\<exists>c x. pcbs family_system c = Some x \<and> parent x = Some 1 \<and> state x = PROCESS_ZOMBIE)"
    "\<forall>c. r = Some c \<longrightarrow> (\<exists>x. pcbs family_system c = Some x \<and> state x = PROCESS_ZOMBIE)"
    using find_zombie_child_correct [OF family_system_ok, of 1 _ demo_hw] by (auto simp: family_system_def family_pcbs_def)
  have "\<exists>x. pcbs family_system 4 = Some x \<and> parent x = Some 1 \<and> state x = PROCESS_ZOMBIE"
    by (simp add: family_system_def family_pcbs_def)
  then obtain c where c: "r = Some c" using r(2) by (cases r) blast+
  with r(3) have "c = 4"
    by (auto simp: family_system_def family_pcbs_def blank_pcb_def split: if_splits)
  with c r(1) show ?thesis by simp
qed

end
