(* ===== verification/Context.thy ===== *)
theory Context
  imports Process
begin

text \<open>
  Switching between processes and copying one: \<open>context_switch.c\<close> and the macros of
  \<open>context_switch.h\<close>.

  \<open>KernelContextSwitch\<close> belongs to the Yalnix framework. \<open>Documentation/Yalnix Reqs.md\<close> says
  that it calls the given function with the kernel context of the caller and then continues
  in the context the function returns, as if the call that saved this context had returned
  0; or it does nothing and returns -1. A kernel context is a \<open>kcont\<close>: the point where the
  call was made.
\<close>

section \<open>Temporary mappings\<close>

definition TEMP_MAPPING_VADDR :: "hw \<Rightarrow> u32" where
  "TEMP_MAPPING_VADDR H = KERNEL_STACK_BASE H - PAGESIZE H"

definition KSTACK_START_PAGE :: "hw \<Rightarrow> u32" where
  "KSTACK_START_PAGE H = drop_bit (PAGESHIFT H) (KERNEL_STACK_BASE H)"

definition NUM_PAGES_REGION1 :: "hw \<Rightarrow> nat" where
  "NUM_PAGES_REGION1 H = unat (VMEM_1_SIZE H div PAGESIZE H)"

definition setup_temp_mapping :: "hw \<Rightarrow> int \<Rightarrow> 'a mem_scheme \<Rightarrow> 'a mem_scheme option" where
  "setup_temp_mapping H f s = do {
     let vpn = uint (ADDR_TO_PAGE_NUM H (TEMP_MAPPING_VADDR H));
     s \<leftarrow> pt_set Region0 vpn
           \<lparr>valid = True, prot = or (PROT_READ H) (PROT_WRITE H), pfn = word_of_int f\<rparr> s;
     Some (WriteRegister (W_TLB_FLUSH (TEMP_MAPPING_VADDR H)) s) }"

definition remove_temp_mapping :: "hw \<Rightarrow> 'a mem_scheme \<Rightarrow> 'a mem_scheme option" where
  "remove_temp_mapping H s = do {
     let vpn = uint (ADDR_TO_PAGE_NUM H (TEMP_MAPPING_VADDR H));
     e \<leftarrow> pt_get Region0 vpn s;
     pt_set Region0 vpn (e\<lparr>valid := False\<rparr>) s }"

text \<open>The three calls both copying loops make for one page.\<close>

definition copy_page_to :: "hw \<Rightarrow> int \<Rightarrow> u32 \<Rightarrow> 'a mem_scheme \<Rightarrow> 'a mem_scheme option" where
  "copy_page_to H f src s = do {
     s \<leftarrow> setup_temp_mapping H f s;
     s \<leftarrow> memcpy H (TEMP_MAPPING_VADDR H) src (unat (PAGESIZE H)) s;
     remove_temp_mapping H s }"

section \<open>Kernel stacks\<close>

text \<open>
  \<open>memcpy\<close> of page table entries: as many as the kernel stack has pages, from the start of
  the table into the Region 0 table at \<open>page\<close>.
\<close>

definition map_kernel_stack :: "hw \<Rightarrow> pt_ptr option \<Rightarrow> 'a mem_scheme \<Rightarrow> (int \<times> 'a mem_scheme) option" where
  "map_kernel_stack H kernel_stack_pt s = do {
     let num_pages = kstack_pages H;
     let page = unat (KSTACK_START_PAGE H);
     p \<leftarrow> kernel_stack_pt;
     t \<leftarrow> page_tables s p;
     guard (num_pages \<le> length t \<and> page + num_pages \<le> length (region0_pt s));
     Some (0, s\<lparr>region0_pt := take page (region0_pt s) @ take num_pages t @ drop (page + num_pages) (region0_pt s)\<rparr>) }"

text \<open>The common part of both branches of \<open>KCSwitch\<close>; the result is the context to resume.\<close>

definition switch_to :: "hw \<Rightarrow> pcb_ptr option \<Rightarrow> 'a kstate_scheme \<Rightarrow> (kcont \<times> 'a kstate_scheme) option" where
  "switch_to H next_proc s = do {
     s \<leftarrow> Some (s\<lparr>current_process := next_proc\<rparr>);
     s \<leftarrow> upd_pcb next_proc (\<lambda>c. c\<lparr>state := PROCESS_RUNNING\<rparr>) s;
     x \<leftarrow> get_pcb next_proc s;
     (rc, s) \<leftarrow> map_kernel_stack H (kernel_stack x) s;
     p \<leftarrow> region1_pt x;
     s \<leftarrow> Some (WriteRegister (W_PTBR1 p) s);
     s \<leftarrow> Some (WriteRegister W_TLB_FLUSH_ALL s);
     Some (kernel_context x, s) }"

definition KCSwitch ::
  "hw \<Rightarrow> kcont \<Rightarrow> pcb_ptr option \<Rightarrow> pcb_ptr option \<Rightarrow> 'a kstate_scheme \<Rightarrow> (kcont \<times> 'a kstate_scheme) option" where
  "KCSwitch H kc_in curr_pcb_p next_pcb_p s =
     (if curr_pcb_p \<noteq> None then do {
        _ \<leftarrow> get_pcb next_pcb_p s;
        s \<leftarrow> upd_pcb curr_pcb_p (\<lambda>c. c\<lparr>kernel_context := kc_in\<rparr>) s;
        switch_to H next_pcb_p s }
      else switch_to H next_pcb_p s)"

text \<open>\<open>n\<close> is the number of iterations left.\<close>

fun copy_stack_loop :: "hw \<Rightarrow> pt_ptr option \<Rightarrow> int \<Rightarrow> nat \<Rightarrow> 'a mem_scheme \<Rightarrow> 'a mem_scheme option" where
  "copy_stack_loop H t i 0 s = Some s"
| "copy_stack_loop H t i (Suc n) s = do {
     p \<leftarrow> t;
     e \<leftarrow> pt_get (Table p) i s;
     s \<leftarrow> copy_page_to H (uint (pfn e)) (push_bit (PAGESHIFT H) (KSTACK_START_PAGE H + word_of_int i)) s;
     e \<leftarrow> pt_get (Table p) i s;
     s \<leftarrow> pt_set (Table p) i (e\<lparr>valid := True, prot := or (PROT_READ H) (PROT_WRITE H)\<rparr>) s;
     copy_stack_loop H t (i + 1) n s }"

definition KCCopy :: "hw \<Rightarrow> kcont \<Rightarrow> pcb_ptr option \<Rightarrow> 'a kstate_scheme \<Rightarrow> (kcont \<times> 'a kstate_scheme) option" where
  "KCCopy H kc_in new_pcb_p s = do {
     s \<leftarrow> upd_pcb new_pcb_p (\<lambda>c. c\<lparr>kernel_context := kc_in\<rparr>) s;
     x \<leftarrow> get_pcb new_pcb_p s;
     s \<leftarrow> copy_stack_loop H (kernel_stack x) 0 (unat (KERNEL_STACK_MAXSIZE H div PAGESIZE H)) s;
     Some (kc_in, WriteRegister W_TLB_FLUSH_KSTACK s) }"

section \<open>Address spaces\<close>

fun copy_table_loop ::
  "hw \<Rightarrow> pt_ptr option \<Rightarrow> pt_ptr option \<Rightarrow> int \<Rightarrow> nat \<Rightarrow> 'a mem_scheme \<Rightarrow> 'a mem_scheme option" where
  "copy_table_loop H parent_pt child_pt i 0 s = Some s"
| "copy_table_loop H parent_pt child_pt i (Suc n) s = do {
     p \<leftarrow> parent_pt;
     e \<leftarrow> pt_get (Table p) i s;
     s \<leftarrow> (if valid e then do {
            (child_frame, s) \<leftarrow> allocate_frame H s;
            q \<leftarrow> child_pt;
            x \<leftarrow> pt_get (Table q) i s;
            s \<leftarrow> pt_set (Table q) i (x\<lparr>pfn := word_of_int child_frame\<rparr>) s;
            let parent_addr = push_bit (PAGESHIFT H) (word_of_int i + word_of_nat (NUM_PAGES_REGION1 H));
            s \<leftarrow> copy_page_to H child_frame parent_addr s;
            e \<leftarrow> pt_get (Table p) i s;
            x \<leftarrow> pt_get (Table q) i s;
            pt_set (Table q) i (x\<lparr>prot := prot e, valid := True\<rparr>) s }
          else Some s);
     copy_table_loop H parent_pt child_pt (i + 1) n s }"

definition CopyPageTable ::
  "hw \<Rightarrow> pcb_ptr option \<Rightarrow> pcb_ptr option \<Rightarrow> 'a kstate_scheme \<Rightarrow> 'a kstate_scheme option" where
  "CopyPageTable H parent_p child_p s = do {
     x \<leftarrow> get_pcb parent_p s;
     y \<leftarrow> get_pcb child_p s;
     copy_table_loop H (region1_pt x) (region1_pt y) 0 (NUM_PAGES_REGION1 H) s }"

end
