(* ===== verification/Release.thy ===== *)
theory Release
  imports Process
begin

text \<open>
  What \<open>pcb.c\<close> gives back when a process ends: the frames of its address space and of its
  kernel stack, its page tables, its children, and its own place in the queues.
\<close>

section \<open>Frames\<close>

lemma free_frame_any:
  assumes "frames_inv H s"
  shows "\<exists>bm. free_frame H (int n) s = Some (s\<lparr>frame_bitMap := bm\<rparr>) \<and> frames_inv H (s\<lparr>frame_bitMap := bm\<rparr>)
    \<and> used_frames H (s\<lparr>frame_bitMap := bm\<rparr>) = used_frames H s - {n}"
proof (cases "n < NUM_VPN H")
  case True
  then show ?thesis
    using free_frame_run [OF assms True] used_frames_set [OF assms True, of 0] assms
    by (auto simp: frames_inv_def)
next
  case False
  then have "free_frame H (int n) s = Some (s\<lparr>frame_bitMap := frame_bitMap s\<rparr>)" "n \<notin> used_frames H s"
    by (auto simp: free_frame_def used_frames_def)
  with assms show ?thesis by (intro exI [of _ "frame_bitMap s"]) simp
qed

definition all_frames :: "pte list \<Rightarrow> nat set" where
  "all_frames t = (\<lambda>e. unat (pfn e)) ` set t"

text \<open>Both loops change the bitmap only.\<close>

lemma free_user_loop_ok:
  assumes "frames_inv H s" "page_tables s t = Some pt" "i + n \<le> length pt"
  shows "\<exists>bm. free_user_loop H (Some t) (int i) n s = Some (s\<lparr>frame_bitMap := bm\<rparr>)
    \<and> frames_inv H (s\<lparr>frame_bitMap := bm\<rparr>)
    \<and> used_frames H (s\<lparr>frame_bitMap := bm\<rparr>) = used_frames H s - valid_frames (pt_range i (i + n) pt)"
  using assms
proof (induction n arbitrary: i s)
  case 0
  then show ?case by (intro exI [of _ "frame_bitMap s"]) (simp add: pt_range_def)
next
  case (Suc n)
  have il: "i < length pt" using Suc.prems(3) by simp
  have get: "pt_get (Table t) (int i) s = Some (pt ! i)" using Suc.prems(2) il by (simp add: pt_get_def)
  have rng: "pt_range i (i + Suc n) pt = pt ! i # pt_range (Suc i) (Suc i + n) pt"
    using pt_range_Suc [of i "i + Suc n" pt] il by simp
  obtain bm where bm: "(if valid (pt ! i) then free_frame H (uint (pfn (pt ! i))) s else Some s)
      = Some (s\<lparr>frame_bitMap := bm\<rparr>)" "frames_inv H (s\<lparr>frame_bitMap := bm\<rparr>)"
    "used_frames H (s\<lparr>frame_bitMap := bm\<rparr>)
      = used_frames H s - (if valid (pt ! i) then {unat (pfn (pt ! i))} else {})"
  proof (cases "valid (pt ! i)")
    case True
    then show thesis using free_frame_any [OF Suc.prems(1), of "unat (pfn (pt ! i))"] that
      by (auto simp: uint_nat_eq simp del: of_nat_unat)
  next
    case False
    then show thesis using that [of "frame_bitMap s"] Suc.prems(1) by simp
  qed
  let ?s = "s\<lparr>frame_bitMap := bm\<rparr>"
  obtain bm' where bm': "free_user_loop H (Some t) (int (Suc i)) n ?s = Some (?s\<lparr>frame_bitMap := bm'\<rparr>)"
    "frames_inv H (?s\<lparr>frame_bitMap := bm'\<rparr>)"
    "used_frames H (?s\<lparr>frame_bitMap := bm'\<rparr>) = used_frames H ?s - valid_frames (pt_range (Suc i) (Suc i + n) pt)"
    using Suc.IH [OF bm(2), of "Suc i"] Suc.prems(2,3) by auto
  have "free_user_loop H (Some t) (int i) (Suc n) s = Some (s\<lparr>frame_bitMap := bm'\<rparr>)"
    using get bm(1) bm'(1) by (auto simp: add.commute)
  moreover have "used_frames H (s\<lparr>frame_bitMap := bm'\<rparr>) = used_frames H s - valid_frames (pt_range i (i + Suc n) pt)"
    using bm(3) bm'(3) unfolding rng by auto
  ultimately show ?case using bm'(2) by (intro exI [of _ bm']) simp
qed

lemma free_stack_loop_ok:
  assumes "frames_inv H s" "page_tables s t = Some pt" "i + n \<le> length pt"
  shows "\<exists>bm. free_stack_loop H (Some t) (int i) n s = Some (s\<lparr>frame_bitMap := bm\<rparr>)
    \<and> frames_inv H (s\<lparr>frame_bitMap := bm\<rparr>)
    \<and> used_frames H (s\<lparr>frame_bitMap := bm\<rparr>) = used_frames H s - all_frames (pt_range i (i + n) pt)"
  using assms
proof (induction n arbitrary: i s)
  case 0
  then show ?case by (intro exI [of _ "frame_bitMap s"]) (simp add: pt_range_def all_frames_def)
next
  case (Suc n)
  have il: "i < length pt" using Suc.prems(3) by simp
  have get: "pt_get (Table t) (int i) s = Some (pt ! i)" using Suc.prems(2) il by (simp add: pt_get_def)
  have rng: "pt_range i (i + Suc n) pt = pt ! i # pt_range (Suc i) (Suc i + n) pt"
    using pt_range_Suc [of i "i + Suc n" pt] il by simp
  obtain bm where bm: "free_frame H (uint (pfn (pt ! i))) s = Some (s\<lparr>frame_bitMap := bm\<rparr>)"
    "frames_inv H (s\<lparr>frame_bitMap := bm\<rparr>)"
    "used_frames H (s\<lparr>frame_bitMap := bm\<rparr>) = used_frames H s - {unat (pfn (pt ! i))}"
    using free_frame_any [OF Suc.prems(1), of "unat (pfn (pt ! i))"]
    by (auto simp: uint_nat_eq simp del: of_nat_unat)
  let ?s = "s\<lparr>frame_bitMap := bm\<rparr>"
  obtain bm' where bm': "free_stack_loop H (Some t) (int (Suc i)) n ?s = Some (?s\<lparr>frame_bitMap := bm'\<rparr>)"
    "frames_inv H (?s\<lparr>frame_bitMap := bm'\<rparr>)"
    "used_frames H (?s\<lparr>frame_bitMap := bm'\<rparr>) = used_frames H ?s - all_frames (pt_range (Suc i) (Suc i + n) pt)"
    using Suc.IH [OF bm(2), of "Suc i"] Suc.prems(2,3) by auto
  have "free_stack_loop H (Some t) (int i) (Suc n) s = Some (s\<lparr>frame_bitMap := bm'\<rparr>)"
    using get bm(1) bm'(1) by (auto simp: add.commute)
  moreover have "used_frames H (s\<lparr>frame_bitMap := bm'\<rparr>) = used_frames H s - all_frames (pt_range i (i + Suc n) pt)"
    using bm(3) bm'(3) unfolding rng by (auto simp: all_frames_def)
  ultimately show ?case using bm'(2) by (intro exI [of _ bm']) simp
qed

text \<open>The tables of a process, at the lengths the kernel allocates them.\<close>

definition tables_ok :: "hw \<Rightarrow> 'a kstate_scheme \<Rightarrow> pcb \<Rightarrow> pte list \<Rightarrow> pte list \<Rightarrow> bool" where
  "tables_ok H s c r1 ks \<longleftrightarrow> (\<exists>t u. region1_pt c = Some t \<and> kernel_stack c = Some u \<and> t \<noteq> u
     \<and> page_tables s t = Some r1 \<and> page_tables s u = Some ks
     \<and> length r1 = MAX_PT_LEN H \<and> length ks = kstack_pages H)"

lemma free_userspace_ok:
  assumes "frames_inv H s" "pcbs s p = Some c" "region1_pt c = Some t" "page_tables s t = Some r1"
    "length r1 = MAX_PT_LEN H"
  shows "\<exists>bm. free_userspace H (Some p) s = Some (s\<lparr>frame_bitMap := bm\<rparr>)
    \<and> frames_inv H (s\<lparr>frame_bitMap := bm\<rparr>)
    \<and> used_frames H (s\<lparr>frame_bitMap := bm\<rparr>) = used_frames H s - valid_frames r1"
  using free_user_loop_ok [OF assms(1,4), of 0 "MAX_PT_LEN H"] assms(2,3,5)
  by (simp add: free_userspace_def pt_range_def)

lemma free_process_memory_ok:
  assumes "frames_inv H s" "pcbs s p = Some c" "tables_ok H s c r1 ks"
  shows "\<exists>bm. free_process_memory H (Some p) s = Some (s\<lparr>frame_bitMap := bm\<rparr>)
    \<and> frames_inv H (s\<lparr>frame_bitMap := bm\<rparr>)
    \<and> used_frames H (s\<lparr>frame_bitMap := bm\<rparr>) = used_frames H s - valid_frames r1 - all_frames ks"
proof -
  obtain t u where tu: "region1_pt c = Some t" "kernel_stack c = Some u" "page_tables s t = Some r1"
    "page_tables s u = Some ks" "length r1 = MAX_PT_LEN H" "length ks = kstack_pages H"
    using assms(3) by (auto simp: tables_ok_def)
  obtain bm where bm: "free_userspace H (Some p) s = Some (s\<lparr>frame_bitMap := bm\<rparr>)"
    "frames_inv H (s\<lparr>frame_bitMap := bm\<rparr>)"
    "used_frames H (s\<lparr>frame_bitMap := bm\<rparr>) = used_frames H s - valid_frames r1"
    using free_userspace_ok [OF assms(1,2) tu(1,3,5)] by blast
  have pt: "page_tables (s\<lparr>frame_bitMap := bm\<rparr>) u = Some ks" using tu(4) by simp
  show ?thesis
    using free_stack_loop_ok [OF bm(2) pt, of 0 "kstack_pages H"] bm tu(2,6) assms(2)
    by (auto simp: free_process_memory_def pt_range_def)
qed


section \<open>Orphans\<close>

definition orphaned :: "pcb_ptr list \<Rightarrow> (pcb_ptr \<rightharpoonup> pcb) \<Rightarrow> (pcb_ptr \<rightharpoonup> pcb)" where
  "orphaned cs P = (\<lambda>c. if c \<in> set cs then map_option (\<lambda>x. x\<lparr>parent := None\<rparr>) (P c) else P c)"

lemma orphaned_Cons: "P c = Some x \<Longrightarrow> c \<notin> set cs \<Longrightarrow>
    orphaned cs (P(c \<mapsto> x\<lparr>parent := None\<rparr>)) = orphaned (c # cs) P"
  by (auto simp: orphaned_def fun_eq_iff)

text \<open>One round: the first child leaves the list and loses its parent.\<close>

lemma orphan_step:
  assumes si: "sched_inv (lists s) (pcbs s) Q" and q: "Q (Children q) = Some (ChildNode c # xs)"
    and fam: "family_ok (pcbs s) Q" and c: "pcbs s c = Some x" "state x \<noteq> PROCESS_ZOMBIE"
  shows "\<exists>h'. orphan_loop H q s
      = orphan_loop H q (s\<lparr>lists := h', pcbs := (pcbs s)(c \<mapsto> x\<lparr>parent := None\<rparr>)\<rparr>)
    \<and> sched_inv h' ((pcbs s)(c \<mapsto> x\<lparr>parent := None\<rparr>)) (Q(Children q \<mapsto> xs))
    \<and> family_ok ((pcbs s)(c \<mapsto> x\<lparr>parent := None\<rparr>)) (Q(Children q \<mapsto> xs))"
proof -
  let ?Q = "Q(Children q \<mapsto> xs)" and ?P = "(pcbs s)(c \<mapsto> x\<lparr>parent := None\<rparr>)"
  have ok: "lists_ok (lists s) Q" using sched_invD(1) [OF si] .
  obtain h' where h': "pop H (Some (Children q)) (lists s) = Some (Some (Elem (ChildNode c)), h')"
    "lists_ok h' ?Q" "\<forall>e. has_elem h' e = has_elem (lists s) e"
    using pop_ok [OF ok q] by blast
  have set: "set xs = set (ChildNode c # xs) - {ChildNode c}" using lists_ok_distinct [OF ok q] by auto
  have iq: "in_q ?Q e l \<longleftrightarrow> in_q Q e l \<and> \<not> (e = ChildNode c \<and> l = Children q)" for e l
    using in_q_remove [of Q "Children q" "ChildNode c # xs" xs "ChildNode c" e l] q set by blast
  have "sched_inv h' (pcbs s) ?Q"
    by (rule sched_inv_lists [OF si h'(2)]) (use h'(3) iq in auto)
  then have "sched_inv h' ?P ?Q"
    by (rule sched_inv_same_state [where P = "pcbs s" and p = c and c = x]) (use c in simp_all)
  moreover have pq: "parent x = Some q"
    using family_okD(1) [OF fam, of c q] in_qI [where Q = Q, OF q, of "ChildNode c"] c(1) by auto
  have "family_ok ?P ?Q"
    using fam c pq q unfolding family_ok_def iq by auto
  moreover have "list_is_empty H (Some (Children q)) (lists s) = Some 0"
    using list_is_empty_ok [OF ok q] by simp
  then have "orphan_loop H q s = orphan_loop H q (s\<lparr>lists := h', pcbs := ?P\<rparr>)"
    using h'(1) c by (simp add: orphan_loop.simps [of H q s] upd_pcb_def)
  ultimately show ?thesis by blast
qed

lemma orphan_loop_ok:
  assumes "sched_inv (lists s) (pcbs s) Q" "family_ok (pcbs s) Q" "Q (Children q) = Some (map ChildNode cs)"
    "\<forall>c \<in> set cs. \<not> is_zombie (pcbs s) c"
  shows "\<exists>h'. orphan_loop H q s = Some (s\<lparr>lists := h', pcbs := orphaned cs (pcbs s)\<rparr>)
    \<and> sched_inv h' (orphaned cs (pcbs s)) (Q(Children q \<mapsto> []))
    \<and> family_ok (orphaned cs (pcbs s)) (Q(Children q \<mapsto> []))"
  using assms
proof (induction cs arbitrary: s Q)
  case Nil
  have e: "Q(Children q \<mapsto> []) = Q" "orphaned [] (pcbs s) = pcbs s"
    using Nil.prems(3) by (auto simp: orphaned_def)
  have "list_is_empty H (Some (Children q)) (lists s) = Some 1"
    using list_is_empty_ok [OF sched_invD(1) [OF Nil.prems(1)] Nil.prems(3)] by simp
  then have "orphan_loop H q s = Some (s\<lparr>lists := lists s, pcbs := orphaned [] (pcbs s)\<rparr>)"
    by (simp add: orphan_loop.simps [of H q s] e)
  then show ?case using Nil.prems(1,2) unfolding e by blast
next
  case (Cons c cs)
  have q: "Q (Children q) = Some (ChildNode c # map ChildNode cs)" using Cons.prems(3) by simp
  obtain x where x: "pcbs s c = Some x"
    using family_okD(1) [OF Cons.prems(2), of c q] in_qI [where Q = Q, OF q, of "ChildNode c"] by auto
  have nz: "state x \<noteq> PROCESS_ZOMBIE" using Cons.prems(4) x by (simp add: is_zombie_def)
  have nc: "c \<notin> set cs"
    using lists_ok_distinct [OF sched_invD(1) [OF Cons.prems(1)] q] by auto
  let ?P = "(pcbs s)(c \<mapsto> x\<lparr>parent := None\<rparr>)"
  obtain h1 where h1: "orphan_loop H q s = orphan_loop H q (s\<lparr>lists := h1, pcbs := ?P\<rparr>)"
    "sched_inv h1 ?P (Q(Children q \<mapsto> map ChildNode cs))" "family_ok ?P (Q(Children q \<mapsto> map ChildNode cs))"
    using orphan_step [OF Cons.prems(1) q Cons.prems(2) x nz] by blast
  let ?s = "s\<lparr>lists := h1, pcbs := ?P\<rparr>"
  have nz': "\<forall>a \<in> set cs. \<not> is_zombie (pcbs ?s) a"
    using Cons.prems(4) x nz by (auto simp: is_zombie_def)
  have i: "sched_inv (lists ?s) (pcbs ?s) (Q(Children q \<mapsto> map ChildNode cs))"
    "family_ok (pcbs ?s) (Q(Children q \<mapsto> map ChildNode cs))"
    using h1(2,3) by simp_all
  have Ps: "pcbs ?s = ?P" by simp
  obtain h2 where h2: "orphan_loop H q ?s = Some (?s\<lparr>lists := h2, pcbs := orphaned cs ?P\<rparr>)"
    "sched_inv h2 (orphaned cs ?P) (Q(Children q \<mapsto> map ChildNode cs, Children q \<mapsto> []))"
    "family_ok (orphaned cs ?P) (Q(Children q \<mapsto> map ChildNode cs, Children q \<mapsto> []))"
    using Cons.IH [OF i fun_upd_same nz'] unfolding Ps by blast
  have "orphan_loop H q s = Some (s\<lparr>lists := h2, pcbs := orphaned (c # cs) (pcbs s)\<rparr>)"
    using h1(1) h2(1) orphaned_Cons [of "pcbs s" c x cs] x nc by simp
  then show ?case using h2(2,3) unfolding orphaned_Cons [of "pcbs s" c x cs, OF x nc] fun_upd_upd by blast
qed

lemma orphan_children_ok:
  assumes si: "sched_inv (lists s) (pcbs s) Q" and fam: "family_ok (pcbs s) Q"
    and q: "Q (Children q) = Some (map ChildNode cs)" and cur: "current_process s = Some q"
    and nz: "\<forall>c \<in> set cs. \<not> is_zombie (pcbs s) c"
  shows "\<exists>h'. orphan_children H q s = Some (s\<lparr>lists := h', pcbs := orphaned cs (pcbs s)\<rparr>)
    \<and> sched_inv h' (orphaned cs (pcbs s)) (Q(Children q \<mapsto> []))
    \<and> family_ok (orphaned cs (pcbs s)) (Q(Children q \<mapsto> []))"
proof (cases "cs = []")
  case True
  have e: "Q(Children q \<mapsto> []) = Q" "orphaned cs (pcbs s) = pcbs s" using q True by (auto simp: orphaned_def)
  have "orphan_children H q s = Some (s\<lparr>lists := lists s, pcbs := orphaned cs (pcbs s)\<rparr>)"
    using list_is_empty_ok [OF sched_invD(1) [OF si] q] cur True e(2) by (simp add: orphan_children_def)
  then show ?thesis using si fam unfolding e by blast
next
  case False
  then have "orphan_children H q s = orphan_loop H q s"
    using list_is_empty_ok [OF sched_invD(1) [OF si] q] cur by (simp add: orphan_children_def)
  then show ?thesis using orphan_loop_ok [OF si fam q nz] by simp
qed


section \<open>Exit\<close>

lemma sched_inv_idle:
  assumes inv: "sched_inv h P Q" and p: "P p = Some c" "idle_state (state c)" "idle_state (state c')"
  shows "sched_inv h (P(p \<mapsto> c')) Q"
proof (rule sched_inv_change [OF inv sched_invD(1) [OF inv] subset_refl refl p(1) refl])
  fix l assume "in_q Q (QueueNode p) l"
  then show "state_queues (state c') l"
    using sched_inv_idle_unqueued [OF inv p(1,2)] by (auto simp: queued_in_q)
qed (use p(3) in simp)

lemma family_ok_same_parent:
  "family_ok P Q \<Longrightarrow> P p = Some c \<Longrightarrow> parent c' = parent c \<Longrightarrow> family_ok (P(p \<mapsto> c')) Q"
  unfolding family_ok_def by auto

lemma family_ok_queue:
  assumes "family_ok P Q" "\<And>q. l \<noteq> Children q"
  shows "family_ok P (Q(l \<mapsto> xs))"
  using assms(1) assms(2) [symmetric] unfolding family_ok_def by (auto simp: in_q_def)

text \<open>
  The memory part of the exit: afterwards the frames are free and both tables are gone.
\<close>

lemma free_tables_ok:
  assumes "page_tables s t = Some r1" "page_tables s u = Some ks" "t \<noteq> u"
  shows "free_table (Some u) s = Some (s\<lparr>page_tables := (page_tables s)(u := None)\<rparr>)"
    "free_table (Some t) (s\<lparr>page_tables := (page_tables s)(u := None)\<rparr>)
      = Some (s\<lparr>page_tables := (page_tables s)(u := None, t := None)\<rparr>)"
  using assms by (simp_all add: free_table_def)

definition parent_waits :: "'a kstate_scheme \<Rightarrow> pcb \<Rightarrow> bool" where
  "parent_waits s c = (case parent c of None \<Rightarrow> False
     | Some q \<Rightarrow> (case pcbs s q of None \<Rightarrow> True | Some y \<Rightarrow> waiting_for_children y \<noteq> 0))"

text \<open>Up to the parent: everything the process holds is released, and it is in no queue.\<close>

lemma terminate_prefix:
  assumes si: "sched_inv (lists s) (pcbs s) Q" and fam: "family_ok (pcbs s) Q"
    and cur: "current_process s = Some p" and p: "pcbs s p = Some c" "idle_state (state c)" "parent c \<noteq> Some p"
    and cs: "Q (Children p) = Some (map ChildNode cs)" "\<forall>a \<in> set cs. \<not> is_zombie (pcbs s) a"
    and fr: "frames_inv H s" and tb: "tables_ok H s c r1 ks"
  shows "\<exists>s' t u. region1_pt c = Some t \<and> kernel_stack c = Some u
    \<and> terminate_process H (Some p) status s
      = (case parent c of
           Some q \<Rightarrow> do { y \<leftarrow> pcbs s' q;
             if waiting_for_children y \<noteq> 0 then wake_waiting_parent H q p status s'
             else add_to_zombie_queue (Some p) s' }
         | None \<Rightarrow> add_to_zombie_queue (Some p) s')
    \<and> pcbs s' = (orphaned cs (pcbs s))(p \<mapsto> c\<lparr>exit_code := status, state := PROCESS_DEFAULT\<rparr>)
    \<and> sched_inv (lists s') (pcbs s') (Q(Children p \<mapsto> [])) \<and> family_ok (pcbs s') (Q(Children p \<mapsto> []))
    \<and> frames_inv H s' \<and> used_frames H s' = used_frames H s - valid_frames r1 - all_frames ks
    \<and> page_tables s' = (page_tables s)(u := None, t := None) \<and> kints s' = kints s
    \<and> current_process s' = current_process s \<and> idle_process s' = idle_process s \<and> region0_pt s' = region0_pt s"
proof -
  let ?c = "c\<lparr>exit_code := status, state := PROCESS_DEFAULT\<rparr>"
  let ?P = "(pcbs s)(p \<mapsto> ?c)" and ?Q = "Q(Children p \<mapsto> [])"
  let ?s1 = "s\<lparr>pcbs := ?P\<rparr>"
  have s1: "sched_inv (lists ?s1) (pcbs ?s1) Q" "family_ok (pcbs ?s1) Q"
    using sched_inv_idle [OF si p(1,2), of ?c] family_ok_same_parent [OF fam p(1), of ?c]
    by (simp_all add: idle_state_def)
  have pcs: "p \<notin> set cs"
  proof
    assume "p \<in> set cs"
    then have "in_q Q (ChildNode p) (Children p)" using cs(1) by (auto simp: in_q_def)
    then show False using family_okD(1) [OF fam, of p p] p by auto
  qed
  have nz: "\<forall>a \<in> set cs. \<not> is_zombie (pcbs ?s1) a" using cs(2) pcs by (auto simp: is_zombie_def)
  have cur1: "current_process ?s1 = Some p" using cur by simp
  obtain h2 where h2: "orphan_children H p ?s1 = Some (?s1\<lparr>lists := h2, pcbs := orphaned cs (pcbs ?s1)\<rparr>)"
    "sched_inv h2 (orphaned cs (pcbs ?s1)) ?Q" "family_ok (orphaned cs (pcbs ?s1)) ?Q"
    using orphan_children_ok [OF s1 cs(1) cur1 nz] by blast
  let ?P2 = "(orphaned cs (pcbs s))(p \<mapsto> ?c)"
  have P2: "orphaned cs (pcbs ?s1) = ?P2" using pcs by (auto simp: orphaned_def fun_eq_iff)
  let ?s2 = "s\<lparr>lists := h2, pcbs := ?P2\<rparr>"
  have o: "orphan_children H p ?s1 = Some ?s2" using h2(1) unfolding P2 by simp
  obtain t u where tu: "region1_pt c = Some t" "kernel_stack c = Some u" "page_tables s t = Some r1"
    "page_tables s u = Some ks" "t \<noteq> u" using tb by (auto simp: tables_ok_def)
  have f2: "frames_inv H ?s2" "pcbs ?s2 p = Some ?c" "tables_ok H ?s2 ?c r1 ks"
    using fr tb by (simp_all add: frames_inv_def tables_ok_def)
  obtain bm where bm: "free_process_memory H (Some p) ?s2 = Some (?s2\<lparr>frame_bitMap := bm\<rparr>)"
    "frames_inv H (?s2\<lparr>frame_bitMap := bm\<rparr>)"
    "used_frames H (?s2\<lparr>frame_bitMap := bm\<rparr>) = used_frames H ?s2 - valid_frames r1 - all_frames ks"
    using free_process_memory_ok [OF f2] by blast
  define s3 where "s3 = ?s2\<lparr>frame_bitMap := bm\<rparr>"
  define s' where "s' = s3\<lparr>page_tables := (page_tables s)(u := None, t := None)\<rparr>"
  have ft: "free_table (Some u) s3 = Some (s3\<lparr>page_tables := (page_tables s)(u := None)\<rparr>)"
    "free_table (Some t) (s3\<lparr>page_tables := (page_tables s)(u := None)\<rparr>) = Some s'"
    using free_tables_ok [of s3 t r1 u ks] tu by (simp_all add: s3_def s'_def)
  have p3: "pcbs s3 p = Some ?c" "pcbs s' p = Some ?c" by (simp_all add: s3_def s'_def)
  have "terminate_process H (Some p) status s
      = (case parent c of
           Some q \<Rightarrow> do { y \<leftarrow> pcbs s' q;
             if waiting_for_children y \<noteq> 0 then wake_waiting_parent H q p status s'
             else add_to_zombie_queue (Some p) s' }
         | None \<Rightarrow> add_to_zombie_queue (Some p) s')"
    using o bm(1) ft p(1) p3 tu(1,2) by (simp add: terminate_process_def upd_pcb_def flip: s3_def)
  moreover have "pcbs s' = ?P2" "lists s' = h2" "kints s' = kints s" "current_process s' = current_process s"
    "idle_process s' = idle_process s" "region0_pt s' = region0_pt s" by (simp_all add: s'_def s3_def)
  moreover have "frames_inv H s'" "used_frames H s' = used_frames H s - valid_frames r1 - all_frames ks"
    using bm(2,3) by (simp_all add: s'_def s3_def frames_inv_def used_frames_def)
  ultimately show ?thesis
    using tu h2(2,3) unfolding P2 by (intro exI [of _ s'] exI [of _ t] exI [of _ u]) (simp add: s'_def)
qed


section \<open>The parent\<close>

text \<open>
  The heap without the nodes and the list that lie in the control block of \<open>p\<close>: its parent's
  list of children still links to it and is a list no more.
\<close>

definition without :: "pcb_ptr \<Rightarrow> kernel_lists \<Rightarrow> kernel_lists" where
  "without p h = free_list (Children p) (free_elem (QueueNode p) (free_elem (ChildNode p) h))"

lemma without_ok:
  assumes ok: "lists_ok h Q" and cq: "in_q Q (ChildNode p) (Children q)" and qp: "QueueNode p \<notin> queued Q"
  shows "lists_ok (without p h) (Q(Children p := None, Children q := None))"
proof -
  have only: "l = Children q" if "in_q Q (ChildNode p) l" for l using qs.in_q_unique [OF ok _ that] cq by blast
  have "in_q Q e l \<and> l \<noteq> Children q" if "in_q (Q(Children q := None)) e l" for e l
    using that by (auto simp: in_q_def split: if_splits)
  then have cp: "ChildNode p \<notin> queued (Q(Children q := None))" using only unfolding queued_in_q by blast
  have nq: "QueueNode p \<notin> queued (Q(Children q := None))" using qp unfolding queued_def by (auto split: if_splits)
  have "lists_ok (free_elem (ChildNode p) h) (Q(Children q := None))"
    by (rule lists_ok_free_elem [OF lists_ok_drop [OF ok] cp])
  then have "lists_ok (free_elem (QueueNode p) (free_elem (ChildNode p) h)) (Q(Children q := None))"
    by (rule lists_ok_free_elem [OF _ nq])
  then have "lists_ok (without p h) (Q(Children q := None, Children p := None))" unfolding without_def by (rule lists_ok_free_list)
  then show ?thesis by (cases "p = q") (simp_all add: fun_upd_twist)
qed

text \<open>
  A blocked process taken out of the blocked queue and made ready. The state changes in
  \<open>pcbs\<close> and \<open>lists\<close> only.
\<close>

lemma unblock_ok:
  assumes inv: "sched_inv (lists s) (pcbs s) Q" and q: "pcbs s q = Some y" "state y = PROCESS_BLOCKED"
    and b: "Q BlockedQ = Some bs" "QueueNode q \<in> set bs" and r: "Q ReadyQ = Some rs"
  shows "\<exists>h'. (remove_from_blocked_queue (Some q) s \<bind> add_to_ready_queue (Some q))
      = Some (s\<lparr>pcbs := (pcbs s)(q \<mapsto> y\<lparr>state := PROCESS_READY\<rparr>), lists := h'\<rparr>)
    \<and> sched_inv h' ((pcbs s)(q \<mapsto> y\<lparr>state := PROCESS_READY\<rparr>))
        (Q(BlockedQ \<mapsto> remove1 (QueueNode q) bs, ReadyQ \<mapsto> rs @ [QueueNode q]))"
proof -
  let ?c1 = "y\<lparr>state := PROCESS_DEFAULT\<rparr>" and ?Q1 = "Q(BlockedQ \<mapsto> remove1 (QueueNode q) bs)"
  obtain h1 where h1: "remove_from_blocked_queue (Some q) s
      = Some (s\<lparr>pcbs := (pcbs s)(q \<mapsto> ?c1), lists := h1\<rparr>)" "sched_inv h1 ((pcbs s)(q \<mapsto> ?c1)) ?Q1"
    using queue_remove_ok [where Q = Q, OF inv q b] unfolding remove_from_blocked_queue_def by blast
  let ?s1 = "s\<lparr>pcbs := (pcbs s)(q \<mapsto> ?c1), lists := h1\<rparr>"
  have "\<exists>h'. queue_add ReadyQ (\<lambda>c. c\<lparr>state := PROCESS_READY\<rparr>) (Some q) ?s1
      = Some (?s1\<lparr>pcbs := (pcbs ?s1)(q \<mapsto> ?c1\<lparr>state := PROCESS_READY\<rparr>), lists := h'\<rparr>)
    \<and> sched_inv h' ((pcbs ?s1)(q \<mapsto> ?c1\<lparr>state := PROCESS_READY\<rparr>)) (?Q1(ReadyQ \<mapsto> rs @ [QueueNode q]))"
    by (rule queue_add_ok) (use h1(2) r in auto)
  then show ?thesis using h1(1) by (simp add: add_to_ready_queue_def)
qed

lemma wake_waiting_parent_ok:
  assumes inv: "sched_inv (lists s) (pcbs s) Q" and q: "pcbs s q = Some y" "state y = PROCESS_BLOCKED"
    and b: "Q BlockedQ = Some bs" "QueueNode q \<in> set bs" and r: "Q ReadyQ = Some rs"
    and p: "pcbs s p = Some x" "idle_state (state x)"
    and k: "regs (user_context y) 0 = a" "a \<noteq> 0" "kints s a \<noteq> None"
    and cq: "in_q Q (ChildNode p) (Children q)"
  shows "\<exists>s'. wake_waiting_parent H q p status s = Some s'
    \<and> pcbs s' = (pcbs s)(q \<mapsto> y\<lparr>state := PROCESS_READY,
         user_context := set_reg 0 (word_of_int (pid x)) (user_context y)\<rparr>, p := None)
    \<and> kints s' = (kints s)(a \<mapsto> word_of_int status)
    \<and> lists_ok (lists s') (Q(BlockedQ \<mapsto> remove1 (QueueNode q) bs, ReadyQ \<mapsto> rs @ [QueueNode q],
         Children p := None, Children q := None))
    \<and> used_frames H s' = used_frames H s \<and> page_tables s' = page_tables s \<and> current_process s' = current_process s"
proof -
  let ?Q = "Q(BlockedQ \<mapsto> remove1 (QueueNode q) bs, ReadyQ \<mapsto> rs @ [QueueNode q])"
  obtain h' where h': "(remove_from_blocked_queue (Some q) s \<bind> add_to_ready_queue (Some q))
      = Some (s\<lparr>pcbs := (pcbs s)(q \<mapsto> y\<lparr>state := PROCESS_READY\<rparr>), lists := h'\<rparr>)"
    "sched_inv h' ((pcbs s)(q \<mapsto> y\<lparr>state := PROCESS_READY\<rparr>)) ?Q"
    using unblock_ok [OF inv q b r] by blast
  have pq: "p \<noteq> q" using p q by (auto simp: idle_state_def)
  let ?h = "free_list (Children p) (free_elem (QueueNode p) (free_elem (ChildNode p) h'))"
  define s' where "s' = s\<lparr>kints := (kints s)(a \<mapsto> word_of_int status),
     pcbs := (pcbs s)(q \<mapsto> y\<lparr>state := PROCESS_READY,
         user_context := set_reg 0 (word_of_int (pid x)) (user_context y)\<rparr>, p := None), lists := ?h\<rparr>"
  have run: "wake_waiting_parent H q p status s = Some s'"
  proof -
    obtain s1 where s1: "remove_from_blocked_queue (Some q) s = Some s1"
      "add_to_ready_queue (Some q) s1 = Some (s\<lparr>pcbs := (pcbs s)(q \<mapsto> y\<lparr>state := PROCESS_READY\<rparr>), lists := h'\<rparr>)"
      using h'(1) by (auto split: Option.bind_splits)
    show ?thesis using s1 pq p k
      by (simp add: wake_waiting_parent_def deref_store_def upd_pcb_def free_pcb_def s'_def fun_upd_twist)
  qed
  have ok: "lists_ok h' ?Q" using sched_invD(1) [OF h'(2)] .
  have qp: "QueueNode p \<notin> queued ?Q"
    using sched_inv_idle_unqueued [OF h'(2), of p x] p pq by simp
  have "in_q ?Q (ChildNode p) (Children q)" using cq by (simp add: in_q_def)
  then have "lists_ok (lists s') (?Q(Children p := None, Children q := None))"
    using without_ok [OF ok _ qp] by (simp add: s'_def without_def)
  then show ?thesis using run by (intro exI [of _ s']) (simp add: s'_def used_frames_def)
qed


lemma terminate_zombie:
  assumes si: "sched_inv (lists s) (pcbs s) Q" and fam: "family_ok (pcbs s) Q"
    and cur: "current_process s = Some p" and p: "pcbs s p = Some c" "idle_state (state c)" "parent c \<noteq> Some p"
    and cs: "Q (Children p) = Some (map ChildNode cs)" "\<forall>a \<in> set cs. \<not> is_zombie (pcbs s) a"
    and fr: "frames_inv H s" and tb: "tables_ok H s c r1 ks" and nw: "\<not> parent_waits s c"
  shows "\<exists>s' zs t u. terminate_process H (Some p) status s = Some s'
    \<and> region1_pt c = Some t \<and> kernel_stack c = Some u
    \<and> pcbs s' = (orphaned cs (pcbs s))(p \<mapsto> c\<lparr>exit_code := status, state := PROCESS_ZOMBIE\<rparr>)
    \<and> Q ZombieQ = Some zs \<and> pcb_ok s' (Q(Children p \<mapsto> [], ZombieQ \<mapsto> zs @ [QueueNode p]))
    \<and> family_ok (pcbs s') (Q(Children p \<mapsto> [], ZombieQ \<mapsto> zs @ [QueueNode p]))
    \<and> used_frames H s' = used_frames H s - valid_frames r1 - all_frames ks
    \<and> page_tables s' = (page_tables s)(u := None, t := None)
    \<and> current_process s' = current_process s \<and> idle_process s' = idle_process s \<and> region0_pt s' = region0_pt s"
proof -
  let ?c = "c\<lparr>exit_code := status, state := PROCESS_DEFAULT\<rparr>" and ?Q = "Q(Children p \<mapsto> [])"
  obtain s1 t u where s1: "region1_pt c = Some t" "kernel_stack c = Some u"
    "terminate_process H (Some p) status s
      = (case parent c of
           Some q \<Rightarrow> do { y \<leftarrow> pcbs s1 q;
             if waiting_for_children y \<noteq> 0 then wake_waiting_parent H q p status s1
             else add_to_zombie_queue (Some p) s1 }
         | None \<Rightarrow> add_to_zombie_queue (Some p) s1)"
    "pcbs s1 = (orphaned cs (pcbs s))(p \<mapsto> ?c)"
    "sched_inv (lists s1) (pcbs s1) ?Q" "family_ok (pcbs s1) ?Q"
    "used_frames H s1 = used_frames H s - valid_frames r1 - all_frames ks"
    "page_tables s1 = (page_tables s)(u := None, t := None)"
    "current_process s1 = current_process s" "idle_process s1 = idle_process s" "region0_pt s1 = region0_pt s"
    using terminate_prefix [OF si fam cur p cs fr tb, of status] by blast
  have z: "terminate_process H (Some p) status s = add_to_zombie_queue (Some p) s1"
  proof (cases "parent c")
    case (Some q)
    then obtain y where "pcbs s q = Some y" "waiting_for_children y = 0"
      using nw by (auto simp: parent_waits_def split: option.splits)
    then have "\<exists>y'. pcbs s1 q = Some y' \<and> waiting_for_children y' = 0"
      using p(3) Some unfolding s1(4) by (auto simp: orphaned_def)
    then show ?thesis using s1(3) Some by auto
  qed (use s1(3) in simp)
  obtain zs where zs: "?Q ZombieQ = Some zs" by (rule sched_inv_queue [OF s1(5), of ZombieQ]) auto
  have "\<exists>h'. queue_add ZombieQ (\<lambda>c. c\<lparr>state := PROCESS_ZOMBIE\<rparr>) (Some p) s1
      = Some (s1\<lparr>pcbs := (pcbs s1)(p \<mapsto> ?c\<lparr>state := PROCESS_ZOMBIE\<rparr>), lists := h'\<rparr>)
    \<and> sched_inv h' ((pcbs s1)(p \<mapsto> ?c\<lparr>state := PROCESS_ZOMBIE\<rparr>)) (?Q(ZombieQ \<mapsto> zs @ [QueueNode p]))"
    by (rule queue_add_ok [OF s1(5)]) (use zs s1(4) in auto)
  then obtain h' where h': "add_to_zombie_queue (Some p) s1
      = Some (s1\<lparr>pcbs := (pcbs s1)(p \<mapsto> ?c\<lparr>state := PROCESS_ZOMBIE\<rparr>), lists := h'\<rparr>)"
    "sched_inv h' ((pcbs s1)(p \<mapsto> ?c\<lparr>state := PROCESS_ZOMBIE\<rparr>)) (?Q(ZombieQ \<mapsto> zs @ [QueueNode p]))"
    unfolding add_to_zombie_queue_def by blast
  let ?s = "s1\<lparr>pcbs := (pcbs s1)(p \<mapsto> ?c\<lparr>state := PROCESS_ZOMBIE\<rparr>), lists := h'\<rparr>"
  have "family_ok ((pcbs s1)(p \<mapsto> ?c\<lparr>state := PROCESS_ZOMBIE\<rparr>)) ?Q"
    by (rule family_ok_same_parent [where c = ?c]) (use s1(4,6) in auto)
  then have "family_ok (pcbs ?s) (?Q(ZombieQ \<mapsto> zs @ [QueueNode p]))"
    using family_ok_queue [where Q = ?Q and l = ZombieQ] by simp
  moreover have "used_frames H ?s = used_frames H s1" by (simp add: used_frames_def)
  ultimately show ?thesis using z h' s1 zs
    by (intro exI [of _ ?s] exI [of _ zs] exI [of _ t] exI [of _ u]) (simp add: pcb_ok_def)
qed

lemma terminate_waited:
  assumes "pcb_ok s Q" "family_ok (pcbs s) Q" "current_process s = Some p" "pcbs s p = Some c"
    "idle_state (state c)" "frames_inv H s" "tables_ok H s c r1 ks"
    "\<forall>a x. pcbs s a = Some x \<and> parent x = Some p \<longrightarrow> state x \<noteq> PROCESS_ZOMBIE"
    "parent c = Some q" "pcbs s q = Some y" "state y = PROCESS_BLOCKED" "waiting_for_children y \<noteq> 0"
    "Q BlockedQ = Some bs" "QueueNode q \<in> set bs" "Q ReadyQ = Some rs" "parent y \<noteq> Some p"
    "regs (user_context y) 0 = a" "a \<noteq> 0" "kints s a \<noteq> None"
  shows "\<exists>s'. terminate_process H (Some p) status s = Some s'
    \<and> pcbs s' q = Some (y\<lparr>state := PROCESS_READY,
         user_context := set_reg 0 (word_of_int (pid c)) (user_context y)\<rparr>)
    \<and> kints s' a = Some (word_of_int status) \<and> pcbs s' p = None
    \<and> lists_ok (lists s') (Q(BlockedQ \<mapsto> remove1 (QueueNode q) bs, ReadyQ \<mapsto> rs @ [QueueNode q],
         Children p := None, Children q := None))
    \<and> used_frames H s' = used_frames H s - valid_frames r1 - all_frames ks
    \<and> current_process s' = current_process s"
proof -
  note si = assms(1) [unfolded pcb_ok_def] and fam = assms(2)
  have pq: "p \<noteq> q" using assms(4,5,10,11) by (auto simp: idle_state_def)
  obtain xs where xs: "Q (Children p) = Some xs" using sched_invD(8) [OF si assms(4)] by blast
  obtain cs where cs: "xs = map ChildNode cs" by (rule children_nodes [OF si xs])
  have par: "\<exists>x. pcbs s d = Some x \<and> parent x = Some p" if "d \<in> set cs" for d
    using family_okD(1) [OF fam, of d p] that xs cs by (auto simp: in_q_def)
  have nz: "\<forall>d \<in> set cs. \<not> is_zombie (pcbs s) d" using par assms(8) by (fastforce simp: is_zombie_def)
  have qcs: "q \<notin> set cs" using par [of q] assms(10,16) by auto
  let ?c = "c\<lparr>exit_code := status, state := PROCESS_DEFAULT\<rparr>" and ?Q = "Q(Children p \<mapsto> [])"
  obtain s1 t u where s1: "terminate_process H (Some p) status s
      = (case parent c of
           Some q \<Rightarrow> do { y \<leftarrow> pcbs s1 q;
             if waiting_for_children y \<noteq> 0 then wake_waiting_parent H q p status s1
             else add_to_zombie_queue (Some p) s1 }
         | None \<Rightarrow> add_to_zombie_queue (Some p) s1)"
    "pcbs s1 = (orphaned cs (pcbs s))(p \<mapsto> ?c)"
    "sched_inv (lists s1) (pcbs s1) ?Q" "family_ok (pcbs s1) ?Q"
    "used_frames H s1 = used_frames H s - valid_frames r1 - all_frames ks" "kints s1 = kints s"
    "current_process s1 = current_process s"
    using terminate_prefix [OF si fam assms(3,4,5) _ xs [unfolded cs] nz assms(6,7), of status] assms(9) pq by auto
  have y: "pcbs s1 q = Some y" using s1(2) assms(10) qcs pq by (simp add: orphaned_def)
  have run: "terminate_process H (Some p) status s = wake_waiting_parent H q p status s1"
    using s1(1) assms(9,12) y by simp
  have pc: "pcbs s1 p = Some ?c" "idle_state (state ?c)" using s1(2) by (simp_all add: idle_state_def)
  have qs: "?Q BlockedQ = Some bs" "?Q ReadyQ = Some rs" using assms(13,15) by simp_all
  have k: "kints s1 a \<noteq> None" using s1(6) assms(19) by simp
  have cq: "in_q ?Q (ChildNode p) (Children q)" using family_okD(2) [OF s1(4) pc(1)] assms(9) by simp
  obtain s' where s': "wake_waiting_parent H q p status s1 = Some s'"
    "pcbs s' = (pcbs s1)(q \<mapsto> y\<lparr>state := PROCESS_READY,
         user_context := set_reg 0 (word_of_int (pid ?c)) (user_context y)\<rparr>, p := None)"
    "kints s' = (kints s1)(a \<mapsto> word_of_int status)"
    "lists_ok (lists s') (?Q(BlockedQ \<mapsto> remove1 (QueueNode q) bs, ReadyQ \<mapsto> rs @ [QueueNode q],
         Children p := None, Children q := None))"
    "used_frames H s' = used_frames H s1" "current_process s' = current_process s1"
    using wake_waiting_parent_ok [OF s1(3) y assms(11) qs(1) assms(14) qs(2) pc assms(17,18) k cq] by blast
  have "?Q(BlockedQ \<mapsto> remove1 (QueueNode q) bs, ReadyQ \<mapsto> rs @ [QueueNode q], Children p := None, Children q := None)
      = Q(BlockedQ \<mapsto> remove1 (QueueNode q) bs, ReadyQ \<mapsto> rs @ [QueueNode q], Children p := None, Children q := None)"
    by (rule ext) simp
  then have "lists_ok (lists s') (Q(BlockedQ \<mapsto> remove1 (QueueNode q) bs, ReadyQ \<mapsto> rs @ [QueueNode q],
         Children p := None, Children q := None))" using s'(4) by (simp only:)
  then show ?thesis unfolding run using s' pq s1(5,7) by (intro exI [of _ s']) simp
qed

section \<open>Properties\<close>

text \<open>
  C4: When the running process exits, its parent (if it has one) is not waiting and none of its
  children is a zombie, all frames of its address space and of its kernel stack become free and
  no other frame does, exactly its two page tables are released, each of its children loses its
  parent and no other process changes, and it stays behind as a zombie with its exit code, at
  the tail of the zombie queue and, if it has a parent, still among that parent's children.
  (With a waiting parent see the next property; a zombie child would be freed by
  \<open>orphan_children\<close> while it is linked into the zombie queue.)
\<close>

theorem exit_releases_everything:
  assumes "pcb_ok s Q" "family_ok (pcbs s) Q" "current_process s = Some p" "pcbs s p = Some c"
    "idle_state (state c)" "parent c \<noteq> Some p" "frames_inv H s" "tables_ok H s c r1 ks" "\<not> parent_waits s c"
    "\<forall>a x. pcbs s a = Some x \<and> parent x = Some p \<longrightarrow> state x \<noteq> PROCESS_ZOMBIE"
  shows "\<exists>s' Q' zs. terminate_process H (Some p) status s = Some s' \<and> pcb_ok s' Q' \<and> family_ok (pcbs s') Q'
    \<and> pcbs s' p = Some (c\<lparr>exit_code := status, state := PROCESS_ZOMBIE\<rparr>)
    \<and> Q ZombieQ = Some zs \<and> Q' ZombieQ = Some (zs @ [QueueNode p])
    \<and> (\<forall>a. a \<noteq> p \<longrightarrow> pcbs s' a
        = map_option (\<lambda>x. if parent x = Some p then x\<lparr>parent := None\<rparr> else x) (pcbs s a))
    \<and> used_frames H s' = used_frames H s - valid_frames r1 - all_frames ks
    \<and> (\<forall>t. page_tables s' t
        = (if region1_pt c = Some t \<or> kernel_stack c = Some t then None else page_tables s t))"
proof -
  note si = assms(1) [unfolded pcb_ok_def]
  obtain xs where xs: "Q (Children p) = Some xs" using sched_invD(8) [OF si assms(4)] by blast
  obtain cs where cs: "xs = map ChildNode cs" by (rule children_nodes [OF si xs])
  have "\<forall>a \<in> set cs. \<not> is_zombie (pcbs s) a"
  proof
    fix a assume "a \<in> set cs"
    then have "in_q Q (ChildNode a) (Children p)" using xs cs by (auto simp: in_q_def)
    then show "\<not> is_zombie (pcbs s) a"
      using family_okD(1) [OF assms(2)] assms(10) by (fastforce simp: is_zombie_def)
  qed
  then obtain s' zs t u where s': "terminate_process H (Some p) status s = Some s'"
    "region1_pt c = Some t" "kernel_stack c = Some u"
    "pcbs s' = (orphaned cs (pcbs s))(p \<mapsto> c\<lparr>exit_code := status, state := PROCESS_ZOMBIE\<rparr>)"
    "Q ZombieQ = Some zs" "pcb_ok s' (Q(Children p \<mapsto> [], ZombieQ \<mapsto> zs @ [QueueNode p]))"
    "family_ok (pcbs s') (Q(Children p \<mapsto> [], ZombieQ \<mapsto> zs @ [QueueNode p]))"
    "used_frames H s' = used_frames H s - valid_frames r1 - all_frames ks"
    "page_tables s' = (page_tables s)(u := None, t := None)"
    using terminate_zombie [OF si assms(2-6) xs [unfolded cs] _ assms(7-9), of status] by blast
  let ?Q = "Q(Children p \<mapsto> [], ZombieQ \<mapsto> zs @ [QueueNode p])"
  have child: "a \<in> set cs \<longleftrightarrow> (\<exists>x. pcbs s a = Some x \<and> parent x = Some p)" for a
    using family_okD(1) [OF assms(2), of a p] family_okD(2) [OF assms(2), of a _ p] xs cs by (auto simp: in_q_def)
  have "pcbs s' a = map_option (\<lambda>x. if parent x = Some p then x\<lparr>parent := None\<rparr> else x) (pcbs s a)"
    if "a \<noteq> p" for a
    using that child [of a] by (cases "pcbs s a") (simp_all add: s'(4) orphaned_def)
  moreover have "page_tables s' x = (if region1_pt c = Some x \<or> kernel_stack c = Some x then None else page_tables s x)" for x
    using s'(2,3) by (simp add: s'(9))
  moreover have "pcbs s' p = Some (c\<lparr>exit_code := status, state := PROCESS_ZOMBIE\<rparr>)" by (simp add: s'(4))
  ultimately show ?thesis using s'(1,5-8) by (intro exI [of _ s'] exI [of _ ?Q] exI [of _ zs]) simp
qed

text \<open>Process 2 exits: its parent 1 is ready, its child 3 too.\<close>

definition exit_lists :: "(lref \<times> eref list) list" where
  "exit_lists = [(ReadyQ, [QueueNode 1, QueueNode 3]), (DelayQ, []), (BlockedQ, []), (ZombieQ, []),
     (Children 1, [ChildNode 2]), (Children 2, [ChildNode 3]), (Children 3, []), (Children 4, [])]"

definition exiting_pcb :: pcb where
  "exiting_pcb = blank_pcb\<lparr>pid := 2, state := PROCESS_RUNNING, parent := Some 1, region1_pt := Some 10,
     kernel_stack := Some 11\<rparr>"

definition exit_pcbs :: "(pcb_ptr \<times> pcb) list" where
  "exit_pcbs = [(1, blank_pcb\<lparr>pid := 1, state := PROCESS_READY\<rparr>), (2, exiting_pcb),
     (3, blank_pcb\<lparr>pid := 3, state := PROCESS_READY, parent := Some 2\<rparr>), (4, blank_pcb)]"

definition demo_table :: "nat \<Rightarrow> nat list \<Rightarrow> pte list" where
  "demo_table n fs = map (rw_pte demo_hw) fs @ replicate (n - length fs) zero_pte"

definition exit_system :: kstate where
  "exit_system = (small_system family_nodes exit_lists exit_pcbs 2)
     \<lparr>page_tables := [10 \<mapsto> demo_table 8 [5, 6], 11 \<mapsto> demo_table 2 [7, 8]]\<rparr>"

lemma exit_system_ok: "pcb_ok exit_system (map_of exit_lists)" "family_ok (pcbs exit_system) (map_of exit_lists)"
proof -
  have "system_check family_nodes exit_lists exit_pcbs"
    by (simp add: system_check_def family_nodes_def exit_lists_def exit_pcbs_def exiting_pcb_def blank_pcb_def
        idle_state_def)
  from system_check_ok [OF this] show "pcb_ok exit_system (map_of exit_lists)"
    "family_ok (pcbs exit_system) (map_of exit_lists)"
    by (simp_all add: pcb_ok_def exit_system_def)
qed

lemma kstack_pages_demo [simp]: "kstack_pages demo_hw = 2"
  by (simp add: kstack_pages_def ADDR_TO_PAGE_NUM_def)

lemma exit_releases_everything_witness:
  "\<exists>s' r1 ks. terminate_process demo_hw (Some 2) 7 exit_system = Some s'
     \<and> map_option state (pcbs s' 2) = Some PROCESS_ZOMBIE \<and> map_option exit_code (pcbs s' 2) = Some 7
     \<and> used_frames demo_hw s' = used_frames demo_hw exit_system - valid_frames r1 - all_frames ks"
proof -
  have p: "pcbs exit_system 2 = Some exiting_pcb" "current_process exit_system = Some 2"
    "idle_state (state exiting_pcb)" "parent exiting_pcb \<noteq> Some 2"
    by (simp_all add: exit_system_def exit_pcbs_def exiting_pcb_def idle_state_def)
  have t: "frames_inv demo_hw exit_system"
    "tables_ok demo_hw exit_system exiting_pcb (demo_table 8 [5, 6]) (demo_table 2 [7, 8])"
    by (simp_all add: frames_inv_def exit_system_def tables_ok_def exiting_pcb_def demo_table_def)
  have w: "\<not> parent_waits exit_system exiting_pcb"
    "\<forall>a x. pcbs exit_system a = Some x \<and> parent x = Some 2 \<longrightarrow> state x \<noteq> PROCESS_ZOMBIE"
    by (simp_all add: parent_waits_def exit_system_def exit_pcbs_def exiting_pcb_def blank_pcb_def)
  obtain s' where "terminate_process demo_hw (Some 2) 7 exit_system = Some s'"
    "pcbs s' 2 = Some (exiting_pcb\<lparr>exit_code := 7, state := PROCESS_ZOMBIE\<rparr>)"
    "used_frames demo_hw s' = used_frames demo_hw exit_system
       - valid_frames (demo_table 8 [5, 6]) - all_frames (demo_table 2 [7, 8])"
    using exit_releases_everything [OF exit_system_ok p(2,1,3,4) t w, of 7] by blast
  then show ?thesis
    by (intro exI [of _ s'] exI [of _ "demo_table 8 [5, 6]"] exI [of _ "demo_table 2 [7, 8]"]) simp
qed


text \<open>
  C5: When the running process exits while its parent is blocked in Wait, the parent is
  moved from the blocked queue to the tail of the ready queue, gets the child's pid as its
  return value and the exit code in the cell its register 0 points to, the child's process
  control block is freed, and all frames of the child are free again.
\<close>

theorem exit_wakes_waiting_parent:
  assumes "pcb_ok s Q" "family_ok (pcbs s) Q" "current_process s = Some p" "pcbs s p = Some c"
    "idle_state (state c)" "frames_inv H s" "tables_ok H s c r1 ks"
    "\<forall>a x. pcbs s a = Some x \<and> parent x = Some p \<longrightarrow> state x \<noteq> PROCESS_ZOMBIE"
    "parent c = Some q" "pcbs s q = Some y" "state y = PROCESS_BLOCKED" "waiting_for_children y \<noteq> 0"
    "Q BlockedQ = Some bs" "QueueNode q \<in> set bs" "Q ReadyQ = Some rs" "parent y \<noteq> Some p"
    "regs (user_context y) 0 = a" "a \<noteq> 0" "kints s a \<noteq> None"
  shows "\<exists>s'. terminate_process H (Some p) status s = Some s'
    \<and> pcbs s' q = Some (y\<lparr>state := PROCESS_READY,
         user_context := set_reg 0 (word_of_int (pid c)) (user_context y)\<rparr>)
    \<and> kints s' a = Some (word_of_int status) \<and> pcbs s' p = None
    \<and> lists_ok (lists s') (Q(BlockedQ \<mapsto> remove1 (QueueNode q) bs, ReadyQ \<mapsto> rs @ [QueueNode q],
         Children p := None, Children q := None))
    \<and> used_frames H s' = used_frames H s - valid_frames r1 - all_frames ks"
  using terminate_waited [OF assms, of status] by blast

text \<open>The same system, with process 1 waiting for its child.\<close>

definition waiting_pcb :: pcb where
  "waiting_pcb = blank_pcb\<lparr>pid := 1, state := PROCESS_BLOCKED, waiting_for_children := 1,
     user_context := set_reg 0 50 (user_context blank_pcb)\<rparr>"

definition wait_lists :: "(lref \<times> eref list) list" where
  "wait_lists = [(ReadyQ, [QueueNode 3]), (DelayQ, []), (BlockedQ, [QueueNode 1]), (ZombieQ, []),
     (Children 1, [ChildNode 2]), (Children 2, [ChildNode 3]), (Children 3, []), (Children 4, [])]"

definition wait_pcbs :: "(pcb_ptr \<times> pcb) list" where
  "wait_pcbs = [(1, waiting_pcb), (2, exiting_pcb),
     (3, blank_pcb\<lparr>pid := 3, state := PROCESS_READY, parent := Some 2\<rparr>), (4, blank_pcb)]"

definition wait_system :: kstate where
  "wait_system = (small_system family_nodes wait_lists wait_pcbs 2)
     \<lparr>page_tables := [10 \<mapsto> demo_table 8 [5, 6], 11 \<mapsto> demo_table 2 [7, 8]], kints := [50 \<mapsto> 0]\<rparr>"

lemma wait_system_ok: "pcb_ok wait_system (map_of wait_lists)" "family_ok (pcbs wait_system) (map_of wait_lists)"
proof -
  have "system_check family_nodes wait_lists wait_pcbs"
    by (simp add: system_check_def family_nodes_def wait_lists_def wait_pcbs_def exiting_pcb_def waiting_pcb_def
        blank_pcb_def idle_state_def)
  from system_check_ok [OF this] show "pcb_ok wait_system (map_of wait_lists)"
    "family_ok (pcbs wait_system) (map_of wait_lists)"
    by (simp_all add: pcb_ok_def wait_system_def)
qed

lemma exit_wakes_waiting_parent_witness:
  "\<exists>s'. terminate_process demo_hw (Some 2) 7 wait_system = Some s'
     \<and> map_option (\<lambda>y. (state y, regs (user_context y) 0)) (pcbs s' 1) = Some (PROCESS_READY, 2)
     \<and> kints s' 50 = Some 7 \<and> pcbs s' 2 = None"
proof -
  have p: "pcbs wait_system 2 = Some exiting_pcb" "current_process wait_system = Some 2"
    "idle_state (state exiting_pcb)" "parent exiting_pcb = Some 1"
    by (simp_all add: wait_system_def wait_pcbs_def exiting_pcb_def idle_state_def)
  have t: "frames_inv demo_hw wait_system"
    "tables_ok demo_hw wait_system exiting_pcb (demo_table 8 [5, 6]) (demo_table 2 [7, 8])"
    by (simp_all add: frames_inv_def wait_system_def tables_ok_def exiting_pcb_def demo_table_def)
  have z: "\<forall>a x. pcbs wait_system a = Some x \<and> parent x = Some 2 \<longrightarrow> state x \<noteq> PROCESS_ZOMBIE"
    by (simp add: wait_system_def wait_pcbs_def exiting_pcb_def waiting_pcb_def blank_pcb_def)
  have q: "pcbs wait_system 1 = Some waiting_pcb" "state waiting_pcb = PROCESS_BLOCKED"
    "waiting_for_children waiting_pcb \<noteq> 0" "map_of wait_lists BlockedQ = Some [QueueNode 1]"
    "QueueNode 1 \<in> set [QueueNode 1]" "map_of wait_lists ReadyQ = Some [QueueNode 3]"
    "parent waiting_pcb \<noteq> Some 2" "regs (user_context waiting_pcb) 0 = 50" "(50::u32) \<noteq> 0"
    "kints wait_system 50 \<noteq> None"
    by (simp_all add: wait_system_def wait_pcbs_def wait_lists_def waiting_pcb_def blank_pcb_def set_reg_def)
  have "pid exiting_pcb = 2" by (simp add: exiting_pcb_def)
  then show ?thesis
    using exit_wakes_waiting_parent [OF wait_system_ok p(2,1,3) t z p(4) q, of 7]
    by (auto simp: set_reg_def)
qed

end
