(* ===== verification/Loader.thy ===== *)
theory Loader
  imports Release
begin

text \<open>
  Loading a program: \<open>load_program.c\<close>.

  The file system and \<open>LoadInfo\<close> are not part of the repository. A file is its bytes and
  what \<open>LoadInfo\<close> finds in its header, \<open>None\<close> when it reports an error; page counts and file
  offsets are naturals. The arguments are read through a function of the state, at the two
  places where the code walks them, since for \<open>Exec\<close> they live in the user's memory.
\<close>

section \<open>Files\<close>

record load_info =
  entry :: u32
  t_faddr :: nat
  t_vaddr :: u32
  t_npg :: nat
  id_faddr :: nat
  id_vaddr :: u32
  id_npg :: nat
  ud_npg :: nat
  id_end :: u32
  ud_end :: u32

record exe =
  exe_info :: "load_info option"
  exe_bytes :: "u8 list"

text \<open>\<open>lseek\<close> followed by \<open>read\<close>: the number of bytes read.\<close>

definition file_read :: "hw \<Rightarrow> exe \<Rightarrow> nat \<Rightarrow> u32 \<Rightarrow> nat \<Rightarrow> 'a mem_scheme \<Rightarrow> (nat \<times> 'a mem_scheme) option" where
  "file_read H x off a n s = do {
     let bs = take n (drop off (exe_bytes x));
     s \<leftarrow> store_bytes H a bs s;
     Some (length bs, s) }"

section \<open>Layout\<close>

text \<open>The local variables computed before anything changes.\<close>

record layout =
  text_pg1 :: nat
  data_pg1 :: nat
  data_npg :: nat
  arg_size :: nat
  argcount :: nat
  arg_cp :: u32
  arg_cpp :: u32
  new_sp :: u32
  stack_npg :: nat

definition args_size :: "u8 list list \<Rightarrow> nat" where
  "args_size args = sum_list (map (\<lambda>a. length a + 1) args)"

definition load_layout :: "hw \<Rightarrow> load_info \<Rightarrow> u8 list list \<Rightarrow> layout" where
  "load_layout H li args =
     (let size = args_size args;
          cp = VMEM_1_LIMIT H - word_of_nat size;
          cpp = and (cp - word_of_nat ((length args + 3 + POST_ARGV_NULL_SPACE H) * 4)) (not 7);
          cp2 = cpp - INITIAL_STACK_FRAME_SIZE H
      in \<lparr>text_pg1 = unat (drop_bit (PAGESHIFT H) (t_vaddr li - VMEM_1_BASE H)),
          data_pg1 = unat (drop_bit (PAGESHIFT H) (id_vaddr li - VMEM_1_BASE H)),
          data_npg = id_npg li + ud_npg li,
          arg_size = size, argcount = length args, arg_cp = cp, arg_cpp = cpp, new_sp = cp2,
          stack_npg = unat (drop_bit (PAGESHIFT H) (VMEM_1_LIMIT H - DOWN_TO_PAGE H cp2))\<rparr>)"

section \<open>Page tables\<close>

text \<open>
  The three loops that give pages \<open>i, i + 1, ..\<close> (\<open>n\<close> of them) new frames; \<open>False\<close> when
  there are none left.
\<close>

fun map_new_pages :: "hw \<Rightarrow> pt_ptr option \<Rightarrow> nat \<Rightarrow> nat \<Rightarrow> 'a mem_scheme \<Rightarrow> (bool \<times> 'a mem_scheme) option" where
  "map_new_pages H t i 0 s = Some (True, s)"
| "map_new_pages H t i (Suc n) s = do {
     (nf, s) \<leftarrow> allocate_frame H s;
     if nf = ERROR H then Some (False, s)
     else do {
       p \<leftarrow> t;
       s \<leftarrow> pt_set (Table p) (int i)
             \<lparr>valid = True, prot = or (PROT_READ H) (PROT_WRITE H), pfn = word_of_int nf\<rparr> s;
       map_new_pages H t (Suc i) n s } }"

fun protect_text :: "hw \<Rightarrow> pt_ptr option \<Rightarrow> nat \<Rightarrow> nat \<Rightarrow> 'a mem_scheme \<Rightarrow> 'a mem_scheme option" where
  "protect_text H t i 0 s = Some s"
| "protect_text H t i (Suc n) s = do {
     p \<leftarrow> t;
     e \<leftarrow> pt_get (Table p) (int i) s;
     s \<leftarrow> pt_set (Table p) (int i) (e\<lparr>prot := or (PROT_READ H) (PROT_EXEC H)\<rparr>) s;
     protect_text H t (Suc i) n
       (WriteRegister (W_TLB_FLUSH (VMEM_1_BASE H + push_bit (PAGESHIFT H) (word_of_nat i))) s) }"

definition bzero :: "hw \<Rightarrow> u32 \<Rightarrow> u32 \<Rightarrow> 'a mem_scheme \<Rightarrow> 'a mem_scheme option" where
  "bzero H a n s = store_bytes H a (replicate (unat n) 0) s"

section \<open>The argument block\<close>

text \<open>The copy of the arguments in the kernel's buffer, each with its NUL.\<close>

definition flat_args :: "u8 list list \<Rightarrow> u8 list" where
  "flat_args args = concat (map (\<lambda>a. a @ [0]) args)"

text \<open>
  The loop that writes the \<open>argv\<close> pointers at \<open>cpp\<close> and the strings at \<open>cp\<close>, taking the
  strings from the bytes \<open>bs\<close> of the buffer; \<open>n\<close> is \<open>argcount - i\<close>. The result is \<open>cpp\<close>.
\<close>

fun push_args :: "hw \<Rightarrow> u32 \<Rightarrow> u32 \<Rightarrow> u8 list \<Rightarrow> nat \<Rightarrow> 'a mem_scheme \<Rightarrow> (u32 \<times> 'a mem_scheme) option" where
  "push_args H cpp cp bs 0 s = Some (cpp, s)"
| "push_args H cpp cp bs (Suc n) s = do {
     s \<leftarrow> store_int H cpp cp s;
     let a = takeWhile (\<lambda>b. b \<noteq> 0) bs;
     guard (length a < length bs);
     s \<leftarrow> store_bytes H cp (a @ [0]) s;
     push_args H (cpp + 4) (cp + word_of_nat (length a + 1)) (drop (length a + 1) bs) n s }"

definition build_stack :: "hw \<Rightarrow> layout \<Rightarrow> u8 list \<Rightarrow> 'a mem_scheme \<Rightarrow> 'a mem_scheme option" where
  "build_stack H lo argbuf s = do {
     let cpp = arg_cpp lo;
     s \<leftarrow> bzero H cpp (VMEM_1_LIMIT H - cpp) s;
     s \<leftarrow> store_int H cpp (word_of_nat (argcount lo)) s;
     (cpp, s) \<leftarrow> push_args H (cpp + 4) (arg_cp lo) argbuf (argcount lo) s;
     s \<leftarrow> store_int H cpp 0 s;
     store_int H (cpp + 4) 0 s }"

section \<open>LoadProgram\<close>

text \<open>From the release of the old address space to the end of the three mapping loops.\<close>

definition new_region1 ::
  "hw \<Rightarrow> layout \<Rightarrow> load_info \<Rightarrow> pcb_ptr \<Rightarrow> 'a kstate_scheme \<Rightarrow> (bool \<times> 'a kstate_scheme) option" where
  "new_region1 H lo li proc s = do {
     s \<leftarrow> free_userspace H (Some proc) s;
     c \<leftarrow> pcbs s proc;
     (done, s) \<leftarrow> map_new_pages H (region1_pt c) (text_pg1 lo) (t_npg li) s;
     if \<not> done then Some (False, s)
     else do {
       (done, s) \<leftarrow> map_new_pages H (region1_pt c) (data_pg1 lo) (data_npg lo) s;
       if \<not> done then Some (False, s)
       else do {
         s \<leftarrow> upd_pcb (Some proc)
               (\<lambda>c. c\<lparr>brk := push_bit (PAGESHIFT H) (word_of_nat (data_pg1 lo + data_npg lo))\<rparr>) s;
         map_new_pages H (region1_pt c) (MAX_PT_LEN H - stack_npg lo) (stack_npg lo) s } } }"

text \<open>From the first \<open>lseek\<close> to the end.\<close>

definition fill_region1 ::
  "hw \<Rightarrow> layout \<Rightarrow> load_info \<Rightarrow> exe \<Rightarrow> buf_ptr \<Rightarrow> pcb_ptr \<Rightarrow> 'a kstate_scheme \<Rightarrow> (int \<times> 'a kstate_scheme) option" where
  "fill_region1 H lo li x b proc s = do {
     (k, s) \<leftarrow> file_read H x (t_faddr li) (t_vaddr li) (t_npg li * 2 ^ PAGESHIFT H) s;
     if k \<noteq> t_npg li * 2 ^ PAGESHIFT H then Some (KILL H, s)
     else do {
       (k, s) \<leftarrow> file_read H x (id_faddr li) (id_vaddr li) (id_npg li * 2 ^ PAGESHIFT H) s;
       if k \<noteq> id_npg li * 2 ^ PAGESHIFT H then Some (KILL H, s)
       else do {
         c \<leftarrow> pcbs s proc;
         s \<leftarrow> protect_text H (region1_pt c) (text_pg1 lo) (t_npg li) s;
         s \<leftarrow> bzero H (id_end li) (ud_end li - id_end li) s;
         s \<leftarrow> bzero H (id_end li) (ud_end li - id_end li) s;
         s \<leftarrow> upd_pcb (Some proc) (\<lambda>c. c\<lparr>user_context := (user_context c)\<lparr>uc_pc := entry li\<rparr>\<rparr>) s;
         argbuf \<leftarrow> kbufs s b;
         s \<leftarrow> build_stack H lo argbuf s;
         Some (SUCCESS H, s\<lparr>kbufs := (kbufs s)(b := None)\<rparr>) } } }"

text \<open>
  \<open>file\<close> is what \<open>open(name)\<close> finds, \<open>rd\<close> reads the arguments, \<open>m\<close> is what \<open>malloc\<close>
  returns for the argument buffer.
\<close>

definition LoadProgram ::
  "hw \<Rightarrow> exe option \<Rightarrow> ('a kstate_scheme \<Rightarrow> u8 list list option) \<Rightarrow> buf_ptr option \<Rightarrow> pcb_ptr \<Rightarrow>
   'a kstate_scheme \<Rightarrow> (int \<times> 'a kstate_scheme) option" where
  "LoadProgram H file rd m proc s =
     (case file of None \<Rightarrow> Some (ERROR H, s)
      | Some x \<Rightarrow>
     (case exe_info x of None \<Rightarrow> Some (ERROR H, s)
      | Some li \<Rightarrow>
        if entry li < VMEM_1_BASE H then Some (ERROR H, s)
        else do {
          args \<leftarrow> rd s;
          let lo = load_layout H li args;
          if stack_npg lo + data_pg1 lo + data_npg lo \<ge> MAX_PT_LEN H then Some (ERROR H, s)
          else do {
            s \<leftarrow> upd_pcb (Some proc) (\<lambda>c. c\<lparr>user_context := (user_context c)\<lparr>uc_sp := new_sp lo\<rparr>\<rparr>) s;
            case m of None \<Rightarrow> Some (ERROR H, s)
            | Some b \<Rightarrow> do {
                args \<leftarrow> rd s;
                s \<leftarrow> Some (s\<lparr>kbufs := (kbufs s)(b \<mapsto> flat_args args)\<rparr>);
                (done, s) \<leftarrow> new_region1 H lo li proc s;
                if \<not> done then Some (ERROR H, s)
                else fill_region1 H lo li x b proc (WriteRegister W_TLB_FLUSH_1 s) } } }))"

section \<open>Strings in user memory\<close>

text \<open>Reading a C string and a NULL-terminated vector of C strings.\<close>

partial_function (option) load_string :: "hw \<Rightarrow> u32 \<Rightarrow> 'a mem_scheme \<Rightarrow> u8 list option" where
  "load_string H a s = do {
     b \<leftarrow> load8 H a s;
     if b = 0 then Some []
     else do { bs \<leftarrow> load_string H (a + 1) s; Some (b # bs) } }"

partial_function (option) load_argv :: "hw \<Rightarrow> u32 \<Rightarrow> 'a mem_scheme \<Rightarrow> u8 list list option" where
  "load_argv H v s = do {
     p \<leftarrow> load_int H v s;
     if p = 0 then Some []
     else do {
       a \<leftarrow> load_string H p s;
       as \<leftarrow> load_argv H (v + 4) s;
       Some (a # as) } }"

end
