(* ===== verification/Sync_Ids.thy ===== *)
theory Sync_Ids
  imports Process
begin

text \<open>
  The table of synchronisation objects of \<open>sync.c\<close>: their identifiers, their creation,
  lookup and reclamation.

  A \<open>sync_obj_t\<close> holds a union of three pointers; the model remembers which member was
  written, and reading another one is undefined. The three kinds of object live at
  addresses of three maps, their waiting lists in the list heap of the kernel.
\<close>

section \<open>Data\<close>

definition MAX_SYNCS :: nat where
  "MAX_SYNCS = 128"

definition PCB_BLOCKED :: int where
  "PCB_BLOCKED = 30"

record pipe =
  buffer :: "u8 list"
  read_pos :: int
  write_pos :: int
  bytes_in_buffer :: int
  open_for_read :: bool
  open_for_write :: bool

record lock =
  locked :: bool
  owner :: "pcb_ptr option"

text \<open>An \<open>enum\<close> variable may hold a value that is none of its enumerators.\<close>

datatype sync_type_t = PIPE | LOCK | CVAR | Other_Type int

datatype sync_union =
    U_Unset
  | U_Pipe "obj_ptr option"
  | U_Lock "obj_ptr option"
  | U_Cvar "obj_ptr option"

record sync_obj =
  sync_type :: sync_type_t
  sync_id :: int
  object :: sync_union

record sstate = kstate +
  sync_table :: "obj_ptr option list"
  global_sync_counter :: int
  id_used :: "int list"
  sync_objs :: "obj_ptr \<rightharpoonup> sync_obj"
  pipes :: "obj_ptr \<rightharpoonup> pipe"
  locks :: "obj_ptr \<rightharpoonup> lock"
  cvars :: "obj_ptr \<rightharpoonup> unit"

text \<open>Reading a member of the union.\<close>

fun as_pipe :: "sync_union \<Rightarrow> obj_ptr option" where
  "as_pipe (U_Pipe p) = p"
| "as_pipe _ = None"

fun as_lock :: "sync_union \<Rightarrow> obj_ptr option" where
  "as_lock (U_Lock l) = l"
| "as_lock _ = None"

fun as_cvar :: "sync_union \<Rightarrow> obj_ptr option" where
  "as_cvar (U_Cvar c) = c"
| "as_cvar _ = None"

definition upd_sync ::
  "obj_ptr \<Rightarrow> (sync_obj \<Rightarrow> sync_obj) \<Rightarrow> 'a sstate_scheme \<Rightarrow> 'a sstate_scheme option" where
  "upd_sync n f s = do { x \<leftarrow> sync_objs s n; Some (s\<lparr>sync_objs := (sync_objs s)(n \<mapsto> f x)\<rparr>) }"

definition free_sync :: "obj_ptr \<Rightarrow> 'a sstate_scheme \<Rightarrow> 'a sstate_scheme option" where
  "free_sync n s = do { _ \<leftarrow> sync_objs s n; Some (s\<lparr>sync_objs := (sync_objs s)(n := None)\<rparr>) }"

section \<open>Identifiers\<close>

function new_id_loop :: "hw \<Rightarrow> nat \<Rightarrow> 'a sstate_scheme \<Rightarrow> (int \<times> 'a sstate_scheme) option" where
  "new_id_loop H i s =
     (if i < MAX_SYNCS then do {
        u \<leftarrow> arr_get (id_used s) (int i);
        if u = 0 then do {
          iu \<leftarrow> arr_set (id_used s) (int i) 1;
          Some (int i, s\<lparr>id_used := iu, global_sync_counter := global_sync_counter s + 1\<rparr>) }
        else new_id_loop H (Suc i) s }
      else Some (ERROR H, s))"
  by pat_completeness auto
termination
  by (relation "measure (\<lambda>(H, i, s). MAX_SYNCS - i)") auto

declare new_id_loop.simps [simp del]

definition GetNewID :: "hw \<Rightarrow> 'a sstate_scheme \<Rightarrow> (int \<times> 'a sstate_scheme) option" where
  "GetNewID H s = new_id_loop H 0 s"

definition FreeID :: "int \<Rightarrow> 'a sstate_scheme \<Rightarrow> 'a sstate_scheme option" where
  "FreeID i s =
     (if i \<ge> 0 \<and> i < int MAX_SYNCS then do {
        u \<leftarrow> arr_get (id_used s) i;
        if u = 1 then do {
          iu \<leftarrow> arr_set (id_used s) i 0;
          Some (s\<lparr>id_used := iu, global_sync_counter := global_sync_counter s - 1\<rparr>) }
        else Some s }
      else Some s)"

section \<open>Objects\<close>

text \<open>\<open>m\<close> is the result of \<open>malloc\<close>, \<open>j\<close> the bytes it found there.\<close>

definition InitSyncObject ::
  "hw \<Rightarrow> obj_ptr option \<Rightarrow> sync_obj \<Rightarrow> sync_type_t \<Rightarrow> obj_ptr option
     \<Rightarrow> 'a sstate_scheme \<Rightarrow> (int \<times> 'a sstate_scheme) option" where
  "InitSyncObject H m j type obj s =
     (case m of None \<Rightarrow> Some (ERROR H, s)
      | Some n \<Rightarrow> do {
          s \<leftarrow> Some (s\<lparr>sync_objs := (sync_objs s)(n \<mapsto> j)\<rparr>);
          s \<leftarrow> upd_sync n (\<lambda>x. x\<lparr>sync_type := type\<rparr>) s;
          (i, s) \<leftarrow> GetNewID H s;
          s \<leftarrow> (if i < 0 then free_sync n s else Some s);
          s \<leftarrow> upd_sync n (\<lambda>x. x\<lparr>sync_id := i\<rparr>) s;
          (ok, s) \<leftarrow> (case type of
               PIPE \<Rightarrow> map_option (Pair True) (upd_sync n (\<lambda>x. x\<lparr>object := U_Pipe obj\<rparr>) s)
             | LOCK \<Rightarrow> map_option (Pair True) (upd_sync n (\<lambda>x. x\<lparr>object := U_Lock obj\<rparr>) s)
             | CVAR \<Rightarrow> map_option (Pair True) (upd_sync n (\<lambda>x. x\<lparr>object := U_Cvar obj\<rparr>) s)
             | Other_Type _ \<Rightarrow> do {
                 s \<leftarrow> free_sync n s;
                 s \<leftarrow> FreeID i s;
                 Some (False, s) });
          if \<not> ok then Some (ERROR H, s)
          else do {
            t \<leftarrow> arr_set (sync_table s) i (Some n);
            Some (i, s\<lparr>sync_table := t\<rparr>) } })"

text \<open>The second component is what \<open>*out_sync\<close> receives, when it is written.\<close>

definition GetCheckSync ::
  "hw \<Rightarrow> int \<Rightarrow> sync_type_t \<Rightarrow> 'a sstate_scheme \<Rightarrow> (int \<times> obj_ptr option) option" where
  "GetCheckSync H i expected s =
     (if i < 0 \<or> i \<ge> int MAX_SYNCS then Some (ERROR H, None)
      else do {
        e \<leftarrow> arr_get (sync_table s) i;
        (case e of None \<Rightarrow> Some (ERROR H, None)
         | Some n \<Rightarrow> do {
             x \<leftarrow> sync_objs s n;
             Some (SUCCESS H, Some n) }) })"

text \<open>The member of the object of \<open>*out_sync\<close> the callers go on with.\<close>

definition sync_object :: "obj_ptr option \<Rightarrow> 'a sstate_scheme \<Rightarrow> sync_union option" where
  "sync_object n s = do { n \<leftarrow> n; x \<leftarrow> sync_objs s n; Some (object x) }"

section \<open>Reclaiming\<close>

definition clear_waiters ::
  "hw \<Rightarrow> lref \<Rightarrow> 'a sstate_scheme \<Rightarrow> 'a sstate_scheme option" where
  "clear_waiters H l s = do { (_, h) \<leftarrow> clear_list H (Some l) (lists s); Some (s\<lparr>lists := h\<rparr>) }"

text \<open>\<open>free(pipe)\<close> and the like: the embedded lists go with the structure.\<close>

definition free_pipe :: "obj_ptr \<Rightarrow> 'a sstate_scheme \<Rightarrow> 'a sstate_scheme option" where
  "free_pipe p s = do {
     _ \<leftarrow> pipes s p;
     Some (s\<lparr>pipes := (pipes s)(p := None),
       lists := free_list (PipeReaders p) (free_list (PipeWriters p) (lists s))\<rparr>) }"

definition free_lock :: "obj_ptr \<Rightarrow> 'a sstate_scheme \<Rightarrow> 'a sstate_scheme option" where
  "free_lock l s = do {
     _ \<leftarrow> locks s l;
     Some (s\<lparr>locks := (locks s)(l := None), lists := free_list (LockWaiters l) (lists s)\<rparr>) }"

definition free_cvar :: "obj_ptr \<Rightarrow> 'a sstate_scheme \<Rightarrow> 'a sstate_scheme option" where
  "free_cvar c s = do {
     _ \<leftarrow> cvars s c;
     Some (s\<lparr>cvars := (cvars s)(c := None), lists := free_list (CvarWaiters c) (lists s)\<rparr>) }"

definition SyncReclaim :: "hw \<Rightarrow> int \<Rightarrow> 'a sstate_scheme \<Rightarrow> (int \<times> 'a sstate_scheme) option" where
  "SyncReclaim H i s =
     (if i < 0 \<or> i \<ge> int MAX_SYNCS then Some (ERROR H, s)
      else do {
        e \<leftarrow> arr_get (sync_table s) i;
        (case e of None \<Rightarrow> Some (ERROR H, s)
         | Some n \<Rightarrow> do {
             x \<leftarrow> sync_objs s n;
             (ok, s) \<leftarrow> (case sync_type x of
                  PIPE \<Rightarrow> do {
                    p \<leftarrow> as_pipe (object x);
                    s \<leftarrow> clear_waiters H (PipeReaders p) s;
                    s \<leftarrow> clear_waiters H (PipeWriters p) s;
                    s \<leftarrow> free_pipe p s;
                    Some (True, s) }
                | LOCK \<Rightarrow> do {
                    l \<leftarrow> as_lock (object x);
                    s \<leftarrow> clear_waiters H (LockWaiters l) s;
                    s \<leftarrow> free_lock l s;
                    Some (True, s) }
                | CVAR \<Rightarrow> do {
                    c \<leftarrow> as_cvar (object x);
                    s \<leftarrow> clear_waiters H (CvarWaiters c) s;
                    s \<leftarrow> free_cvar c s;
                    Some (True, s) }
                | Other_Type _ \<Rightarrow> Some (False, s));
             if \<not> ok then Some (ERROR H, s)
             else do {
               s \<leftarrow> FreeID i s;
               t \<leftarrow> arr_set (sync_table s) i None;
               s \<leftarrow> free_sync n (s\<lparr>sync_table := t\<rparr>);
               Some (SUCCESS H, s) } }) })"


section \<open>The table invariant\<close>

definition ones :: "int list \<Rightarrow> nat" where
  "ones xs = length (filter (\<lambda>u. u = 1) xs)"

lemma ones_split: "i < length xs \<Longrightarrow> ones xs = ones (take i xs) + (if xs ! i = 1 then 1 else 0) + ones (drop (Suc i) xs)"
  using arg_cong [OF id_take_nth_drop [of i xs], of ones] by (simp add: ones_def)

lemma ones_update: "i < length xs \<Longrightarrow> ones (xs[i := v]) + (if xs ! i = 1 then 1 else 0) = ones xs + (if v = 1 then 1 else 0)"
  using ones_split [of i xs] by (simp add: upd_conv_take_nth_drop ones_def)

lemma ones_le: "ones xs \<le> length xs"
  by (simp add: ones_def)

lemma ones_full: "set xs \<subseteq> {0, 1} \<Longrightarrow> ones xs = length xs \<longleftrightarrow> (\<forall>i < length xs. xs ! i \<noteq> 0)"
proof -
  assume "set xs \<subseteq> {0, 1}"
  then have "ones xs = length xs \<longleftrightarrow> (\<forall>u \<in> set xs. u \<noteq> 0)"
    unfolding ones_def by (induction xs) (auto simp: le_imp_less_Suc less_imp_neq [OF le_imp_less_Suc [OF length_filter_le]])
  then show ?thesis by (simp add: all_set_conv_all_nth)
qed

definition ids_ok :: "'a sstate_scheme \<Rightarrow> bool" where
  "ids_ok s \<longleftrightarrow> length (id_used s) = MAX_SYNCS \<and> set (id_used s) \<subseteq> {0, 1}
     \<and> global_sync_counter s = int (ones (id_used s))"

text \<open>An entry of the table is used exactly when its identifier is, and knows it.\<close>

definition sync_ok :: "'a sstate_scheme \<Rightarrow> bool" where
  "sync_ok s \<longleftrightarrow> ids_ok s \<and> length (sync_table s) = MAX_SYNCS
     \<and> (\<forall>i < MAX_SYNCS. (sync_table s ! i \<noteq> None) = (id_used s ! i = 1))
     \<and> (\<forall>i < MAX_SYNCS. \<forall>n. sync_table s ! i = Some n \<longrightarrow>
          (\<exists>x. sync_objs s n = Some x \<and> sync_id x = int i))"

lemma sync_okD:
  assumes "sync_ok s"
  shows "ids_ok s" "length (sync_table s) = MAX_SYNCS" "length (id_used s) = MAX_SYNCS"
    "i < MAX_SYNCS \<Longrightarrow> sync_table s ! i = None \<longleftrightarrow> id_used s ! i = 0"
    "i < MAX_SYNCS \<Longrightarrow> sync_table s ! i = Some n \<Longrightarrow> \<exists>x. sync_objs s n = Some x \<and> sync_id x = int i"
proof -
  show "ids_ok s" "length (sync_table s) = MAX_SYNCS" "length (id_used s) = MAX_SYNCS"
    using assms by (auto simp: sync_ok_def ids_ok_def)
  show "i < MAX_SYNCS \<Longrightarrow> sync_table s ! i = Some n \<Longrightarrow> \<exists>x. sync_objs s n = Some x \<and> sync_id x = int i"
    using assms by (auto simp: sync_ok_def)
  assume i: "i < MAX_SYNCS"
  have "id_used s ! i \<in> set (id_used s)" using assms i by (auto simp: sync_ok_def ids_ok_def)
  then have "id_used s ! i = 0 \<or> id_used s ! i = 1" using assms by (auto simp: sync_ok_def ids_ok_def)
  moreover have "(sync_table s ! i \<noteq> None) = (id_used s ! i = 1)" using assms i by (simp add: sync_ok_def)
  ultimately show "sync_table s ! i = None \<longleftrightarrow> id_used s ! i = 0" by auto
qed

lemma new_id_scan:
  assumes "length (id_used s) = MAX_SYNCS" "i \<le> n" "n < MAX_SYNCS" "id_used s ! n = 0"
    "\<forall>m. i \<le> m \<and> m < n \<longrightarrow> id_used s ! m \<noteq> 0"
  shows "new_id_loop H i s
    = Some (int n, s\<lparr>id_used := (id_used s)[n := 1], global_sync_counter := global_sync_counter s + 1\<rparr>)"
  using assms(2-)
proof (induction "n - i" arbitrary: i)
  case 0
  then show ?case using assms(1) by (simp add: new_id_loop.simps [of H i])
next
  case (Suc k)
  then have "i < n" "id_used s ! i \<noteq> 0" by auto
  then show ?case using Suc assms(1) by (simp add: new_id_loop.simps [of H i])
qed

text \<open>\<open>GetNewID\<close> hands out the least free identifier while there is one.\<close>

lemma GetNewID_free:
  assumes "ids_ok s" "global_sync_counter s < int MAX_SYNCS"
  shows "\<exists>i. i < MAX_SYNCS \<and> id_used s ! i = 0 \<and> (\<forall>m < i. id_used s ! m \<noteq> 0)
    \<and> GetNewID H s
      = Some (int i, s\<lparr>id_used := (id_used s)[i := 1], global_sync_counter := global_sync_counter s + 1\<rparr>)"
proof -
  have l: "length (id_used s) = MAX_SYNCS" using assms(1) by (simp add: ids_ok_def)
  have "ones (id_used s) \<noteq> length (id_used s)" using assms by (simp add: ids_ok_def)
  then have ex: "\<exists>i. i < MAX_SYNCS \<and> id_used s ! i = 0"
    using ones_full [of "id_used s"] assms(1) l by (auto simp: ids_ok_def)
  define i where "i = (LEAST i. i < MAX_SYNCS \<and> id_used s ! i = 0)"
  have i: "i < MAX_SYNCS \<and> id_used s ! i = 0" unfolding i_def by (rule LeastI_ex [OF ex])
  have least: "\<forall>m < i. id_used s ! m \<noteq> 0"
  proof (intro allI impI)
    fix m assume "m < i"
    then have "\<not> (m < MAX_SYNCS \<and> id_used s ! m = 0)" unfolding i_def by (rule not_less_Least)
    then show "id_used s ! m \<noteq> 0" using \<open>m < i\<close> i by auto
  qed
  have "GetNewID H s
      = Some (int i, s\<lparr>id_used := (id_used s)[i := 1], global_sync_counter := global_sync_counter s + 1\<rparr>)"
    unfolding GetNewID_def by (rule new_id_scan) (use l i least in auto)
  with i least show ?thesis by blast
qed

lemma GetNewID_full:
  assumes "length (id_used s) = MAX_SYNCS" "\<forall>m < MAX_SYNCS. id_used s ! m \<noteq> 0"
  shows "GetNewID H s = Some (ERROR H, s)"
proof -
  have "new_id_loop H i s = Some (ERROR H, s)" if "i \<le> MAX_SYNCS" for i
    using that
  proof (induction "MAX_SYNCS - i" arbitrary: i)
    case 0
    then show ?case by (simp add: new_id_loop.simps [of H MAX_SYNCS])
  next
    case (Suc k)
    then show ?case using assms by (simp add: new_id_loop.simps [of H i])
  qed
  then show ?thesis by (simp add: GetNewID_def)
qed

section \<open>Creation and reclamation\<close>

fun make_object :: "sync_type_t \<Rightarrow> obj_ptr option \<Rightarrow> sync_union" where
  "make_object PIPE p = U_Pipe p"
| "make_object LOCK p = U_Lock p"
| "make_object CVAR p = U_Cvar p"
| "make_object (Other_Type _) p = U_Unset"

lemma ids_ok_take:
  assumes "ids_ok s" "i < MAX_SYNCS" "id_used s ! i = 0"
  shows "ids_ok (s\<lparr>id_used := (id_used s)[i := 1], global_sync_counter := global_sync_counter s + 1\<rparr>)"
  using assms ones_update [of i "id_used s" 1] set_update_subset_insert [of "id_used s" i 1]
  by (auto simp: ids_ok_def)

lemma InitSyncObject_ok:
  assumes ok: "sync_ok s" and room: "global_sync_counter s < int MAX_SYNCS" and n: "sync_objs s n = None"
    and ty: "type \<in> {PIPE, LOCK, CVAR}"
  shows "\<exists>i. i < MAX_SYNCS \<and> sync_table s ! i = None \<and> id_used s ! i = 0 \<and> (\<forall>m < i. sync_table s ! m \<noteq> None)
    \<and> (let s' = s\<lparr>sync_objs := (sync_objs s)(n \<mapsto> j\<lparr>sync_type := type, sync_id := int i, object := make_object type obj\<rparr>),
           id_used := (id_used s)[i := 1], global_sync_counter := global_sync_counter s + 1,
           sync_table := (sync_table s)[i := Some n]\<rparr>
       in InitSyncObject H (Some n) j type obj s = Some (int i, s') \<and> sync_ok s')"
proof -
  let ?s1 = "s\<lparr>sync_objs := (sync_objs s)(n \<mapsto> j\<lparr>sync_type := type\<rparr>)\<rparr>"
  have "ids_ok ?s1" "global_sync_counter ?s1 < int MAX_SYNCS"
    using sync_okD(1) [OF ok] room by (simp_all add: ids_ok_def)
  then obtain i where i: "i < MAX_SYNCS" "id_used ?s1 ! i = 0" and least: "\<forall>m < i. id_used ?s1 ! m \<noteq> 0"
    and new: "GetNewID H ?s1 = Some (int i, ?s1\<lparr>id_used := (id_used ?s1)[i := 1],
       global_sync_counter := global_sync_counter ?s1 + 1\<rparr>)"
    using GetNewID_free [of ?s1 H] by blast
  define s' where "s' = s\<lparr>sync_objs := (sync_objs s)(n \<mapsto> j\<lparr>sync_type := type, sync_id := int i, object := make_object type obj\<rparr>),
           id_used := (id_used s)[i := 1], global_sync_counter := global_sync_counter s + 1,
           sync_table := (sync_table s)[i := Some n]\<rparr>"
  have u: "id_used s ! i = 0" using i(2) by simp
  have tn: "sync_table s ! i = None" using sync_okD(4) [OF ok i(1)] u by simp
  have len: "length (sync_table s) = MAX_SYNCS" using sync_okD(2) [OF ok] .
  have "InitSyncObject H (Some n) j type obj s = Some (int i, s')"
    using ty i(1) new len by (auto simp: InitSyncObject_def upd_sync_def s'_def)
  moreover have "sync_ok s'"
    unfolding sync_ok_def
  proof (intro conjI allI impI)
    show "ids_ok s'" using ids_ok_take [OF sync_okD(1) [OF ok] i(1) u] by (simp add: s'_def ids_ok_def)
    show "length (sync_table s') = MAX_SYNCS" using len by (simp add: s'_def)
    fix k assume k: "k < MAX_SYNCS"
    show "(sync_table s' ! k \<noteq> None) = (id_used s' ! k = 1)"
      using ok k len sync_okD(3) [OF ok] by (cases "k = i") (auto simp: s'_def sync_ok_def)
    fix m assume m: "sync_table s' ! k = Some m"
    show "\<exists>x. sync_objs s' m = Some x \<and> sync_id x = int k"
    proof (cases "k = i")
      case True
      then show ?thesis using m k len by (simp add: s'_def)
    next
      case False
      then have "sync_table s ! k = Some m" using m len k by (simp add: s'_def nth_list_update)
      then show ?thesis using sync_okD(5) [OF ok k] n by (auto simp: s'_def)
    qed
  qed
  moreover have "\<forall>m < i. sync_table s ! m \<noteq> None" using least sync_okD(4) [OF ok] i(1) by simp
  ultimately show ?thesis using i(1) tn u unfolding s'_def Let_def by blast
qed

lemma GetCheckSync_ok:
  assumes "sync_ok s" "i < MAX_SYNCS"
  shows "GetCheckSync H (int i) type s
    = Some (case sync_table s ! i of None \<Rightarrow> (ERROR H, None) | Some n \<Rightarrow> (SUCCESS H, Some n))"
  using sync_okD(2) [OF assms(1)] sync_okD(5) [OF assms] assms(2)
  by (auto simp: GetCheckSync_def split: option.splits)

lemma GetCheckSync_range: "i < 0 \<or> i \<ge> int MAX_SYNCS \<Longrightarrow> GetCheckSync H i type s = Some (ERROR H, None)"
  by (auto simp: GetCheckSync_def)


text \<open>The object of a table entry: it has its type's member, alive, with its waiting lists.\<close>

definition object_ok :: "'a sstate_scheme \<Rightarrow> ghost \<Rightarrow> sync_obj \<Rightarrow> bool" where
  "object_ok s Q x \<longleftrightarrow> (case sync_type x of
       PIPE \<Rightarrow> (\<exists>p. object x = U_Pipe (Some p) \<and> p \<in> dom (pipes s)
                  \<and> PipeReaders p \<in> dom Q \<and> PipeWriters p \<in> dom Q)
     | LOCK \<Rightarrow> (\<exists>l. object x = U_Lock (Some l) \<and> l \<in> dom (locks s) \<and> LockWaiters l \<in> dom Q)
     | CVAR \<Rightarrow> (\<exists>c. object x = U_Cvar (Some c) \<and> c \<in> dom (cvars s) \<and> CvarWaiters c \<in> dom Q)
     | Other_Type _ \<Rightarrow> False)"

fun waiter_lists :: "sync_union \<Rightarrow> lref set" where
  "waiter_lists (U_Pipe (Some p)) = {PipeReaders p, PipeWriters p}"
| "waiter_lists (U_Lock (Some l)) = {LockWaiters l}"
| "waiter_lists (U_Cvar (Some c)) = {CvarWaiters c}"
| "waiter_lists _ = {}"

lemma FreeID_run:
  assumes "ids_ok s" "i < MAX_SYNCS" "id_used s ! i = 1"
  shows "FreeID (int i) s = Some (s\<lparr>id_used := (id_used s)[i := 0], global_sync_counter := global_sync_counter s - 1\<rparr>)"
    "ids_ok (s\<lparr>id_used := (id_used s)[i := 0], global_sync_counter := global_sync_counter s - 1\<rparr>)"
  using assms ones_update [of i "id_used s" 0] set_update_subset_insert [of "id_used s" i 0]
  by (auto simp: FreeID_def ids_ok_def)

text \<open>The end of \<open>SyncReclaim\<close>, after the object itself was released.\<close>

lemma reclaim_tail:
  assumes ok: "sync_ok s" and i: "i < MAX_SYNCS" "sync_table s ! i = Some n"
  shows "\<exists>s'. (do {
      s \<leftarrow> FreeID (int i) s;
      t \<leftarrow> arr_set (sync_table s) (int i) None;
      s \<leftarrow> free_sync n (s\<lparr>sync_table := t\<rparr>);
      Some (SUCCESS H, s) }) = Some (SUCCESS H, s')
    \<and> s' = s\<lparr>id_used := (id_used s)[i := 0], global_sync_counter := global_sync_counter s - 1,
         sync_table := (sync_table s)[i := None], sync_objs := (sync_objs s)(n := None)\<rparr>
    \<and> sync_ok s'"
proof -
  have len: "length (sync_table s) = MAX_SYNCS" "length (id_used s) = MAX_SYNCS"
    using sync_okD(2,3) [OF ok] by blast+
  have u: "id_used s ! i = 1" using ok i unfolding sync_ok_def by (metis option.distinct(1))
  obtain x where x: "sync_objs s n = Some x" "sync_id x = int i" using sync_okD(5) [OF ok i] by blast
  define s' where "s' = s\<lparr>id_used := (id_used s)[i := 0], global_sync_counter := global_sync_counter s - 1,
         sync_table := (sync_table s)[i := None], sync_objs := (sync_objs s)(n := None)\<rparr>"
  have "sync_ok s'"
    unfolding sync_ok_def
  proof (intro conjI allI impI)
    show "ids_ok s'" using FreeID_run(2) [OF sync_okD(1) [OF ok] i(1) u] by (simp add: s'_def ids_ok_def)
    show "length (sync_table s') = MAX_SYNCS" using len by (simp add: s'_def)
    fix k assume k: "k < MAX_SYNCS"
    show "(sync_table s' ! k \<noteq> None) = (id_used s' ! k = 1)"
      using ok k len by (cases "k = i") (auto simp: s'_def sync_ok_def)
    fix m assume m: "sync_table s' ! k = Some m"
    then have ki: "k \<noteq> i" "sync_table s ! k = Some m" using k len by (cases "k = i"; simp add: s'_def)+
    then obtain y where "sync_objs s m = Some y" "sync_id y = int k" using sync_okD(5) [OF ok k] by blast
    then show "\<exists>x. sync_objs s' m = Some x \<and> sync_id x = int k" using x ki(1) by (auto simp: s'_def)
  qed
  then show ?thesis
    using FreeID_run(1) [OF sync_okD(1) [OF ok] i(1) u] len i(1) x
    by (intro exI [of _ s']) (simp add: free_sync_def s'_def)
qed

lemma clear_waiters_ok:
  assumes "lists_ok (lists s) Q" "Q l = Some xs"
  shows "\<exists>h'. clear_waiters H l s = Some (s\<lparr>lists := h'\<rparr>) \<and> lists_ok h' (Q(l \<mapsto> []))
    \<and> (\<forall>e. has_elem h' e = has_elem (lists s) e) \<and> (\<forall>e \<in> set xs. unlinked h' e) \<and> same_nodes l (set xs) (lists s) h'"
proof -
  obtain h' where h': "clear_list H (Some l) (lists s) = Some (0, h')" "lists_ok h' (Q(l \<mapsto> []))"
    "\<forall>e. has_elem h' e = has_elem (lists s) e" "\<forall>e \<in> set xs. unlinked h' e" "same_nodes l (set xs) (lists s) h'"
    using clear_list_ok [OF assms, of H] by blast
  show ?thesis by (rule exI [of _ h']) (simp add: clear_waiters_def h')
qed

text \<open>
  What the release leaves behind: the memory of the lists is gone, whoever was in one of them is
  linked nowhere, and of the three kinds of structures only the object's own is freed.
\<close>

definition lists_released :: "ghost \<Rightarrow> lref set \<Rightarrow> (lref, eref) lheap \<Rightarrow> bool" where
  "lists_released Q L h' \<longleftrightarrow> (\<forall>l \<in> L. list_gone h' l \<and> (\<forall>xs. Q l = Some xs \<longrightarrow> (\<forall>e \<in> set xs. unlinked h' e)))"

fun structure_freed :: "sync_union \<Rightarrow> 'a sstate_scheme \<Rightarrow> 'a sstate_scheme \<Rightarrow> bool" where
  "structure_freed (U_Pipe (Some p)) s s' \<longleftrightarrow> pipes s' = (pipes s)(p := None) \<and> locks s' = locks s \<and> cvars s' = cvars s"
| "structure_freed (U_Lock (Some l)) s s' \<longleftrightarrow> pipes s' = pipes s \<and> locks s' = (locks s)(l := None) \<and> cvars s' = cvars s"
| "structure_freed (U_Cvar (Some c)) s s' \<longleftrightarrow> pipes s' = pipes s \<and> locks s' = locks s \<and> cvars s' = (cvars s)(c := None)"
| "structure_freed _ s s' \<longleftrightarrow> False"

text \<open>The release of the object: only its own structure and its lists are touched.\<close>

lemma release_object:
  assumes lo: "lists_ok (lists s) Q" and x: "object_ok s Q x"
  shows "\<exists>s1. (case sync_type x of
                  PIPE \<Rightarrow> do {
                    p \<leftarrow> as_pipe (object x);
                    s \<leftarrow> clear_waiters H (PipeReaders p) s;
                    s \<leftarrow> clear_waiters H (PipeWriters p) s;
                    s \<leftarrow> free_pipe p s;
                    Some (True, s) }
                | LOCK \<Rightarrow> do {
                    l \<leftarrow> as_lock (object x);
                    s \<leftarrow> clear_waiters H (LockWaiters l) s;
                    s \<leftarrow> free_lock l s;
                    Some (True, s) }
                | CVAR \<Rightarrow> do {
                    c \<leftarrow> as_cvar (object x);
                    s \<leftarrow> clear_waiters H (CvarWaiters c) s;
                    s \<leftarrow> free_cvar c s;
                    Some (True, s) }
                | Other_Type _ \<Rightarrow> Some (False, s)) = Some (True, s1)
    \<and> lists_ok (lists s1) (Q |` (- waiter_lists (object x)))
    \<and> (\<forall>e. has_elem (lists s1) e = has_elem (lists s) e) \<and> pcbs s1 = pcbs s
    \<and> id_used s1 = id_used s \<and> global_sync_counter s1 = global_sync_counter s
    \<and> sync_table s1 = sync_table s \<and> sync_objs s1 = sync_objs s
    \<and> lists_released Q (waiter_lists (object x)) (lists s1) \<and> structure_freed (object x) s s1"
proof -
  consider (pipe) p where "sync_type x = PIPE" "object x = U_Pipe (Some p)" "p \<in> dom (pipes s)"
      "PipeReaders p \<in> dom Q" "PipeWriters p \<in> dom Q"
    | (lock) l where "sync_type x = LOCK" "object x = U_Lock (Some l)" "l \<in> dom (locks s)" "LockWaiters l \<in> dom Q"
    | (cvar) c where "sync_type x = CVAR" "object x = U_Cvar (Some c)" "c \<in> dom (cvars s)" "CvarWaiters c \<in> dom Q"
    using x by (auto simp: object_ok_def split: sync_type_t.splits)
  then show ?thesis
  proof cases
    case pipe
    obtain xs ys where xs: "Q (PipeReaders p) = Some xs" and ys: "Q (PipeWriters p) = Some ys"
      using pipe(4,5) by blast
    obtain h1 where h1: "clear_waiters H (PipeReaders p) s = Some (s\<lparr>lists := h1\<rparr>)"
      "lists_ok h1 (Q(PipeReaders p \<mapsto> []))" "\<forall>e. has_elem h1 e = has_elem (lists s) e"
      "\<forall>e \<in> set xs. unlinked h1 e"
      using clear_waiters_ok [OF lo xs] by blast
    have c2: "lists_ok (lists (s\<lparr>lists := h1\<rparr>)) (Q(PipeReaders p \<mapsto> []))"
      "(Q(PipeReaders p \<mapsto> [])) (PipeWriters p) = Some ys" using h1(2) ys by auto
    obtain h2 where h2: "clear_waiters H (PipeWriters p) (s\<lparr>lists := h1\<rparr>) = Some (s\<lparr>lists := h1, lists := h2\<rparr>)"
      "lists_ok h2 (Q(PipeReaders p \<mapsto> [], PipeWriters p \<mapsto> []))"
      "\<forall>e. has_elem h2 e = has_elem (lists (s\<lparr>lists := h1\<rparr>)) e"
      "\<forall>e \<in> set ys. unlinked h2 e" "same_nodes (PipeWriters p) (set ys) (lists (s\<lparr>lists := h1\<rparr>)) h2"
      using clear_waiters_ok [OF c2] by blast
    have "lists_ok (free_list (PipeReaders p) (free_list (PipeWriters p) h2))
        (Q(PipeReaders p \<mapsto> [], PipeWriters p \<mapsto> [], PipeWriters p := None, PipeReaders p := None))"
      by (intro lists_ok_free_list h2(2))
    also have "Q(PipeReaders p \<mapsto> [], PipeWriters p \<mapsto> [], PipeWriters p := None, PipeReaders p := None)
        = Q |` (- waiter_lists (object x))"
      using pipe(2) by (auto simp: restrict_map_def fun_eq_iff)
    finally have lo': "lists_ok (free_list (PipeReaders p) (free_list (PipeWriters p) h2)) (Q |` (- waiter_lists (object x)))" .
    have "set xs \<inter> set ys = {}" using lists_ok_disjoint [OF lo xs ys] by simp
    then have "\<forall>e \<in> set xs. unlinked h2 e"
      using h1(4) same_nodes_unlinked [OF h2(5)] by (simp add: disjoint_iff)
    then have "lists_released Q (waiter_lists (object x)) (free_list (PipeReaders p) (free_list (PipeWriters p) h2))"
      using pipe(2) xs ys h2(4) by (simp add: lists_released_def)
    with lo' show ?thesis using pipe h1 h2 by (auto simp: free_pipe_def)
  next
    case lock
    obtain xs where xs: "Q (LockWaiters l) = Some xs" using lock(4) by blast
    obtain h1 where h1: "clear_waiters H (LockWaiters l) s = Some (s\<lparr>lists := h1\<rparr>)"
      "lists_ok h1 (Q(LockWaiters l \<mapsto> []))" "\<forall>e. has_elem h1 e = has_elem (lists s) e"
      "\<forall>e \<in> set xs. unlinked h1 e"
      using clear_waiters_ok [OF lo xs] by blast
    have "lists_ok (free_list (LockWaiters l) h1) (Q(LockWaiters l \<mapsto> [], LockWaiters l := None))"
      by (intro lists_ok_free_list h1(2))
    also have "Q(LockWaiters l \<mapsto> [], LockWaiters l := None) = Q |` (- waiter_lists (object x))"
      using lock(2) by (auto simp: restrict_map_def fun_eq_iff)
    finally show ?thesis using lock h1 xs by (auto simp: free_lock_def lists_released_def)
  next
    case cvar
    obtain xs where xs: "Q (CvarWaiters c) = Some xs" using cvar(4) by blast
    obtain h1 where h1: "clear_waiters H (CvarWaiters c) s = Some (s\<lparr>lists := h1\<rparr>)"
      "lists_ok h1 (Q(CvarWaiters c \<mapsto> []))" "\<forall>e. has_elem h1 e = has_elem (lists s) e"
      "\<forall>e \<in> set xs. unlinked h1 e"
      using clear_waiters_ok [OF lo xs] by blast
    have "lists_ok (free_list (CvarWaiters c) h1) (Q(CvarWaiters c \<mapsto> [], CvarWaiters c := None))"
      by (intro lists_ok_free_list h1(2))
    also have "Q(CvarWaiters c \<mapsto> [], CvarWaiters c := None) = Q |` (- waiter_lists (object x))"
      using cvar(2) by (auto simp: restrict_map_def fun_eq_iff)
    finally show ?thesis using cvar h1 xs by (auto simp: free_cvar_def lists_released_def)
  qed
qed

lemma SyncReclaim_ok:
  assumes lo: "lists_ok (lists s) Q" and ok: "sync_ok s" and i: "i < MAX_SYNCS" "sync_table s ! i = Some n"
    and x: "sync_objs s n = Some x" "object_ok s Q x"
  shows "\<exists>s'. SyncReclaim H (int i) s = Some (SUCCESS H, s') \<and> sync_ok s'
    \<and> lists_ok (lists s') (Q |` (- waiter_lists (object x)))
    \<and> (\<forall>e. has_elem (lists s') e = has_elem (lists s) e) \<and> pcbs s' = pcbs s
    \<and> sync_table s' = (sync_table s)[i := None] \<and> sync_objs s' = (sync_objs s)(n := None)
    \<and> global_sync_counter s' = global_sync_counter s - 1
    \<and> lists_released Q (waiter_lists (object x)) (lists s') \<and> structure_freed (object x) s s'"
proof -
  let ?case = "case sync_type x of
                  PIPE \<Rightarrow> do {
                    p \<leftarrow> as_pipe (object x);
                    s \<leftarrow> clear_waiters H (PipeReaders p) s;
                    s \<leftarrow> clear_waiters H (PipeWriters p) s;
                    s \<leftarrow> free_pipe p s;
                    Some (True, s) }
                | LOCK \<Rightarrow> do {
                    l \<leftarrow> as_lock (object x);
                    s \<leftarrow> clear_waiters H (LockWaiters l) s;
                    s \<leftarrow> free_lock l s;
                    Some (True, s) }
                | CVAR \<Rightarrow> do {
                    c \<leftarrow> as_cvar (object x);
                    s \<leftarrow> clear_waiters H (CvarWaiters c) s;
                    s \<leftarrow> free_cvar c s;
                    Some (True, s) }
                | Other_Type _ \<Rightarrow> Some (False, s)"
  obtain s1 where s1: "?case = Some (True, s1)"
    "lists_ok (lists s1) (Q |` (- waiter_lists (object x)))"
    "\<forall>e. has_elem (lists s1) e = has_elem (lists s) e" "pcbs s1 = pcbs s"
    "id_used s1 = id_used s" "global_sync_counter s1 = global_sync_counter s"
    "sync_table s1 = sync_table s" "sync_objs s1 = sync_objs s"
    "lists_released Q (waiter_lists (object x)) (lists s1)" "structure_freed (object x) s s1"
    using release_object [OF lo x(2)] by blast
  have "sync_ok s1" using ok s1(5-8) by (simp add: sync_ok_def ids_ok_def)
  then obtain s' where s': "(do {
      s \<leftarrow> FreeID (int i) s1;
      t \<leftarrow> arr_set (sync_table s) (int i) None;
      s \<leftarrow> free_sync n (s\<lparr>sync_table := t\<rparr>);
      Some (SUCCESS H, s) }) = Some (SUCCESS H, s')"
    "s' = s1\<lparr>id_used := (id_used s1)[i := 0], global_sync_counter := global_sync_counter s1 - 1,
         sync_table := (sync_table s1)[i := None], sync_objs := (sync_objs s1)(n := None)\<rparr>" "sync_ok s'"
    using reclaim_tail [of s1 i n H] i s1(7) by auto
  have "arr_get (sync_table s) (int i) = Some (Some n)" using i sync_okD(2) [OF ok] by simp
  then have "SyncReclaim H (int i) s = Some (SUCCESS H, s')"
    using s1(1) s'(1) x(1) i(1) by (simp add: SyncReclaim_def)
  moreover have "structure_freed (object x) s s'"
    using s1(10) by (cases "object x") (auto simp: s'(2) split: option.splits elim!: structure_freed.elims)
  ultimately show ?thesis using s'(2,3) s1 by simp
qed


section \<open>Small systems with objects\<close>

text \<open>The objects \<open>xs\<close> take the identifiers 0, 1, 2, and so on.\<close>

definition with_objects ::
  "kstate \<Rightarrow> (obj_ptr \<times> sync_obj) list \<Rightarrow> (obj_ptr \<rightharpoonup> pipe) \<Rightarrow> (obj_ptr \<rightharpoonup> lock) \<Rightarrow> (obj_ptr \<rightharpoonup> unit) \<Rightarrow> sstate" where
  "with_objects k xs ps ls cs = kstate.extend k (sstate.fields
     (map (Some \<circ> fst) xs @ replicate (MAX_SYNCS - length xs) None) (int (length xs))
     (replicate (length xs) 1 @ replicate (MAX_SYNCS - length xs) 0) (map_of xs) ps ls cs)"

lemma with_objects_simps [simp]:
  "frame_bitMap (with_objects k xs ps ls cs) = frame_bitMap k"
  "region0_pt (with_objects k xs ps ls cs) = region0_pt k"
  "page_tables (with_objects k xs ps ls cs) = page_tables k"
  "vm_enabled (with_objects k xs ps ls cs) = vm_enabled k"
  "lists (with_objects k xs ps ls cs) = lists k" "pcbs (with_objects k xs ps ls cs) = pcbs k"
  "current_process (with_objects k xs ps ls cs) = current_process k"
  "idle_process (with_objects k xs ps ls cs) = idle_process k"
  "kbufs (with_objects k xs ps ls cs) = kbufs k" "kints (with_objects k xs ps ls cs) = kints k"
  "ptbr1 (with_objects k xs ps ls cs) = ptbr1 k"
  "sync_table (with_objects k xs ps ls cs) = map (Some \<circ> fst) xs @ replicate (MAX_SYNCS - length xs) None"
  "global_sync_counter (with_objects k xs ps ls cs) = int (length xs)"
  "id_used (with_objects k xs ps ls cs) = replicate (length xs) 1 @ replicate (MAX_SYNCS - length xs) 0"
  "sync_objs (with_objects k xs ps ls cs) = map_of xs"
  "pipes (with_objects k xs ps ls cs) = ps" "locks (with_objects k xs ps ls cs) = ls"
  "cvars (with_objects k xs ps ls cs) = cs"
  by (simp_all add: with_objects_def kstate.defs sstate.defs)

lemma with_objects_ok:
  assumes "length xs \<le> MAX_SYNCS" "distinct (map fst xs)" "\<forall>i < length xs. sync_id (snd (xs ! i)) = int i"
  shows "sync_ok (with_objects k xs ps ls cs)"
proof -
  have "map_of xs (fst (xs ! i)) = Some (snd (xs ! i))" if "i < length xs" for i
    using assms(2) that by (simp add: map_of_eq_Some_iff)
  then have "\<exists>x. map_of xs (fst (xs ! i)) = Some x \<and> sync_id x = int i" if "i < length xs" for i
    using assms(3) that by blast
  then show ?thesis
    using assms by (auto simp: sync_ok_def ids_ok_def ones_def nth_append simp del: map_of_eq_Some_iff)
qed

text \<open>One pipe, one lock and one condition variable, nobody waiting for them.\<close>

definition object_lists :: "(lref \<times> eref list) list" where
  "object_lists = family_lists @ [(PipeReaders 20, []), (PipeWriters 20, []), (LockWaiters 30, []), (CvarWaiters 40, [])]"

definition demo_objs :: "(obj_ptr \<times> sync_obj) list" where
  "demo_objs = [(200, \<lparr>sync_type = PIPE, sync_id = 0, object = U_Pipe (Some 20)\<rparr>),
     (201, \<lparr>sync_type = LOCK, sync_id = 1, object = U_Lock (Some 30)\<rparr>),
     (202, \<lparr>sync_type = CVAR, sync_id = 2, object = U_Cvar (Some 40)\<rparr>)]"

definition empty_pipe :: pipe where
  "empty_pipe = \<lparr>buffer = replicate 4 0, read_pos = 0, write_pos = 0, bytes_in_buffer = 0,
     open_for_read = True, open_for_write = True\<rparr>"

definition object_system :: sstate where
  "object_system = with_objects (small_system family_nodes object_lists family_pcbs 1) demo_objs
     [20 \<mapsto> empty_pipe] [30 \<mapsto> \<lparr>locked = False, owner = None\<rparr>] [40 \<mapsto> ()]"

lemma object_lists_ok: "pcb_ok object_system (map_of object_lists)" "family_ok (pcbs object_system) (map_of object_lists)"
proof -
  have "system_check family_nodes object_lists family_pcbs"
    by (simp add: system_check_def object_lists_def family_defs idle_state_def)
  from system_check_ok [OF this] show "pcb_ok object_system (map_of object_lists)"
    "family_ok (pcbs object_system) (map_of object_lists)"
    by (simp_all add: pcb_ok_def object_system_def)
qed

lemma object_system_ok: "sync_ok object_system" "lists_ok (lists object_system) (map_of object_lists)"
proof -
  show "sync_ok object_system" unfolding object_system_def
    by (rule with_objects_ok) (auto simp: demo_objs_def MAX_SYNCS_def less_Suc_eq numeral_3_eq_3)
  show "lists_ok (lists object_system) (map_of object_lists)"
    using object_lists_ok(1) unfolding pcb_ok_def by (rule sched_invD)
qed

section \<open>Properties\<close>

text \<open>
  C14: While fewer than \<open>MAX_SYNCS\<close> objects exist, creating one of type pipe, lock or
  condition variable succeeds: it returns the least identifier that named nothing (every
  smaller one names an object), under which the new object is found from then on; every other identifier still names what it
  named before; and the table, the used flags and the counter stay in agreement. The missing
  \<open>return\<close> after a failed \<open>GetNewID\<close> is therefore never reached.
\<close>

theorem sync_object_created:
  assumes "sync_ok s" "global_sync_counter s < int MAX_SYNCS" "sync_objs s n = None" "type \<in> {PIPE, LOCK, CVAR}"
  shows "\<exists>i s'. InitSyncObject H (Some n) j type obj s = Some (int i, s') \<and> i < MAX_SYNCS \<and> sync_ok s'
    \<and> global_sync_counter s' = global_sync_counter s + 1
    \<and> (\<forall>e. GetCheckSync H (int i) e s = Some (ERROR H, None))
    \<and> (\<forall>m < i. \<exists>k. sync_table s ! m = Some k \<and> (\<forall>e. GetCheckSync H (int m) e s = Some (SUCCESS H, Some k)))
    \<and> (\<forall>e. GetCheckSync H (int i) e s' = Some (SUCCESS H, Some n)) \<and> sync_object (Some n) s' = Some (make_object type obj)
    \<and> (\<forall>k e. k \<noteq> int i \<longrightarrow> GetCheckSync H k e s' = GetCheckSync H k e s)"
proof -
  obtain i where i: "i < MAX_SYNCS" "sync_table s ! i = None" "id_used s ! i = 0" and least: "\<forall>m < i. sync_table s ! m \<noteq> None"
    and s': "let s' = s\<lparr>sync_objs := (sync_objs s)(n \<mapsto> j\<lparr>sync_type := type, sync_id := int i, object := make_object type obj\<rparr>),
           id_used := (id_used s)[i := 1], global_sync_counter := global_sync_counter s + 1,
           sync_table := (sync_table s)[i := Some n]\<rparr>
       in InitSyncObject H (Some n) j type obj s = Some (int i, s') \<and> sync_ok s'"
    using InitSyncObject_ok [OF assms, where j = j and obj = obj and H = H] by blast
  define s' where "s' = s\<lparr>sync_objs := (sync_objs s)(n \<mapsto> j\<lparr>sync_type := type, sync_id := int i, object := make_object type obj\<rparr>),
           id_used := (id_used s)[i := 1], global_sync_counter := global_sync_counter s + 1,
           sync_table := (sync_table s)[i := Some n]\<rparr>"
  have r: "InitSyncObject H (Some n) j type obj s = Some (int i, s')" "sync_ok s'"
    using s' unfolding Let_def s'_def [symmetric] by blast+
  have t: "sync_table s' = (sync_table s)[i := Some n]" by (simp add: s'_def)
  have "GetCheckSync H k e s' = GetCheckSync H k e s" if k: "k \<noteq> int i" for k e
  proof (cases "0 \<le> k \<and> k < int MAX_SYNCS")
    case True
    then obtain m where m: "k = int m" "m < MAX_SYNCS" by (metis zero_le_imp_eq_int of_nat_less_iff)
    show ?thesis
      unfolding m(1) GetCheckSync_ok [OF r(2) m(2)] GetCheckSync_ok [OF assms(1) m(2)] t using k m(1) by simp
  next
    case False
    then have "k < 0 \<or> k \<ge> int MAX_SYNCS" by auto
    then show ?thesis by (simp only: GetCheckSync_range)
  qed
  moreover have "GetCheckSync H (int i) e s' = Some (SUCCESS H, Some n)" for e
    unfolding GetCheckSync_ok [OF r(2) i(1)] t using i(1) sync_okD(2) [OF assms(1)] by simp
  moreover have "GetCheckSync H (int i) e s = Some (ERROR H, None)" for e
    unfolding GetCheckSync_ok [OF assms(1) i(1)] using i(2) by simp
  moreover have "\<exists>k. sync_table s ! m = Some k \<and> (\<forall>e. GetCheckSync H (int m) e s = Some (SUCCESS H, Some k))"
    if m: "m < i" for m
  proof -
    obtain k where k: "sync_table s ! m = Some k" using least m by auto
    have "m < MAX_SYNCS" using m i(1) by simp
    then show ?thesis using k by (simp add: GetCheckSync_ok [OF assms(1)])
  qed
  moreover have "global_sync_counter s' = global_sync_counter s + 1"
    "sync_object (Some n) s' = Some (make_object type obj)" by (simp_all add: s'_def sync_object_def)
  ultimately show ?thesis using r i(1) by (intro exI [of _ i] exI [of _ s']) simp
qed

lemma sync_object_created_witness:
  "\<exists>i s'. InitSyncObject demo_hw (Some 203) (snd (hd demo_objs)) LOCK (Some 31) object_system = Some (int i, s') \<and> sync_ok s'
     \<and> GetCheckSync demo_hw (int i) LOCK s' = Some (0, Some 203)"
proof -
  have room: "global_sync_counter object_system < int MAX_SYNCS" "sync_objs object_system 203 = None"
    "LOCK \<in> {PIPE, LOCK, CVAR}"
    by (simp_all add: object_system_def demo_objs_def MAX_SYNCS_def)
  obtain i s' where s': "InitSyncObject demo_hw (Some 203) (snd (hd demo_objs)) LOCK (Some 31) object_system = Some (int i, s')"
    "sync_ok s'" "\<forall>e. GetCheckSync demo_hw (int i) e s' = Some (SUCCESS demo_hw, Some 203)"
    using sync_object_created [OF object_system_ok(1) room, of demo_hw "snd (hd demo_objs)" "Some 31"]
    by (elim exE conjE) (rule that)
  then show ?thesis by (intro exI [of _ i] exI [of _ s']) simp
qed

text \<open>
  C15: Reclaiming an existing object succeeds: its identifier is free and names nothing, its
  \<open>sync_obj_t\<close> and the pipe, lock or condition variable it stands for are freed and no other
  structure is, the memory of its waiting lists is gone and both links of every process that was
  in one are NULL, every other list is as before; every other identifier still names what it
  named, the counter is one less and the table invariant holds, so the identifier can be handed
  out again. (The waiting processes are not made ready: their control blocks are unchanged.)
\<close>

theorem sync_object_reclaimed:
  assumes "sync_ok s" "lists_ok (lists s) Q" "i < MAX_SYNCS" "sync_table s ! i = Some n"
    "sync_objs s n = Some x" "object_ok s Q x"
  shows "\<exists>s'. SyncReclaim H (int i) s = Some (SUCCESS H, s') \<and> sync_ok s'
    \<and> lists_ok (lists s') (Q |` (- waiter_lists (object x))) \<and> sync_objs s' = (sync_objs s)(n := None)
    \<and> lists_released Q (waiter_lists (object x)) (lists s') \<and> structure_freed (object x) s s'
    \<and> pcbs s' = pcbs s \<and> global_sync_counter s' = global_sync_counter s - 1
    \<and> (\<forall>e. GetCheckSync H (int i) e s' = Some (ERROR H, None))
    \<and> (\<forall>k e. k \<noteq> int i \<longrightarrow> GetCheckSync H k e s' = GetCheckSync H k e s)"
proof -
  obtain s' where s': "SyncReclaim H (int i) s = Some (SUCCESS H, s')" "sync_ok s'"
    "lists_ok (lists s') (Q |` (- waiter_lists (object x)))"
    "sync_table s' = (sync_table s)[i := None]" "sync_objs s' = (sync_objs s)(n := None)"
    "global_sync_counter s' = global_sync_counter s - 1" "pcbs s' = pcbs s"
    "lists_released Q (waiter_lists (object x)) (lists s')" "structure_freed (object x) s s'"
    using SyncReclaim_ok [OF assms(2,1,3,4,5,6)] by blast
  have "GetCheckSync H k e s' = GetCheckSync H k e s" if k: "k \<noteq> int i" for k e
  proof (cases "0 \<le> k \<and> k < int MAX_SYNCS")
    case True
    then obtain m where m: "k = int m" "m < MAX_SYNCS" by (metis zero_le_imp_eq_int of_nat_less_iff)
    show ?thesis
      unfolding m(1) GetCheckSync_ok [OF s'(2) m(2)] GetCheckSync_ok [OF assms(1) m(2)] s'(4) using k m(1) by simp
  next
    case False
    then have "k < 0 \<or> k \<ge> int MAX_SYNCS" by auto
    then show ?thesis by (simp only: GetCheckSync_range)
  qed
  moreover have "GetCheckSync H (int i) e s' = Some (ERROR H, None)" for e
    unfolding GetCheckSync_ok [OF s'(2) assms(3)] s'(4) using assms(3) sync_okD(2) [OF assms(1)] by simp
  ultimately show ?thesis using s' by (intro exI [of _ s']) simp
qed

lemma sync_object_reclaimed_witness:
  "\<exists>s'. SyncReclaim demo_hw 0 object_system = Some (0, s') \<and> sync_ok s'
     \<and> GetCheckSync demo_hw 0 PIPE s' = Some (-1, None) \<and> pipes s' 20 = None \<and> list_gone (lists s') (PipeReaders 20)"
proof -
  have i: "(0::nat) < MAX_SYNCS" "sync_table object_system ! 0 = Some 200"
    "sync_objs object_system 200 = Some (snd (hd demo_objs))"
    "object_ok object_system (map_of object_lists) (snd (hd demo_objs))"
    by (simp_all add: object_system_def demo_objs_def MAX_SYNCS_def object_ok_def object_lists_def family_lists_def)
  obtain s' where s': "SyncReclaim demo_hw (int 0) object_system = Some (SUCCESS demo_hw, s')" "sync_ok s'"
    "lists_released (map_of object_lists) (waiter_lists (object (snd (hd demo_objs)))) (lists s')"
    "structure_freed (object (snd (hd demo_objs))) object_system s'"
    "\<forall>e. GetCheckSync demo_hw (int 0) e s' = Some (ERROR demo_hw, None)"
    using sync_object_reclaimed [OF object_system_ok i, of demo_hw] by (elim exE conjE) (rule that)
  have "pipes s' 20 = None" "list_gone (lists s') (PipeReaders 20)"
    using s'(3,4) by (simp_all add: demo_objs_def lists_released_def)
  with s'(1,2,5) show ?thesis by (intro exI [of _ s']) simp
qed

end
