(* ===== verification/Pipe.thy ===== *)
theory Pipe
  imports Sync_Ids
begin

text \<open>
  Pipes: the ring buffer of \<open>pipe_t\<close>, reading and writing, and the two functions of
  \<open>sync.c\<close> that pass bytes between waiting writers and waiting readers.

  The ring buffer is an instance of a byte queue contract. \<open>SyncDrainReaders\<close> and
  \<open>SyncDrainWriters\<close> call each other in tail position; their iterations are the steps of a
  machine with three modes, and \<open>drain\<close> runs it until it stops.
\<close>

section \<open>The contract of a bounded byte queue\<close>

locale byte_fifo =
  fixes inv :: "'r \<Rightarrow> bool"
    and cont :: "'r \<Rightarrow> 'b list"
    and cap :: nat
    and put :: "'b \<Rightarrow> 'r \<Rightarrow> 'r option"
    and get :: "'r \<Rightarrow> ('b \<times> 'r) option"
  assumes bound_law: "inv r \<Longrightarrow> length (cont r) \<le> cap"
    and put_law: "inv r \<Longrightarrow> length (cont r) < cap \<Longrightarrow> \<exists>r'. put b r = Some r' \<and> inv r' \<and> cont r' = cont r @ [b]"
    and get_law: "inv r \<Longrightarrow> cont r = b # bs \<Longrightarrow> \<exists>r'. get r = Some (b, r') \<and> inv r' \<and> cont r' = bs"
begin

fun puts :: "'b list \<Rightarrow> 'r \<Rightarrow> 'r option" where
  "puts [] r = Some r"
| "puts (b # bs) r = do { r \<leftarrow> put b r; puts bs r }"

fun gets :: "nat \<Rightarrow> 'r \<Rightarrow> ('b list \<times> 'r) option" where
  "gets 0 r = Some ([], r)"
| "gets (Suc n) r = do { (b, r) \<leftarrow> get r; (bs, r) \<leftarrow> gets n r; Some (b # bs, r) }"

lemma puts_ok:
  "inv r \<Longrightarrow> length (cont r) + length bs \<le> cap \<Longrightarrow> \<exists>r'. puts bs r = Some r' \<and> inv r' \<and> cont r' = cont r @ bs"
proof (induction bs arbitrary: r)
  case (Cons b bs)
  obtain r1 where r1: "put b r = Some r1" "inv r1" "cont r1 = cont r @ [b]"
    using put_law [OF Cons.prems(1), of b] Cons.prems(2) by auto
  with Cons.IH [OF r1(2)] Cons.prems(2) show ?case by auto
qed simp

lemma gets_ok:
  "inv r \<Longrightarrow> n \<le> length (cont r) \<Longrightarrow>
    \<exists>r'. gets n r = Some (take n (cont r), r') \<and> inv r' \<and> cont r' = drop n (cont r)"
proof (induction n arbitrary: r)
  case (Suc n)
  obtain b bs where b: "cont r = b # bs" using Suc.prems(2) by (cases "cont r") auto
  obtain r1 where r1: "get r = Some (b, r1)" "inv r1" "cont r1 = bs" using get_law [OF Suc.prems(1) b] by blast
  with Suc.IH [OF r1(2)] Suc.prems(2) b show ?case by auto
qed simp

text \<open>What goes in comes out, after what was there before, in the same order.\<close>

lemma puts_gets:
  assumes "inv r" "length (cont r) + length bs \<le> cap"
  shows "\<exists>r' r''. puts bs r = Some r' \<and> gets (length (cont r) + length bs) r' = Some (cont r @ bs, r'')
    \<and> inv r'' \<and> cont r'' = []"
proof -
  obtain r' where r': "puts bs r = Some r'" "inv r'" "cont r' = cont r @ bs" using puts_ok [OF assms] by blast
  with gets_ok [OF r'(2), of "length (cont r) + length bs"] show ?thesis by auto
qed

end

section \<open>The ring buffer\<close>

definition put_byte :: "hw \<Rightarrow> u8 \<Rightarrow> pipe \<Rightarrow> pipe option" where
  "put_byte H b pp = do {
     buf \<leftarrow> arr_set (buffer pp) (write_pos pp) b;
     Some (pp\<lparr>buffer := buf, write_pos := (write_pos pp + 1) mod PIPE_BUFFER_LEN H,
       bytes_in_buffer := bytes_in_buffer pp + 1\<rparr>) }"

text \<open>
  \<open>d\<close> is 1 where the code counts the byte at once, 0 where it subtracts the whole number
  after the loop.
\<close>

definition take_byte :: "hw \<Rightarrow> int \<Rightarrow> pipe \<Rightarrow> (u8 \<times> pipe) option" where
  "take_byte H d pp = do {
     b \<leftarrow> arr_get (buffer pp) (read_pos pp);
     Some (b, pp\<lparr>read_pos := (read_pos pp + 1) mod PIPE_BUFFER_LEN H,
       bytes_in_buffer := bytes_in_buffer pp - d\<rparr>) }"

text \<open>The source is read through \<open>rd\<close>; \<open>loc\<close> is \<open>writer->write_loc\<close>.\<close>

function fill_loop :: "hw \<Rightarrow> (int \<Rightarrow> u8 option) \<Rightarrow> int \<Rightarrow> pipe \<Rightarrow> int \<Rightarrow> (pipe \<times> int) option" where
  "fill_loop H rd len pp loc =
     (if bytes_in_buffer pp < PIPE_BUFFER_LEN H \<and> loc < len then do {
        b \<leftarrow> rd loc;
        pp \<leftarrow> put_byte H b pp;
        fill_loop H rd len pp (loc + 1) }
      else Some (pp, loc))"
  by pat_completeness auto
termination
  by (relation "measure (\<lambda>(H, rd, len, pp, loc). nat (len - loc))") auto

function write_loop ::
  "hw \<Rightarrow> (int \<Rightarrow> u8 option) \<Rightarrow> int \<Rightarrow> int \<Rightarrow> int \<Rightarrow> pipe \<Rightarrow> int \<Rightarrow> (pipe \<times> int) option" where
  "write_loop H rd len space written pp loc =
     (if written < space \<and> loc < len then do {
        b \<leftarrow> rd loc;
        pp \<leftarrow> put_byte H b pp;
        write_loop H rd len space (written + 1) pp (loc + 1) }
      else Some (pp, loc))"
  by pat_completeness auto
termination
  by (relation "measure (\<lambda>(H, rd, len, space, written, pp, loc). nat (len - loc))") auto

declare fill_loop.simps [simp del] write_loop.simps [simp del]

fun take_loop :: "hw \<Rightarrow> int \<Rightarrow> int \<Rightarrow> nat \<Rightarrow> pipe \<Rightarrow> u8 list \<Rightarrow> (pipe \<times> u8 list) option" where
  "take_loop H d i 0 pp dest = Some (pp, dest)"
| "take_loop H d i (Suc n) pp dest = do {
     (b, pp) \<leftarrow> take_byte H d pp;
     dest \<leftarrow> arr_set dest i b;
     take_loop H d (i + 1) n pp dest }"

section \<open>Pipes in the kernel state\<close>

definition upd_pipe :: "obj_ptr \<Rightarrow> (pipe \<Rightarrow> pipe) \<Rightarrow> 'a sstate_scheme \<Rightarrow> 'a sstate_scheme option" where
  "upd_pipe p f s = do { x \<leftarrow> pipes s p; Some (s\<lparr>pipes := (pipes s)(p \<mapsto> f x)\<rparr>) }"

definition buf_get :: "buf_ptr option \<Rightarrow> 'a kstate_scheme \<Rightarrow> int \<Rightarrow> u8 option" where
  "buf_get b s i = do { b \<leftarrow> b; bs \<leftarrow> kbufs s b; arr_get bs i }"

definition copy_out ::
  "hw \<Rightarrow> int \<Rightarrow> obj_ptr \<Rightarrow> buf_ptr option \<Rightarrow> int \<Rightarrow> 'a sstate_scheme \<Rightarrow> 'a sstate_scheme option" where
  "copy_out H d p dest to_read s =
     (if to_read \<le> 0 then Some s
      else do {
        b \<leftarrow> dest;
        bs \<leftarrow> kbufs s b;
        pp \<leftarrow> pipes s p;
        (pp, bs) \<leftarrow> take_loop H d 0 (nat to_read) pp bs;
        Some (s\<lparr>pipes := (pipes s)(p \<mapsto> pp), kbufs := (kbufs s)(b \<mapsto> bs)\<rparr>) })"

datatype drain_mode = Drain_Stop | Drain_Readers | Drain_Writers

text \<open>The test before the tail call, at each of the two ends of \<open>SyncDrainWriters\<close>.\<close>

definition writers_exit :: "obj_ptr \<Rightarrow> 'a sstate_scheme \<Rightarrow> (drain_mode \<times> 'a sstate_scheme) option" where
  "writers_exit p s = do {
     pp \<leftarrow> pipes s p;
     n \<leftarrow> counts (lists s) (PipeReaders p);
     Some (if bytes_in_buffer pp \<noteq> 0 \<and> n \<noteq> 0 then Drain_Readers else Drain_Stop, s) }"

definition writers_step :: "hw \<Rightarrow> obj_ptr \<Rightarrow> 'a sstate_scheme \<Rightarrow> (drain_mode \<times> 'a sstate_scheme) option" where
  "writers_step H p s = do {
     (node, h) \<leftarrow> pop H (Some (PipeWriters p)) (lists s);
     s \<leftarrow> Some (s\<lparr>lists := h\<rparr>);
     if node = None then writers_exit p s
     else do {
       w \<leftarrow> pcb_from_queue_node node;
       c \<leftarrow> pcbs s w;
       pp \<leftarrow> pipes s p;
       let len = pipe_len c;
       (pp, loc) \<leftarrow> fill_loop H (buf_get (pipe_buffer c) s) len pp (write_loc c);
       s \<leftarrow> upd_pipe p (\<lambda>_. pp) s;
       s \<leftarrow> upd_pcb (Some w) (\<lambda>c. c\<lparr>write_loc := loc\<rparr>) s;
       if loc < len then do {
         s \<leftarrow> on_lists (insert_head (Some (PipeWriters p)) node) s;
         writers_exit p s }
       else do {
         s \<leftarrow> upd_pcb (Some w) (\<lambda>c. c\<lparr>pipe_buffer := None, pipe_len := 0, write_loc := 0, waiting_pipe_id := -1,
                state := PROCESS_DEFAULT, user_context := set_reg 0 (word_of_int len) (user_context c)\<rparr>) s;
         s \<leftarrow> add_to_ready_queue (Some w) s;
         Some (Drain_Writers, s) } } }"

definition readers_exit :: "hw \<Rightarrow> obj_ptr \<Rightarrow> 'a sstate_scheme \<Rightarrow> (drain_mode \<times> 'a sstate_scheme) option" where
  "readers_exit H p s = do {
     pp \<leftarrow> pipes s p;
     n \<leftarrow> counts (lists s) (PipeReaders p);
     Some (if bytes_in_buffer pp < PIPE_BUFFER_LEN H \<and> n \<noteq> 0 then Drain_Writers else Drain_Stop, s) }"

definition readers_step :: "hw \<Rightarrow> obj_ptr \<Rightarrow> 'a sstate_scheme \<Rightarrow> (drain_mode \<times> 'a sstate_scheme) option" where
  "readers_step H p s = do {
     pp \<leftarrow> pipes s p;
     if bytes_in_buffer pp > 0 then do {
       (node, h) \<leftarrow> pop H (Some (PipeReaders p)) (lists s);
       s \<leftarrow> Some (s\<lparr>lists := h\<rparr>);
       if node = None then readers_exit H p s
       else do {
         r \<leftarrow> pcb_from_queue_node node;
         c \<leftarrow> pcbs s r;
         let req = pipe_len c;
         let avl = bytes_in_buffer pp;
         let to_read = (if req < avl then req else avl);
         s \<leftarrow> copy_out H 1 p (pipe_buffer c) to_read s;
         s \<leftarrow> upd_pcb (Some r) (\<lambda>c. c\<lparr>user_context := set_reg 0 (word_of_int to_read) (user_context c),
                waiting_pipe_id := -1, state := PROCESS_DEFAULT\<rparr>) s;
         s \<leftarrow> add_to_ready_queue (Some r) s;
         Some (Drain_Readers, s) } }
     else readers_exit H p s }"

partial_function (option) drain ::
  "hw \<Rightarrow> obj_ptr \<Rightarrow> drain_mode \<Rightarrow> 'a sstate_scheme \<Rightarrow> 'a sstate_scheme option" where
  "drain H p m s = (case m of
       Drain_Stop \<Rightarrow> Some s
     | Drain_Writers \<Rightarrow> do { (m, s) \<leftarrow> writers_step H p s; drain H p m s }
     | Drain_Readers \<Rightarrow> do { (m, s) \<leftarrow> readers_step H p s; drain H p m s })"

definition SyncDrainWriters :: "hw \<Rightarrow> obj_ptr \<Rightarrow> 'a sstate_scheme \<Rightarrow> 'a sstate_scheme option" where
  "SyncDrainWriters H p s = drain H p Drain_Writers s"

definition SyncDrainReaders :: "hw \<Rightarrow> obj_ptr \<Rightarrow> 'a sstate_scheme \<Rightarrow> 'a sstate_scheme option" where
  "SyncDrainReaders H p s = drain H p Drain_Readers s"

section \<open>The system's entry points\<close>

text \<open>What \<open>malloc\<close> returns for the new structure and its \<open>sync_obj_t\<close>, and the bytes in them.\<close>

record sync_env =
  m_object :: "obj_ptr option"
  m_sync :: "obj_ptr option"
  m_pipe_junk :: pipe
  m_sync_junk :: sync_obj
  m_list_junk :: "(lref, eref) junk"

definition init_waiters :: "(lref, eref) junk \<Rightarrow> lref \<Rightarrow> 'a kstate_scheme \<Rightarrow> 'a kstate_scheme option" where
  "init_waiters j l = on_lists (\<lambda>h. list_init l (alloc_list l j h))"

definition SyncInitPipe :: "hw \<Rightarrow> sync_env \<Rightarrow> u32 \<Rightarrow> 'a sstate_scheme \<Rightarrow> (int \<times> 'a sstate_scheme) option" where
  "SyncInitPipe H a pipe_idp s =
     (if global_sync_counter s \<ge> int MAX_SYNCS then Some (ERROR H, s)
      else do {
        p \<leftarrow> m_object a;
        s \<leftarrow> Some (s\<lparr>pipes := (pipes s)(p \<mapsto> (m_pipe_junk a)\<lparr>read_pos := 0, write_pos := 0, bytes_in_buffer := 0\<rparr>)\<rparr>);
        s \<leftarrow> init_waiters (m_list_junk a) (PipeReaders p) s;
        s \<leftarrow> init_waiters (m_list_junk a) (PipeWriters p) s;
        s \<leftarrow> upd_pipe p (\<lambda>x. x\<lparr>open_for_read := True, open_for_write := True\<rparr>) s;
        (rc, s) \<leftarrow> InitSyncObject H (m_sync a) (m_sync_junk a) PIPE (Some p) s;
        if rc = ERROR H then do { s \<leftarrow> free_pipe p s; Some (ERROR H, s) }
        else do {
          s \<leftarrow> deref_store H pipe_idp (word_of_int rc) s;
          Some (SUCCESS H, s) } })"

definition SyncReadPipe ::
  "hw \<Rightarrow> int \<Rightarrow> buf_ptr option \<Rightarrow> int \<Rightarrow> 'a sstate_scheme \<Rightarrow> (int \<times> 'a sstate_scheme) option" where
  "SyncReadPipe H pipe_id buf len s = do {
     let cur = current_process s;
     (rc, sync) \<leftarrow> GetCheckSync H pipe_id PIPE s;
     if rc = ERROR H then Some (ERROR H, s)
     else do {
       u \<leftarrow> sync_object sync s;
       p \<leftarrow> as_pipe u;
       pp \<leftarrow> pipes s p;
       if \<not> open_for_read pp then Some (ERROR H, s)
       else if bytes_in_buffer pp = 0 then do {
         s \<leftarrow> upd_pcb cur (\<lambda>c. c\<lparr>waiting_pipe_id := pipe_id, pipe_buffer := buf, pipe_len := len\<rparr>) s;
         q \<leftarrow> cur;
         s \<leftarrow> on_lists (insert_tail (Some (PipeReaders p)) (Some (Elem (QueueNode q)))) s;
         s \<leftarrow> upd_pcb cur (\<lambda>c. c\<lparr>state := PROCESS_BLOCKED\<rparr>) s;
         Some (PCB_BLOCKED, s) }
       else do {
         let to_read = (if len < bytes_in_buffer pp then len else bytes_in_buffer pp);
         s \<leftarrow> copy_out H 0 p buf to_read s;
         s \<leftarrow> upd_pcb cur (\<lambda>c. c\<lparr>user_context := set_reg 0 (word_of_int to_read) (user_context c)\<rparr>) s;
         s \<leftarrow> upd_pipe p (\<lambda>x. x\<lparr>bytes_in_buffer := bytes_in_buffer x - to_read\<rparr>) s;
         s \<leftarrow> SyncDrainWriters H p s;
         Some (SUCCESS H, s) } } }"

definition SyncWritePipe ::
  "hw \<Rightarrow> int \<Rightarrow> buf_ptr option \<Rightarrow> int \<Rightarrow> 'a sstate_scheme \<Rightarrow> (int \<times> 'a sstate_scheme) option" where
  "SyncWritePipe H pipe_id buf len s = do {
     (rc, sync) \<leftarrow> GetCheckSync H pipe_id PIPE s;
     if rc = ERROR H then Some (ERROR H, s)
     else do {
       u \<leftarrow> sync_object sync s;
       p \<leftarrow> as_pipe u;
       pp \<leftarrow> pipes s p;
       if \<not> open_for_write pp then Some (ERROR H, s)
       else do {
         let space = PIPE_BUFFER_LEN H - bytes_in_buffer pp;
         let writer = current_process s;
         s \<leftarrow> upd_pcb writer (\<lambda>c. c\<lparr>write_loc := 0\<rparr>) s;
         (pp, loc) \<leftarrow> write_loop H (buf_get buf s) len space 0 pp 0;
         s \<leftarrow> upd_pipe p (\<lambda>_. pp) s;
         s \<leftarrow> upd_pcb writer (\<lambda>c. c\<lparr>write_loc := loc\<rparr>) s;
         if loc < len then do {
           s \<leftarrow> upd_pcb writer (\<lambda>c. c\<lparr>pipe_buffer := buf, pipe_len := len, waiting_pipe_id := pipe_id,
                  state := PROCESS_BLOCKED\<rparr>) s;
           q \<leftarrow> writer;
           s \<leftarrow> on_lists (insert_tail (Some (PipeWriters p)) (Some (Elem (QueueNode q)))) s;
           s \<leftarrow> SyncDrainReaders H p s;
           Some (PCB_BLOCKED, s) }
         else do {
           s \<leftarrow> upd_pcb writer (\<lambda>c. c\<lparr>user_context := set_reg 0 (word_of_int len) (user_context c)\<rparr>) s;
           s \<leftarrow> SyncDrainReaders H p s;
           Some (SUCCESS H, s) } } } }"


section \<open>The ring buffer keeps the contract\<close>

definition plen :: "hw \<Rightarrow> nat" where
  "plen H = nat (PIPE_BUFFER_LEN H)"

definition contents :: "hw \<Rightarrow> pipe \<Rightarrow> u8 list" where
  "contents H pp = map (\<lambda>i. buffer pp ! ((nat (read_pos pp) + i) mod plen H)) [0..<nat (bytes_in_buffer pp)]"

definition pipe_ok :: "hw \<Rightarrow> pipe \<Rightarrow> bool" where
  "pipe_ok H pp \<longleftrightarrow> 0 < PIPE_BUFFER_LEN H \<and> length (buffer pp) = plen H
     \<and> 0 \<le> read_pos pp \<and> read_pos pp < PIPE_BUFFER_LEN H \<and> 0 \<le> bytes_in_buffer pp
     \<and> bytes_in_buffer pp \<le> PIPE_BUFFER_LEN H
     \<and> write_pos pp = (read_pos pp + bytes_in_buffer pp) mod PIPE_BUFFER_LEN H"

lemma pipe_okD:
  assumes "pipe_ok H pp"
  obtains r n where "read_pos pp = int r" "bytes_in_buffer pp = int n" "r < plen H" "n \<le> plen H"
    "write_pos pp = int ((r + n) mod plen H)" "length (buffer pp) = plen H" "PIPE_BUFFER_LEN H = int (plen H)"
proof -
  obtain r n where rn: "read_pos pp = int r" "bytes_in_buffer pp = int n"
    using assms unfolding pipe_ok_def by (metis zero_le_imp_eq_int)
  have l: "PIPE_BUFFER_LEN H = int (plen H)" using assms by (simp add: pipe_ok_def plen_def)
  show thesis using assms rn l by (intro that [of r n]) (auto simp: pipe_ok_def zmod_int)
qed

lemma contents_length: "pipe_ok H pp \<Longrightarrow> int (length (contents H pp)) = bytes_in_buffer pp"
  by (simp add: contents_def pipe_ok_def)

lemma contents_bound: "pipe_ok H pp \<Longrightarrow> length (contents H pp) \<le> plen H"
  by (auto simp: contents_def pipe_ok_def plen_def intro: nat_mono)

lemma contents_cong:
  "buffer pp' = buffer pp \<Longrightarrow> read_pos pp' = read_pos pp \<Longrightarrow> bytes_in_buffer pp' = bytes_in_buffer pp
    \<Longrightarrow> contents H pp' = contents H pp"
  by (simp add: contents_def)

lemma mod_add_inj:
  assumes "(r + i) mod m = (r + n) mod (m::nat)" "i < n" "n - i < m"
  shows False
proof -
  have "m dvd (r + n) - (r + i)" using assms(1) by (metis mod_eq_dvd_iff_nat add_le_cancel_left assms(2) less_imp_le)
  then have "m dvd n - i" by simp
  with assms(2,3) show False by (auto dest: dvd_imp_le)
qed

lemma put_byte_ok:
  assumes ok: "pipe_ok H pp" and room: "length (contents H pp) < plen H"
  shows "\<exists>pp'. put_byte H b pp = Some pp' \<and> pipe_ok H pp' \<and> contents H pp' = contents H pp @ [b]"
proof -
  obtain r n where rn: "read_pos pp = int r" "bytes_in_buffer pp = int n" "r < plen H" "n \<le> plen H"
    "write_pos pp = int ((r + n) mod plen H)" "length (buffer pp) = plen H" "PIPE_BUFFER_LEN H = int (plen H)"
    by (rule pipe_okD [OF ok])
  have n: "n < plen H" using room rn(2) by (simp add: contents_def)
  let ?w = "(r + n) mod plen H"
  define pp' where "pp' = pp\<lparr>buffer := (buffer pp)[?w := b], write_pos := int ((r + Suc n) mod plen H),
     bytes_in_buffer := int (Suc n)\<rparr>"
  have wl: "?w < length (buffer pp)" using rn(3,6) by simp
  have w: "(write_pos pp + 1) mod PIPE_BUFFER_LEN H = int ((r + Suc n) mod plen H)"
  proof -
    have "(write_pos pp + 1) mod PIPE_BUFFER_LEN H = int ((?w + 1) mod plen H)"
      unfolding rn(5,7) by (simp add: zmod_int add.commute)
    then show ?thesis by (simp add: mod_Suc_eq)
  qed
  have "put_byte H b pp = Some pp'"
    using wl w rn(2,5) by (simp add: put_byte_def pp'_def)
  moreover have "pipe_ok H pp'"
    using rn n by (simp add: pipe_ok_def pp'_def zmod_int algebra_simps)
  moreover have "contents H pp' = contents H pp @ [b]"
  proof -
    have old: "(buffer pp)[?w := b] ! ((r + i) mod plen H) = buffer pp ! ((r + i) mod plen H)" if "i < n" for i
      using mod_add_inj [of r i "plen H" n] that n by (metis nth_list_update_neq less_imp_diff_less)
    have "nat (int (Suc n)) = Suc n" "nat (int n) = n" by (simp_all only: nat_int)
    then show ?thesis using rn(1,2) wl old by (simp add: contents_def pp'_def del: of_nat_Suc)
  qed
  ultimately show ?thesis by blast
qed

lemma take_byte_ok:
  assumes ok: "pipe_ok H pp" and c: "contents H pp = b # bs"
  shows "\<exists>pp'. take_byte H 1 pp = Some (b, pp') \<and> pipe_ok H pp' \<and> contents H pp' = bs"
proof -
  obtain r n where rn: "read_pos pp = int r" "bytes_in_buffer pp = int n" "r < plen H" "n \<le> plen H"
    "write_pos pp = int ((r + n) mod plen H)" "length (buffer pp) = plen H" "PIPE_BUFFER_LEN H = int (plen H)"
    by (rule pipe_okD [OF ok])
  obtain k where k: "n = Suc k" using c rn(2) by (cases n) (auto simp: contents_def)
  have cs: "contents H pp = buffer pp ! r # map (\<lambda>i. buffer pp ! ((r + Suc i) mod plen H)) [0..<k]"
  proof -
    have "nat (bytes_in_buffer pp) = Suc k" using rn(2) k by simp
    then show ?thesis using rn(1,3) by (simp add: contents_def map_upt_Suc del: upt_Suc)
  qed
  define pp' where "pp' = pp\<lparr>read_pos := int (Suc r mod plen H), bytes_in_buffer := int k\<rparr>"
  have "take_byte H 1 pp = Some (b, pp')"
    using rn(1,2,3,6,7) k c cs by (simp add: take_byte_def pp'_def zmod_int add.commute)
  moreover have "pipe_ok H pp'"
  proof -
    have "int ((r + n) mod plen H) = (int (Suc r mod plen H) + int k) mod int (plen H)"
      unfolding k zmod_int of_nat_add of_nat_Suc mod_add_left_eq by (simp only: algebra_simps)
    then show ?thesis using rn k by (simp add: pipe_ok_def pp'_def)
  qed
  moreover have "contents H pp' = bs"
  proof -
    have "(Suc r mod plen H + i) mod plen H = (r + Suc i) mod plen H" for i
      by (metis add_Suc add_Suc_right mod_add_left_eq)
    then have "contents H pp' = map (\<lambda>i. buffer pp ! ((r + Suc i) mod plen H)) [0..<k]"
      by (simp add: contents_def pp'_def)
    then show ?thesis using c cs by simp
  qed
  ultimately show ?thesis by blast
qed

interpretation ring: byte_fifo "pipe_ok H" "contents H" "plen H" "put_byte H" "take_byte H 1" for H
  by unfold_locales (simp_all add: contents_bound put_byte_ok take_byte_ok)


section \<open>The loops\<close>

lemma fill_loop_ok:
  assumes "pipe_ok H pp" "loc \<le> len" "\<forall>i < len. rd (int i) = Some (bs ! i)" "len \<le> length bs"
    "k = min (plen H - length (contents H pp)) (len - loc)"
  shows "\<exists>pp'. fill_loop H rd (int len) pp (int loc) = Some (pp', int (loc + k)) \<and> pipe_ok H pp'
    \<and> contents H pp' = contents H pp @ take k (drop loc bs)"
  using assms
proof (induction k arbitrary: pp loc)
  case 0
  then have "\<not> (bytes_in_buffer pp < PIPE_BUFFER_LEN H \<and> int loc < int len)"
    using contents_length [OF 0(1)] contents_bound [OF 0(1)] by (auto simp: plen_def)
  then show ?case using 0 by (intro exI [of _ pp]) (auto simp: fill_loop.simps [of H rd "int len" pp])
next
  case (Suc k)
  have room: "length (contents H pp) < plen H" and l: "loc < len" using Suc.prems(5) by auto
  obtain pp1 where pp1: "put_byte H (bs ! loc) pp = Some pp1" "pipe_ok H pp1"
    "contents H pp1 = contents H pp @ [bs ! loc]"
    using put_byte_ok [OF Suc.prems(1) room] by blast
  have k: "k = min (plen H - length (contents H pp1)) (len - Suc loc)" using Suc.prems(5) pp1(3) by auto
  obtain pp2 where pp2: "fill_loop H rd (int len) pp1 (int (Suc loc)) = Some (pp2, int (Suc loc + k))"
    "pipe_ok H pp2" "contents H pp2 = contents H pp1 @ take k (drop (Suc loc) bs)"
    using Suc.IH [OF pp1(2) _ Suc.prems(3,4) k] l by auto
  have "bytes_in_buffer pp < PIPE_BUFFER_LEN H"
    using room contents_length [OF Suc.prems(1)] by (simp add: plen_def)
  then have "fill_loop H rd (int len) pp (int loc) = Some (pp2, int (loc + Suc k))"
    using pp1(1) pp2(1) l Suc.prems(3) by (simp add: fill_loop.simps [of H rd "int len" pp] add.commute)
  moreover have "bs ! loc # take k (drop (Suc loc) bs) = take (Suc k) (drop loc bs)"
    using l Suc.prems(4) by (simp add: Cons_nth_drop_Suc [symmetric])
  ultimately show ?case using pp2(2,3) pp1(3) by (intro exI [of _ pp2]) simp
qed

text \<open>\<open>SyncWritePipe\<close> counts the room down instead; the loops do the same.\<close>

lemma put_byte_bytes: "put_byte H b pp = Some pp' \<Longrightarrow> bytes_in_buffer pp' = bytes_in_buffer pp + 1"
  by (auto simp: put_byte_def split: Option.bind_splits)

lemma write_loop_fill:
  "space - written = PIPE_BUFFER_LEN H - bytes_in_buffer pp \<Longrightarrow>
    write_loop H rd len space written pp loc = fill_loop H rd len pp loc"
proof (induction H rd len space written pp loc rule: write_loop.induct)
  case (1 H rd len space written pp loc)
  have c: "written < space \<longleftrightarrow> bytes_in_buffer pp < PIPE_BUFFER_LEN H" using "1.prems" by linarith
  show ?case
  proof (cases "bytes_in_buffer pp < PIPE_BUFFER_LEN H \<and> loc < len")
    case True
    have "put_byte H b pp \<bind> (\<lambda>pp. write_loop H rd len space (written + 1) pp (loc + 1))
        = put_byte H b pp \<bind> (\<lambda>pp. fill_loop H rd len pp (loc + 1))" if "rd loc = Some b" for b
    proof (cases "put_byte H b pp")
      case (Some pp')
      show ?thesis using "1.IH" [of b pp'] True c that Some put_byte_bytes [OF Some] "1.prems" by simp
    qed simp
    then show ?thesis using True c
      by (cases "rd loc") (simp_all add: write_loop.simps [of H rd len space written pp loc] fill_loop.simps [of H rd len pp loc])
  next
    case False
    then show ?thesis using c
      by (auto simp: write_loop.simps [of H rd len space written pp loc] fill_loop.simps [of H rd len pp loc])
  qed
qed

lemma take_loop_ok:
  assumes "pipe_ok H pp" "n \<le> length (contents H pp)" "i + n \<le> length dest"
  shows "\<exists>pp'. take_loop H 1 (int i) n pp dest
      = Some (pp', take i dest @ take n (contents H pp) @ drop (i + n) dest)
    \<and> pipe_ok H pp' \<and> contents H pp' = drop n (contents H pp)"
  using assms
proof (induction n arbitrary: pp i dest)
  case (Suc n)
  obtain b bs where c: "contents H pp = b # bs" using Suc.prems(2) by (cases "contents H pp") auto
  obtain pp1 where pp1: "take_byte H 1 pp = Some (b, pp1)" "pipe_ok H pp1" "contents H pp1 = bs"
    using take_byte_ok [OF Suc.prems(1) c] by blast
  have il: "i < length dest" using Suc.prems(3) by simp
  obtain pp2 where pp2: "take_loop H 1 (int (Suc i)) n pp1 (dest[i := b])
      = Some (pp2, take (Suc i) (dest[i := b]) @ take n (contents H pp1) @ drop (Suc i + n) (dest[i := b]))"
    "pipe_ok H pp2" "contents H pp2 = drop n (contents H pp1)"
    using Suc.IH [OF pp1(2), of "Suc i" "dest[i := b]"] Suc.prems(2,3) c pp1(3) by auto
  have "take (Suc i) (dest[i := b]) = take i dest @ [b]" using il by (simp add: take_Suc_conv_app_nth)
  then have "take_loop H 1 (int i) (Suc n) pp dest
      = Some (pp2, take i dest @ take (Suc n) (contents H pp) @ drop (i + Suc n) dest)"
    using pp1 pp2(1) il c by (simp add: add.commute)
  with pp2(2,3) pp1(3) c show ?case by (intro exI [of _ pp2]) simp
qed simp

text \<open>Without counting, the loop moves the same bytes.\<close>

lemma take_loop_uncounted:
  "take_loop H 0 i n (pp\<lparr>bytes_in_buffer := m\<rparr>) dest
    = map_option (\<lambda>(q, d). (q\<lparr>bytes_in_buffer := m\<rparr>, d)) (take_loop H 1 i n pp dest)"
proof (induction n arbitrary: i pp dest)
  case (Suc n)
  have t: "take_byte H 0 (pp\<lparr>bytes_in_buffer := m\<rparr>)
      = map_option (\<lambda>(b, q). (b, q\<lparr>bytes_in_buffer := m\<rparr>)) (take_byte H 1 pp)"
    by (cases "arr_get (buffer pp) (read_pos pp)") (simp_all add: take_byte_def)
  show ?case
  proof (cases "take_byte H 1 pp")
    case (Some x)
    obtain b q where x: "x = (b, q)" by (cases x)
    show ?thesis using t Some Suc.IH [of "i + 1" q] by (cases "arr_set dest i b") (simp_all add: x)
  qed (use t in simp)
qed simp

lemma take_loop_counts: "take_loop H 1 i n pp dest = Some (q, d) \<Longrightarrow> bytes_in_buffer q = bytes_in_buffer pp - int n"
  by (induction n arbitrary: i pp dest) (auto simp: take_byte_def split: Option.bind_splits prod.splits)

end
