(* ===== verification/Pipe_Drain.thy ===== *)
theory Pipe_Drain
  imports Pipe
begin

text \<open>
  The pipe as a byte stream: what the draining functions do to the bytes in the buffer, to
  the bytes the blocked writers still have to write, and to the blocked readers.
\<close>

section \<open>The state of a pipe with its waiting processes\<close>

definition bufp :: "(pcb_ptr \<rightharpoonup> pcb) \<Rightarrow> pcb_ptr \<Rightarrow> buf_ptr option" where
  "bufp P q = (case P q of None \<Rightarrow> None | Some c \<Rightarrow> pipe_buffer c)"

text \<open>A process waits with a buffer that is large enough for its request.\<close>

definition waiting_io :: "(pcb_ptr \<rightharpoonup> pcb) \<Rightarrow> (buf_ptr \<rightharpoonup> u8 list) \<Rightarrow> pcb_ptr \<Rightarrow> bool" where
  "waiting_io P K q \<longleftrightarrow> (\<exists>c b bs. P q = Some c \<and> pipe_buffer c = Some b \<and> K b = Some bs
     \<and> 0 \<le> pipe_len c \<and> nat (pipe_len c) \<le> length bs)"

definition writer_ok :: "(pcb_ptr \<rightharpoonup> pcb) \<Rightarrow> pcb_ptr \<Rightarrow> bool" where
  "writer_ok P w \<longleftrightarrow> (\<exists>c. P w = Some c \<and> 0 \<le> write_loc c \<and> write_loc c < pipe_len c)"

text \<open>The bytes a blocked writer still has to write.\<close>

definition pending :: "(pcb_ptr \<rightharpoonup> pcb) \<Rightarrow> (buf_ptr \<rightharpoonup> u8 list) \<Rightarrow> pcb_ptr \<Rightarrow> u8 list" where
  "pending P K w = (case P w of None \<Rightarrow> [] | Some c \<Rightarrow>
     (case pipe_buffer c of None \<Rightarrow> [] | Some b \<Rightarrow>
     (case K b of None \<Rightarrow> [] | Some bs \<Rightarrow> drop (nat (write_loc c)) (take (nat (pipe_len c)) bs))))"

definition psys ::
  "hw \<Rightarrow> 'a sstate_scheme \<Rightarrow> ghost \<Rightarrow> obj_ptr \<Rightarrow> pipe \<Rightarrow> pcb_ptr list \<Rightarrow> pcb_ptr list \<Rightarrow> bool" where
  "psys H s Q p pp rs ws \<longleftrightarrow> pcb_ok s Q \<and> pipes s p = Some pp \<and> pipe_ok H pp
     \<and> Q (PipeReaders p) = Some (map QueueNode rs) \<and> Q (PipeWriters p) = Some (map QueueNode ws)
     \<and> (\<forall>q \<in> set rs \<union> set ws. waiting_io (pcbs s) (kbufs s) q) \<and> (\<forall>w \<in> set ws. writer_ok (pcbs s) w)
     \<and> distinct (map (bufp (pcbs s)) (rs @ ws))"

text \<open>All the bytes under way: first those in the buffer, then those of the writers in line.\<close>

definition stream :: "hw \<Rightarrow> 'a sstate_scheme \<Rightarrow> pipe \<Rightarrow> pcb_ptr list \<Rightarrow> u8 list" where
  "stream H s pp ws = contents H pp @ concat (map (pending (pcbs s) (kbufs s)) ws)"

lemma psysD:
  assumes "psys H s Q p pp rs ws"
  shows "sched_inv (lists s) (pcbs s) Q" "lists_ok (lists s) Q" "pipes s p = Some pp" "pipe_ok H pp"
    "Q (PipeReaders p) = Some (map QueueNode rs)" "Q (PipeWriters p) = Some (map QueueNode ws)"
    "q \<in> set rs \<union> set ws \<Longrightarrow> waiting_io (pcbs s) (kbufs s) q" "w \<in> set ws \<Longrightarrow> writer_ok (pcbs s) w"
    "distinct (map (bufp (pcbs s)) (rs @ ws))"
  using assms sched_invD(1) unfolding psys_def pcb_ok_def by blast+

lemma psys_ready:
  assumes "psys H s Q p pp rs ws"
  obtains ys where "Q ReadyQ = Some ys"
  using sched_inv_queue [OF psysD(1) [OF assms], of ReadyQ] by blast

lemma bytes_simps:
  assumes "pipe_ok H pp"
  shows "bytes_in_buffer pp = 0 \<longleftrightarrow> contents H pp = []" "0 < bytes_in_buffer pp \<longleftrightarrow> contents H pp \<noteq> []"
    "bytes_in_buffer pp < PIPE_BUFFER_LEN H \<longleftrightarrow> length (contents H pp) < plen H"
  by (auto simp: contents_length [OF assms, symmetric] plen_def)

lemma writers_exit_ok:
  assumes "psys H s Q p pp rs ws"
  shows "writers_exit p s = Some (if contents H pp \<noteq> [] \<and> rs \<noteq> [] then Drain_Readers else Drain_Stop, s)"
proof -
  have "counts (lists s) (PipeReaders p) = Some (int (length rs))"
    using lists_ok_count [OF psysD(2,5) [OF assms]] by simp
  then show ?thesis using psysD(3) [OF assms] bytes_simps(1) [OF psysD(4) [OF assms]]
    by (simp add: writers_exit_def)
qed

lemma readers_exit_ok:
  assumes "psys H s Q p pp rs ws"
  shows "readers_exit H p s
    = Some (if length (contents H pp) < plen H \<and> rs \<noteq> [] then Drain_Writers else Drain_Stop, s)"
proof -
  have "counts (lists s) (PipeReaders p) = Some (int (length rs))"
    using lists_ok_count [OF psysD(2,5) [OF assms]] by simp
  then show ?thesis using psysD(3) [OF assms] bytes_simps(3) [OF psysD(4) [OF assms]]
    by (simp add: readers_exit_def)
qed

text \<open>Processes whose control block and buffer stay as they are keep waiting as they did.\<close>

lemma same_io:
  assumes "P' q = P q" "\<And>b. bufp P q = Some b \<Longrightarrow> K' b = K b"
  shows "waiting_io P' K' q = waiting_io P K q" "writer_ok P' q = writer_ok P q" "pending P' K' q = pending P K q"
    "bufp P' q = bufp P q"
proof -
  show "writer_ok P' q = writer_ok P q" "bufp P' q = bufp P q" by (simp_all add: writer_ok_def bufp_def assms(1))
  show "waiting_io P' K' q = waiting_io P K q"
    using assms(2) by (cases "P q"; cases "pipe_buffer (the (P q))") (auto simp: waiting_io_def bufp_def assms(1))
  show "pending P' K' q = pending P K q"
    using assms(2) by (cases "P q"; cases "pipe_buffer (the (P q))") (auto simp: pending_def bufp_def assms(1))
qed

lemma psys_changeI:
  assumes "sched_inv (lists s') (pcbs s') Q'" "pipes s' p = Some pp'" "pipe_ok H pp'"
    "Q' (PipeReaders p) = Some (map QueueNode rs)" "Q' (PipeWriters p) = Some (map QueueNode ws)"
    and same: "\<And>q. q \<in> set rs \<union> set ws \<Longrightarrow> pcbs s' q = pcbs s q"
      "\<And>q b. q \<in> set rs \<union> set ws \<Longrightarrow> bufp (pcbs s) q = Some b \<Longrightarrow> kbufs s' b = kbufs s b"
    and old: "\<forall>q \<in> set rs \<union> set ws. waiting_io (pcbs s) (kbufs s) q" "\<forall>w \<in> set ws. writer_ok (pcbs s) w"
      "distinct (map (bufp (pcbs s)) (rs @ ws))"
  shows "psys H s' Q' p pp' rs ws"
proof -
  have io: "waiting_io (pcbs s') (kbufs s') q = waiting_io (pcbs s) (kbufs s) q"
    "writer_ok (pcbs s') q = writer_ok (pcbs s) q" "bufp (pcbs s') q = bufp (pcbs s) q"
    if q: "q \<in> set rs \<union> set ws" for q
    using same_io [of "pcbs s'" q "pcbs s" "kbufs s'" "kbufs s"] same(1) [OF q] same(2) [OF q] by simp_all
  have m: "map (bufp (pcbs s')) (rs @ ws) = map (bufp (pcbs s)) (rs @ ws)"
    by (rule map_cong [OF refl]) (use io(3) in auto)
  have "distinct (map (bufp (pcbs s')) (rs @ ws))" unfolding m by (rule old(3))
  moreover have "\<forall>q \<in> set rs \<union> set ws. waiting_io (pcbs s') (kbufs s') q" using old(1) io(1) by blast
  moreover have "\<forall>w \<in> set ws. writer_ok (pcbs s') w" using old(2) io(2) by blast
  ultimately show ?thesis using assms(1-5) unfolding psys_def pcb_ok_def by blast
qed

section \<open>One writer\<close>

text \<open>What \<open>SyncDrainWriters\<close> does to the writer in front: it fills the buffer.\<close>

lemma writer_fill:
  assumes ps: "psys H s Q p pp rs (w # ws)"
  shows "\<exists>c pp' k. pcbs s w = Some c \<and> k = min (plen H - length (contents H pp)) (length (pending (pcbs s) (kbufs s) w))
    \<and> fill_loop H (buf_get (pipe_buffer c) s) (pipe_len c) pp (write_loc c) = Some (pp', write_loc c + int k)
    \<and> pipe_ok H pp' \<and> contents H pp' = contents H pp @ take k (pending (pcbs s) (kbufs s) w)
    \<and> int (length (pending (pcbs s) (kbufs s) w)) = pipe_len c - write_loc c
    \<and> 0 \<le> write_loc c \<and> write_loc c < pipe_len c"
proof -
  have wio: "waiting_io (pcbs s) (kbufs s) w" using psysD(7) [OF ps, of w] by simp
  obtain c b bs where c: "pcbs s w = Some c" "pipe_buffer c = Some b" "kbufs s b = Some bs"
    "0 \<le> pipe_len c" "nat (pipe_len c) \<le> length bs" using wio by (auto simp: waiting_io_def)
  have wl: "0 \<le> write_loc c" "write_loc c < pipe_len c"
    using psysD(8) [OF ps, of w] c(1) by (auto simp: writer_ok_def)
  define loc len where "loc = nat (write_loc c)" and "len = nat (pipe_len c)"
  have ll: "write_loc c = int loc" "pipe_len c = int len" "loc < len" "len \<le> length bs"
    using wl c(4,5) by (auto simp: loc_def len_def)
  have pe: "pending (pcbs s) (kbufs s) w = drop loc (take len bs)" using c by (simp add: pending_def loc_def len_def)
  have pl: "length (pending (pcbs s) (kbufs s) w) = len - loc" using ll(4) by (simp add: pe)
  have rd: "\<forall>i < len. buf_get (pipe_buffer c) s (int i) = Some (bs ! i)" using c ll(4) by (simp add: buf_get_def)
  define k where "k = min (plen H - length (contents H pp)) (len - loc)"
  obtain pp' where pp': "fill_loop H (buf_get (pipe_buffer c) s) (int len) pp (int loc) = Some (pp', int (loc + k))"
    "pipe_ok H pp'" "contents H pp' = contents H pp @ take k (drop loc bs)"
    using fill_loop_ok [OF psysD(4) [OF ps] _ rd ll(4) k_def] ll(3) by auto
  have "k \<le> len - loc" by (simp add: k_def)
  then have "take k (drop loc bs) = take k (pending (pcbs s) (kbufs s) w)"
    unfolding pe using ll(3) by (simp add: drop_take)
  then show ?thesis using c(1) pp' ll wl pl by (intro exI [of _ c] exI [of _ pp'] exI [of _ k]) (simp add: k_def)
qed

definition written :: "pcb \<Rightarrow> pcb" where
  "written c = c\<lparr>pipe_buffer := None, pipe_len := 0, write_loc := 0, waiting_pipe_id := -1,
     user_context := set_reg 0 (word_of_int (pipe_len c)) (user_context c), state := PROCESS_READY\<rparr>"

lemma writers_step_empty:
  assumes "psys H s Q p pp rs []"
  shows "writers_step H p s = Some (if contents H pp \<noteq> [] \<and> rs \<noteq> [] then Drain_Readers else Drain_Stop, s)"
proof -
  have "pop H (Some (PipeWriters p)) (lists s) = Some (None, lists s)"
    using pop_empty_ok [OF psysD(2) [OF assms]] psysD(6) [OF assms] by simp
  then show ?thesis using writers_exit_ok [OF assms] by (simp add: writers_step_def)
qed

text \<open>A writer whose remaining bytes all fit is finished and made ready.\<close>

lemma writers_step_done:
  assumes ps: "psys H s Q p pp rs (w # ws)" and r: "Q ReadyQ = Some ys"
    and fits: "length (contents H pp) + length (pending (pcbs s) (kbufs s) w) \<le> plen H"
  shows "\<exists>s' Q' pp' c. writers_step H p s = Some (Drain_Writers, s') \<and> psys H s' Q' p pp' rs ws
    \<and> contents H pp' = contents H pp @ pending (pcbs s) (kbufs s) w \<and> kbufs s' = kbufs s
    \<and> pcbs s w = Some c \<and> pcbs s' = (pcbs s)(w \<mapsto> written c) \<and> Q' ReadyQ = Some (ys @ [QueueNode w])"
proof -
  let ?pe = "pending (pcbs s) (kbufs s) w"
  obtain c pp' k where f: "pcbs s w = Some c" "k = min (plen H - length (contents H pp)) (length ?pe)"
    "fill_loop H (buf_get (pipe_buffer c) s) (pipe_len c) pp (write_loc c) = Some (pp', write_loc c + int k)"
    "pipe_ok H pp'" "contents H pp' = contents H pp @ take k ?pe" "int (length ?pe) = pipe_len c - write_loc c"
    using writer_fill [OF ps] by blast
  have k: "k = length ?pe" using f(2) fits by simp
  have q: "Q (PipeWriters p) = Some (QueueNode w # map QueueNode ws)" using psysD(6) [OF ps] by simp
  let ?Q = "Q(PipeWriters p \<mapsto> map QueueNode ws, ReadyQ \<mapsto> ys @ [QueueNode w])"
  have wr: "state (written c) = PROCESS_READY" by (simp add: written_def)
  obtain h1 h2 where h: "pop H (Some (PipeWriters p)) (lists s) = Some (Some (Elem (QueueNode w)), h1)"
    "insert_tail (Some ReadyQ) (Some (Elem (QueueNode w))) h1 = Some h2"
    "sched_inv h2 ((pcbs s)(w \<mapsto> written c)) ?Q"
    using wake_ok [OF psysD(1) [OF ps] q _ r f(1) wr] by blast
  define s' where "s' = s\<lparr>pipes := (pipes s)(p \<mapsto> pp'), pcbs := (pcbs s)(w \<mapsto> written c), lists := h2\<rparr>"
  have fl: "fill_loop H (buf_get (pipe_buffer c) (s\<lparr>lists := h1\<rparr>)) (pipe_len c) pp (write_loc c)
      = Some (pp', pipe_len c)"
  proof -
    have "buf_get (pipe_buffer c) (s\<lparr>lists := h1\<rparr>) = buf_get (pipe_buffer c) s"
      by (intro ext) (simp add: buf_get_def)
    then show ?thesis using f(3,6) k by simp
  qed
  have "writers_step H p s = Some (Drain_Writers, s')"
    using h(1,2) f(1) fl psysD(3) [OF ps]
    by (simp add: writers_step_def upd_pipe_def upd_pcb_def add_to_ready_run s'_def written_def)
  moreover have "psys H s' ?Q p pp' rs ws"
  proof (rule psys_changeI [where s = s])
    fix q assume "q \<in> set rs \<union> set ws"
    then have "q \<noteq> w" using psysD(9) [OF ps] by auto
    then show "pcbs s' q = pcbs s q" by (simp add: s'_def)
  qed (use psysD [OF ps] h(3) f(4) in \<open>auto simp: s'_def\<close>)
  ultimately show ?thesis using f(1,5) k
    by (intro exI [of _ s'] exI [of _ ?Q] exI [of _ pp'] exI [of _ c]) (simp add: s'_def)
qed


text \<open>The writer taken from the front and put back there.\<close>

lemma requeue_front:
  assumes inv: "sched_inv h P Q" and q: "Q (PipeWriters p) = Some (QueueNode w # xs)" and c: "P w = Some c"
  shows "\<exists>h1 h2. pop H (Some (PipeWriters p)) h = Some (Some (Elem (QueueNode w)), h1)
    \<and> insert_head (Some (PipeWriters p)) (Some (Elem (QueueNode w))) h1 = Some h2 \<and> sched_inv h2 P Q"
proof -
  note ok = sched_invD(1) [OF inv]
  obtain h1 where h1: "pop H (Some (PipeWriters p)) h = Some (Some (Elem (QueueNode w)), h1)"
    "lists_ok h1 (Q(PipeWriters p \<mapsto> xs))" "\<forall>e. has_elem h1 e = has_elem h e"
    using pop_ok [OF ok q] by blast
  have nq: "QueueNode w \<notin> queued (Q(PipeWriters p \<mapsto> xs))"
    using qs.unqueued_after_removal [OF ok q, of "QueueNode w" xs] lists_ok_distinct [OF ok q] by auto
  have he: "has_elem h1 (QueueNode w)" using h1(3) sched_invD(6) [OF inv c] by simp
  obtain h2 where h2: "insert_head (Some (PipeWriters p)) (Some (Elem (QueueNode w))) h1 = Some h2"
    "lists_ok h2 (Q(PipeWriters p \<mapsto> xs, PipeWriters p \<mapsto> QueueNode w # xs))" "\<forall>e. has_elem h2 e = has_elem h1 e"
    using insert_head_ok [OF h1(2) fun_upd_same nq he] by blast
  have "Q(PipeWriters p \<mapsto> xs, PipeWriters p \<mapsto> QueueNode w # xs) = Q" using q by (auto simp: fun_eq_iff)
  then have "sched_inv h2 P Q" by (intro sched_inv_lists [OF inv]) (use h2 h1(3) in auto)
  then show ?thesis using h1(1) h2(1) by blast
qed

text \<open>A writer that has come further in its buffer still waits in the pipe.\<close>

lemma psys_write_loc:
  assumes ps: "psys H s Q p pp rs (w # ws)" and c: "pcbs s w = Some c" and d: "0 \<le> d" "d < pipe_len c"
    and h: "sched_inv h (pcbs s) Q" and pp: "pipe_ok H pp'"
    and s': "s' = s\<lparr>pipes := (pipes s)(p \<mapsto> pp'), pcbs := (pcbs s)(w \<mapsto> c\<lparr>write_loc := d\<rparr>), lists := h\<rparr>"
  shows "psys H s' Q p pp' rs (w # ws)"
proof -
  have si: "sched_inv h ((pcbs s)(w \<mapsto> c\<lparr>write_loc := d\<rparr>)) Q"
    by (rule sched_inv_same_state [where P = "pcbs s" and p = w and c = c]) (use h c in simp_all)
  have io: "waiting_io (pcbs s') (kbufs s') q" if "q \<in> set rs \<union> set (w # ws)" for q
  proof (cases "q = w")
    case True
    then show ?thesis using psysD(7) [OF ps that] c by (auto simp: waiting_io_def s')
  next
    case False
    then show ?thesis using psysD(7) [OF ps that] same_io(1) [of "pcbs s'" q "pcbs s" "kbufs s'" "kbufs s"]
      by (simp add: s')
  qed
  have wr: "writer_ok (pcbs s') v" if "v \<in> set (w # ws)" for v
    using psysD(8) [OF ps that] d by (cases "v = w") (simp_all add: writer_ok_def s')
  have bp: "bufp (pcbs s') = bufp (pcbs s)" using c by (auto simp: bufp_def s' fun_eq_iff)
  show ?thesis
    unfolding psys_def pcb_ok_def
  proof (intro conjI ballI)
    show "distinct (map (bufp (pcbs s')) (rs @ w # ws))" unfolding bp by (rule psysD(9) [OF ps])
  qed (use io wr si pp psysD(5,6) [OF ps] in \<open>simp_all add: s'\<close>)
qed

text \<open>
  A writer with more bytes than there is room for fills the buffer and goes back to the
  front of the line.
\<close>

lemma writers_step_partial:
  assumes ps: "psys H s Q p pp rs (w # ws)"
    and more: "plen H < length (contents H pp) + length (pending (pcbs s) (kbufs s) w)"
  shows "\<exists>s' pp' c d. writers_step H p s = Some (if rs \<noteq> [] then Drain_Readers else Drain_Stop, s')
    \<and> psys H s' Q p pp' rs (w # ws) \<and> length (contents H pp') = plen H \<and> kbufs s' = kbufs s
    \<and> contents H pp' @ pending (pcbs s') (kbufs s') w = contents H pp @ pending (pcbs s) (kbufs s) w
    \<and> pcbs s w = Some c \<and> pcbs s' = (pcbs s)(w \<mapsto> c\<lparr>write_loc := d\<rparr>)"
proof -
  let ?pe = "pending (pcbs s) (kbufs s) w"
  obtain c pp' k where f: "pcbs s w = Some c" "k = min (plen H - length (contents H pp)) (length ?pe)"
    "fill_loop H (buf_get (pipe_buffer c) s) (pipe_len c) pp (write_loc c) = Some (pp', write_loc c + int k)"
    "pipe_ok H pp'" "contents H pp' = contents H pp @ take k ?pe" "int (length ?pe) = pipe_len c - write_loc c"
    "0 \<le> write_loc c" "write_loc c < pipe_len c"
    using writer_fill [OF ps] by blast
  have cb: "length (contents H pp) \<le> plen H" using contents_bound [OF psysD(4) [OF ps]] .
  have k: "k = plen H - length (contents H pp)" "k < length ?pe" using f(2) more cb by auto
  have q: "Q (PipeWriters p) = Some (QueueNode w # map QueueNode ws)" using psysD(6) [OF ps] by simp
  obtain h1 h2 where h: "pop H (Some (PipeWriters p)) (lists s) = Some (Some (Elem (QueueNode w)), h1)"
    "insert_head (Some (PipeWriters p)) (Some (Elem (QueueNode w))) h1 = Some h2" "sched_inv h2 (pcbs s) Q"
    using requeue_front [OF psysD(1) [OF ps] q f(1), of H] by blast
  let ?d = "write_loc c + int k"
  define s' where "s' = s\<lparr>pipes := (pipes s)(p \<mapsto> pp'), pcbs := (pcbs s)(w \<mapsto> c\<lparr>write_loc := ?d\<rparr>), lists := h2\<rparr>"
  have cp: "length (contents H pp') = plen H" using f(5) k cb by simp
  have ne: "contents H pp' \<noteq> []" using cp psysD(4) [OF ps] by (auto simp: pipe_ok_def plen_def)
  have dl: "0 \<le> ?d" "?d < pipe_len c" using f(6,7) k(2) by linarith+
  have "waiting_io (pcbs s) (kbufs s) w" using psysD(7) [OF ps, of w] by simp
  then have pend: "pending (pcbs s') (kbufs s') w = drop k ?pe"
    using f(1,7) by (auto simp: waiting_io_def pending_def s'_def nat_add_distrib add.commute)
  have ps': "psys H s' Q p pp' rs (w # ws)" by (rule psys_write_loc [OF ps f(1) dl h(3) f(4) s'_def])
  have "buf_get (pipe_buffer c) (s\<lparr>lists := h1\<rparr>) = buf_get (pipe_buffer c) s" by (intro ext) (simp add: buf_get_def)
  then have "writers_step H p s = writers_exit p s'"
    using h(1,2) f(1,3) psysD(3) [OF ps] dl
    by (simp add: writers_step_def upd_pipe_def upd_pcb_def on_lists_def s'_def)
  then have "writers_step H p s = Some (if rs \<noteq> [] then Drain_Readers else Drain_Stop, s')"
    using writers_exit_ok [OF ps'] ne by simp
  then show ?thesis using ps' cp pend f(1,5)
    by (intro exI [of _ s'] exI [of _ pp'] exI [of _ c] exI [of _ ?d]) (simp add: s'_def)
qed

section \<open>One reader\<close>

definition served :: "int \<Rightarrow> pcb \<Rightarrow> pcb" where
  "served n c = c\<lparr>user_context := set_reg 0 (word_of_int n) (user_context c), waiting_pipe_id := -1,
     state := PROCESS_READY\<rparr>"

lemma readers_step_stop:
  assumes ps: "psys H s Q p pp rs ws" and none: "contents H pp = [] \<or> rs = []"
  shows "readers_step H p s
    = Some (if length (contents H pp) < plen H \<and> rs \<noteq> [] then Drain_Writers else Drain_Stop, s)"
proof (cases "contents H pp = []")
  case True
  then show ?thesis using readers_exit_ok [OF ps] psysD(3) [OF ps] bytes_simps(2) [OF psysD(4) [OF ps]]
    by (simp add: readers_step_def)
next
  case False
  then have rs: "rs = []" using none by blast
  have "pop H (Some (PipeReaders p)) (lists s) = Some (None, lists s)"
    using pop_empty_ok [OF psysD(2) [OF ps]] psysD(5) [OF ps] rs by simp
  then show ?thesis using readers_exit_ok [OF ps] psysD(3) [OF ps] bytes_simps(2) [OF psysD(4) [OF ps]] False
    by (simp add: readers_step_def)
qed

text \<open>The copy to the reader's buffer: the first bytes of the pipe replace its front.\<close>

lemma copy_out_ok:
  assumes "pipes s p = Some pp" "pipe_ok H pp" "kbufs s b = Some bs" "n \<le> length (contents H pp)" "n \<le> length bs"
  shows "\<exists>pp'. copy_out H 1 p (Some b) (int n) s
      = Some (s\<lparr>pipes := (pipes s)(p \<mapsto> pp'), kbufs := (kbufs s)(b \<mapsto> take n (contents H pp) @ drop n bs)\<rparr>)
    \<and> pipe_ok H pp' \<and> contents H pp' = drop n (contents H pp)"
proof (cases "n = 0")
  case True
  have "s = s\<lparr>pipes := (pipes s)(p \<mapsto> pp), kbufs := (kbufs s)(b \<mapsto> bs)\<rparr>" using assms(1,3) by (simp add: fun_upd_idem)
  then show ?thesis using True assms(2) by (intro exI [of _ pp]) (simp add: copy_out_def)
next
  case False
  obtain pp' where pp': "take_loop H 1 0 n pp bs = Some (pp', take n (contents H pp) @ drop n bs)"
    "pipe_ok H pp'" "contents H pp' = drop n (contents H pp)"
    using take_loop_ok [OF assms(2,4), of 0 bs] assms(5) by auto
  then show ?thesis using False assms(1,3) by (intro exI [of _ pp']) (simp add: copy_out_def)
qed

lemma readers_step_serve:
  assumes ps: "psys H s Q p pp (r # rs) ws" and ne: "contents H pp \<noteq> []" and y: "Q ReadyQ = Some ys"
  shows "\<exists>s' Q' pp' c b bs n. readers_step H p s = Some (Drain_Readers, s') \<and> psys H s' Q' p pp' rs ws
    \<and> pcbs s r = Some c \<and> pipe_buffer c = Some b \<and> kbufs s b = Some bs
    \<and> n = min (nat (pipe_len c)) (length (contents H pp)) \<and> contents H pp' = drop n (contents H pp)
    \<and> kbufs s' = (kbufs s)(b \<mapsto> take n (contents H pp) @ drop n bs)
    \<and> pcbs s' = (pcbs s)(r \<mapsto> served (int n) c) \<and> Q' ReadyQ = Some (ys @ [QueueNode r])
    \<and> map (pending (pcbs s') (kbufs s')) ws = map (pending (pcbs s) (kbufs s)) ws"
proof -
  have rio: "waiting_io (pcbs s) (kbufs s) r" using psysD(7) [OF ps, of r] by simp
  obtain c b bs where c: "pcbs s r = Some c" "pipe_buffer c = Some b" "kbufs s b = Some bs"
    "0 \<le> pipe_len c" "nat (pipe_len c) \<le> length bs" using rio by (auto simp: waiting_io_def)
  define n where "n = min (nat (pipe_len c)) (length (contents H pp))"
  have q: "Q (PipeReaders p) = Some (QueueNode r # map QueueNode rs)" using psysD(5) [OF ps] by simp
  let ?Q = "Q(PipeReaders p \<mapsto> map QueueNode rs, ReadyQ \<mapsto> ys @ [QueueNode r])"
  have sr: "state (served (int n) c) = PROCESS_READY" by (simp add: served_def)
  obtain h1 h2 where h: "pop H (Some (PipeReaders p)) (lists s) = Some (Some (Elem (QueueNode r)), h1)"
    "insert_tail (Some ReadyQ) (Some (Elem (QueueNode r))) h1 = Some h2"
    "sched_inv h2 ((pcbs s)(r \<mapsto> served (int n) c)) ?Q"
    using wake_ok [OF psysD(1) [OF ps] q _ y c(1) sr] by blast
  have pp: "pipes (s\<lparr>lists := h1\<rparr>) p = Some pp" "kbufs (s\<lparr>lists := h1\<rparr>) b = Some bs"
    using psysD(3) [OF ps] c(3) by simp_all
  have n: "n \<le> length (contents H pp)" "n \<le> length bs" using c(5) by (simp_all add: n_def)
  obtain pp' where pp': "copy_out H 1 p (Some b) (int n) (s\<lparr>lists := h1\<rparr>)
      = Some (s\<lparr>lists := h1, pipes := (pipes s)(p \<mapsto> pp'), kbufs := (kbufs s)(b \<mapsto> take n (contents H pp) @ drop n bs)\<rparr>)"
    "pipe_ok H pp'" "contents H pp' = drop n (contents H pp)"
    using copy_out_ok [OF pp(1) psysD(4) [OF ps] pp(2) n] by auto
  define s' where "s' = s\<lparr>lists := h1, pipes := (pipes s)(p \<mapsto> pp'),
     kbufs := (kbufs s)(b \<mapsto> take n (contents H pp) @ drop n bs),
     pcbs := (pcbs s)(r \<mapsto> served (int n) c), lists := h2\<rparr>"
  have tr: "(if pipe_len c < bytes_in_buffer pp then pipe_len c else bytes_in_buffer pp) = int n"
    using c(4) contents_length [OF psysD(4) [OF ps]] by (auto simp: n_def)
  have "readers_step H p s = Some (Drain_Readers, s')"
    using h(1,2) c(1,2) pp'(1) psysD(3) [OF ps] bytes_simps(2) [OF psysD(4) [OF ps]] ne
    by (simp add: readers_step_def tr upd_pcb_def add_to_ready_run s'_def served_def)
  moreover have frame: "pcbs s' q = pcbs s q \<and> (\<forall>b'. bufp (pcbs s) q = Some b' \<longrightarrow> kbufs s' b' = kbufs s b')"
    if "q \<in> set rs \<union> set ws" for q
  proof -
    have "bufp (pcbs s) r \<noteq> bufp (pcbs s) q" "q \<noteq> r" using psysD(9) [OF ps] that by auto
    moreover have "bufp (pcbs s) r = Some b" using c by (simp add: bufp_def)
    ultimately show ?thesis by (auto simp: s'_def)
  qed
  have "psys H s' ?Q p pp' rs ws"
    by (rule psys_changeI [where s = s]) (use psysD [OF ps] h(3) pp'(2) frame in \<open>auto simp: s'_def\<close>)
  moreover have "map (pending (pcbs s') (kbufs s')) ws = map (pending (pcbs s) (kbufs s)) ws"
    by (rule map_cong [OF refl]) (use frame same_io(3) in blast)
  ultimately show ?thesis using c n_def pp'(3)
    by (intro exI [of _ s'] exI [of _ ?Q] exI [of _ pp'] exI [of _ c] exI [of _ b] exI [of _ bs] exI [of _ n])
       (simp add: s'_def)
qed


section \<open>Draining as a whole\<close>

text \<open>The reader \<open>r\<close>, blocked in \<open>s\<close>, was given the bytes \<open>d\<close> on the way to \<open>s'\<close>.\<close>

definition delivered :: "'a sstate_scheme \<Rightarrow> 'a sstate_scheme \<Rightarrow> pcb_ptr \<Rightarrow> u8 list \<Rightarrow> bool" where
  "delivered s s' r d \<longleftrightarrow> (\<exists>c b bs. pcbs s r = Some c \<and> pipe_buffer c = Some b \<and> kbufs s b = Some bs
     \<and> length d \<le> nat (pipe_len c) \<and> pcbs s' r = Some (served (int (length d)) c)
     \<and> kbufs s' b = Some (d @ drop (length d) bs))"

text \<open>
  From \<open>s\<close> to \<open>s'\<close> the first readers got the bytes \<open>ds\<close>, the first writers finished, and no
  byte was lost, invented or moved out of order; everybody else is as before.
\<close>

definition drained ::
  "hw \<Rightarrow> 'a sstate_scheme \<Rightarrow> 'a sstate_scheme \<Rightarrow> pipe \<Rightarrow> pipe \<Rightarrow> pcb_ptr list \<Rightarrow> pcb_ptr list
     \<Rightarrow> pcb_ptr list \<Rightarrow> pcb_ptr list \<Rightarrow> u8 list list \<Rightarrow> bool" where
  "drained H s s' pp pp' rs rs2 ws ws2 ds \<longleftrightarrow> (\<exists>rs1 ws1. rs = rs1 @ rs2 \<and> ws = ws1 @ ws2
     \<and> list_all2 (delivered s s') rs1 ds \<and> stream H s pp ws = concat ds @ stream H s' pp' ws2
     \<and> (\<forall>w \<in> set ws1. \<exists>c. pcbs s w = Some c \<and> pcbs s' w = Some (written c))
     \<and> (\<forall>w \<in> set ws2. \<exists>c d. pcbs s w = Some c \<and> pcbs s' w = Some (c\<lparr>write_loc := d\<rparr>))
     \<and> (\<forall>q. q \<notin> set rs1 \<union> set ws \<longrightarrow> pcbs s' q = pcbs s q)
     \<and> (\<forall>b. (\<forall>r \<in> set rs1. bufp (pcbs s) r \<noteq> Some b) \<longrightarrow> kbufs s' b = kbufs s b))"

lemma drained_refl:
  assumes ps: "psys H s Q p pp rs ws"
  shows "drained H s s pp pp rs rs ws ws []"
proof -
  have "\<exists>c d. pcbs s w = Some c \<and> pcbs s w = Some (c\<lparr>write_loc := d\<rparr>)" if w: "w \<in> set ws" for w
  proof -
    obtain c where c: "pcbs s w = Some c" using psysD(8) [OF ps w] by (auto simp: writer_ok_def)
    have "c = c\<lparr>write_loc := write_loc c\<rparr>" by simp
    with c show ?thesis by metis
  qed
  then show ?thesis unfolding drained_def by (intro exI [of _ "[]"]) simp
qed

lemma written_written_loc: "written (c\<lparr>write_loc := d\<rparr>) = written c"
  by (simp add: written_def)

lemma drained_done:
  assumes ps: "psys H s Q p pp rs (w # ws)" and c: "pcbs s w = Some c"
    and st: "pcbs s1 = (pcbs s)(w \<mapsto> written c)" "kbufs s1 = kbufs s"
      "contents H pp1 = contents H pp @ pending (pcbs s) (kbufs s) w"
    and d: "drained H s1 s' pp1 pp' rs rs2 ws ws2 ds"
  shows "drained H s s' pp pp' rs rs2 (w # ws) ws2 ds"
proof -
  obtain rs1 ws1 where r: "rs = rs1 @ rs2" "ws = ws1 @ ws2" "list_all2 (delivered s1 s') rs1 ds"
    "stream H s1 pp1 ws = concat ds @ stream H s' pp' ws2"
    "\<forall>v \<in> set ws1. \<exists>c. pcbs s1 v = Some c \<and> pcbs s' v = Some (written c)"
    "\<forall>v \<in> set ws2. \<exists>c d. pcbs s1 v = Some c \<and> pcbs s' v = Some (c\<lparr>write_loc := d\<rparr>)"
    "\<forall>q. q \<notin> set rs1 \<union> set ws \<longrightarrow> pcbs s' q = pcbs s1 q"
    "\<forall>b. (\<forall>r \<in> set rs1. bufp (pcbs s1) r \<noteq> Some b) \<longrightarrow> kbufs s' b = kbufs s1 b"
    using d unfolding drained_def by blast
  have nw: "q \<noteq> w" if "q \<in> set rs \<union> set ws" for q using psysD(9) [OF ps] that by auto
  have same: "pcbs s1 q = pcbs s q" if "q \<in> set rs \<union> set ws" for q using nw [OF that] st(1) by simp
  have dl: "list_all2 (delivered s s') rs1 ds"
  proof (rule list.rel_mono_strong [OF r(3)])
    fix q e assume "q \<in> set rs1" "delivered s1 s' q e"
    then show "delivered s s' q e" using same [of q] r(1) st(2) by (simp add: delivered_def)
  qed
  have pe: "map (pending (pcbs s1) (kbufs s1)) ws = map (pending (pcbs s) (kbufs s)) ws"
    by (rule map_cong [OF refl]) (use same st(2) in \<open>simp add: pending_def\<close>)
  have "stream H s pp (w # ws) = concat ds @ stream H s' pp' ws2"
    using r(4) st(3) unfolding stream_def pe by simp
  moreover have "w \<notin> set rs1 \<union> set ws" using nw [of w] r(1) by auto
  then have wr: "pcbs s' w = Some (written c)" using r(7) st(1) by simp
  moreover have "\<forall>b. (\<forall>r \<in> set rs1. bufp (pcbs s) r \<noteq> Some b) \<longrightarrow> kbufs s' b = kbufs s b"
    using r(8) same r(1) st(2) by (simp add: bufp_def)
  moreover have "\<forall>q. q \<notin> set rs1 \<union> set (w # ws) \<longrightarrow> pcbs s' q = pcbs s q" using r(7) st(1) by simp
  moreover have "\<forall>v \<in> set (w # ws1). \<exists>c. pcbs s v = Some c \<and> pcbs s' v = Some (written c)"
    using r(2,5) same c wr by auto
  moreover have "\<forall>v \<in> set ws2. \<exists>c d. pcbs s v = Some c \<and> pcbs s' v = Some (c\<lparr>write_loc := d\<rparr>)"
    using r(2,6) same by auto
  ultimately show ?thesis unfolding drained_def using r(1,2) dl
    by (intro exI [of _ rs1] exI [of _ "w # ws1"]) auto
qed

lemma drained_partial:
  assumes ps: "psys H s Q p pp rs (w # ws)" and c: "pcbs s w = Some c"
    and st: "pcbs s1 = (pcbs s)(w \<mapsto> c\<lparr>write_loc := l\<rparr>)" "kbufs s1 = kbufs s"
      "contents H pp1 @ pending (pcbs s1) (kbufs s1) w = contents H pp @ pending (pcbs s) (kbufs s) w"
    and d: "drained H s1 s' pp1 pp' rs rs2 (w # ws) ws2 ds"
  shows "drained H s s' pp pp' rs rs2 (w # ws) ws2 ds"
proof -
  obtain rs1 ws1 where r: "rs = rs1 @ rs2" "w # ws = ws1 @ ws2" "list_all2 (delivered s1 s') rs1 ds"
    "stream H s1 pp1 (w # ws) = concat ds @ stream H s' pp' ws2"
    "\<forall>v \<in> set ws1. \<exists>c. pcbs s1 v = Some c \<and> pcbs s' v = Some (written c)"
    "\<forall>v \<in> set ws2. \<exists>c d. pcbs s1 v = Some c \<and> pcbs s' v = Some (c\<lparr>write_loc := d\<rparr>)"
    "\<forall>q. q \<notin> set rs1 \<union> set (w # ws) \<longrightarrow> pcbs s' q = pcbs s1 q"
    "\<forall>b. (\<forall>r \<in> set rs1. bufp (pcbs s1) r \<noteq> Some b) \<longrightarrow> kbufs s' b = kbufs s1 b"
    using d unfolding drained_def by blast
  have nw: "q \<noteq> w" if "q \<in> set rs \<union> set ws" for q using psysD(9) [OF ps] that by auto
  have same: "pcbs s1 q = pcbs s q" if "q \<in> set rs \<union> set ws" for q using nw [OF that] st(1) by simp
  have dl: "list_all2 (delivered s s') rs1 ds"
  proof (rule list.rel_mono_strong [OF r(3)])
    fix q e assume "q \<in> set rs1" "delivered s1 s' q e"
    then show "delivered s s' q e" using same [of q] r(1) st(2) by (simp add: delivered_def)
  qed
  have pe: "map (pending (pcbs s1) (kbufs s1)) ws = map (pending (pcbs s) (kbufs s)) ws"
    by (rule map_cong [OF refl]) (use same st(2) in \<open>simp add: pending_def\<close>)
  have "stream H s pp (w # ws) = stream H s1 pp1 (w # ws)" using st(3) unfolding stream_def by (simp add: pe)
  moreover have "\<forall>b. (\<forall>r \<in> set rs1. bufp (pcbs s) r \<noteq> Some b) \<longrightarrow> kbufs s' b = kbufs s b"
    using r(8) same r(1) st(2) by (simp add: bufp_def)
  moreover have "\<forall>q. q \<notin> set rs1 \<union> set (w # ws) \<longrightarrow> pcbs s' q = pcbs s q" using r(7) st(1) by simp
  moreover have "\<exists>c. pcbs s v = Some c \<and> pcbs s' v = Some (written c)" if v: "v \<in> set ws1" for v
  proof -
    obtain c1 where c1: "pcbs s1 v = Some c1" "pcbs s' v = Some (written c1)" using r(5) v by blast
    show ?thesis
    proof (cases "v = w")
      case True
      then show ?thesis using c c1 st(1) by (auto simp: written_written_loc)
    next
      case False
      then show ?thesis using c1 st(1) by simp
    qed
  qed
  moreover have "\<exists>c d. pcbs s v = Some c \<and> pcbs s' v = Some (c\<lparr>write_loc := d\<rparr>)" if v: "v \<in> set ws2" for v
  proof -
    obtain c1 d1 where c1: "pcbs s1 v = Some c1" "pcbs s' v = Some (c1\<lparr>write_loc := d1\<rparr>)" using r(6) v by blast
    show ?thesis
    proof (cases "v = w")
      case True
      then show ?thesis using c c1 st(1) by auto
    next
      case False
      then show ?thesis using c1 st(1) by auto
    qed
  qed
  ultimately show ?thesis unfolding drained_def using r(1,2,4) dl
    by (intro exI [of _ rs1] exI [of _ ws1]) simp
qed

lemma drained_serve:
  assumes ps: "psys H s Q p pp (r # rs) ws" and c: "pcbs s r = Some c" "pipe_buffer c = Some b" "kbufs s b = Some bs"
    and n: "n = min (nat (pipe_len c)) (length (contents H pp))"
    and st: "pcbs s1 = (pcbs s)(r \<mapsto> served (int n) c)" "kbufs s1 = (kbufs s)(b \<mapsto> take n (contents H pp) @ drop n bs)"
      "contents H pp1 = drop n (contents H pp)"
      "map (pending (pcbs s1) (kbufs s1)) ws = map (pending (pcbs s) (kbufs s)) ws"
    and d: "drained H s1 s' pp1 pp' rs rs2 ws ws2 ds"
  shows "drained H s s' pp pp' (r # rs) rs2 ws ws2 (take n (contents H pp) # ds)"
proof -
  obtain rs1 ws1 where w: "rs = rs1 @ rs2" "ws = ws1 @ ws2" "list_all2 (delivered s1 s') rs1 ds"
    "stream H s1 pp1 ws = concat ds @ stream H s' pp' ws2"
    "\<forall>v \<in> set ws1. \<exists>c. pcbs s1 v = Some c \<and> pcbs s' v = Some (written c)"
    "\<forall>v \<in> set ws2. \<exists>c d. pcbs s1 v = Some c \<and> pcbs s' v = Some (c\<lparr>write_loc := d\<rparr>)"
    "\<forall>q. q \<notin> set rs1 \<union> set ws \<longrightarrow> pcbs s' q = pcbs s1 q"
    "\<forall>b. (\<forall>r \<in> set rs1. bufp (pcbs s1) r \<noteq> Some b) \<longrightarrow> kbufs s' b = kbufs s1 b"
    using d unfolding drained_def by blast
  have bpr: "bufp (pcbs s) r = Some b" using c by (simp add: bufp_def)
  have ne: "q \<noteq> r" "bufp (pcbs s) q \<noteq> Some b" if "q \<in> set rs \<union> set ws" for q
    using psysD(9) [OF ps] that bpr by (auto simp: image_iff)
  have same: "pcbs s1 q = pcbs s q" "bufp (pcbs s1) q = bufp (pcbs s) q" if "q \<in> set rs \<union> set ws" for q
    using ne [OF that] st(1) by (simp_all add: bufp_def)
  have dl: "list_all2 (delivered s s') rs1 ds"
  proof (rule list.rel_mono_strong [OF w(3)])
    fix q e assume q: "q \<in> set rs1" "delivered s1 s' q e"
    then have "q \<in> set rs \<union> set ws" using w(1) by simp
    then show "delivered s s' q e" using q(2) same(1) [of q] ne(2) [of q] st(2) by (auto simp: delivered_def bufp_def)
  qed
  have rn: "r \<notin> set rs1 \<union> set ws" using ne(1) w(1) by auto
  have bn: "\<forall>q \<in> set rs1. bufp (pcbs s1) q \<noteq> Some b" using same(2) ne(2) w(1) by auto
  have "length (take n (contents H pp)) = n" using n by simp
  then have dr: "delivered s s' r (take n (contents H pp))"
    using c w(7) rn w(8) bn st(1,2) n by (simp add: delivered_def)
  have "stream H s pp ws = take n (contents H pp) @ stream H s1 pp1 ws"
    unfolding stream_def st(3,4) by simp
  moreover have "\<forall>b'. (\<forall>q \<in> set (r # rs1). bufp (pcbs s) q \<noteq> Some b') \<longrightarrow> kbufs s' b' = kbufs s b'"
  proof (intro allI impI)
    fix b' assume a: "\<forall>q \<in> set (r # rs1). bufp (pcbs s) q \<noteq> Some b'"
    then have "\<forall>q \<in> set rs1. bufp (pcbs s1) q \<noteq> Some b'" "b' \<noteq> b" using same(2) w(1) bpr by auto
    then show "kbufs s' b' = kbufs s b'" using w(8) st(2) by simp
  qed
  moreover have "\<forall>q. q \<notin> set (r # rs1) \<union> set ws \<longrightarrow> pcbs s' q = pcbs s q" using w(7) st(1) by simp
  moreover have "\<forall>v \<in> set ws1. \<exists>c. pcbs s v = Some c \<and> pcbs s' v = Some (written c)"
    "\<forall>v \<in> set ws2. \<exists>c d. pcbs s v = Some c \<and> pcbs s' v = Some (c\<lparr>write_loc := d\<rparr>)"
    using w(2,5,6) same(1) by auto
  ultimately show ?thesis unfolding drained_def using w(1,2,4) dl dr
    by (intro exI [of _ "r # rs1"] exI [of _ ws1]) simp
qed


text \<open>The iterations end: each either takes a process off a list or leaves one mode for good.\<close>

definition drain_rank :: "hw \<Rightarrow> drain_mode \<Rightarrow> pipe \<Rightarrow> pcb_ptr list \<Rightarrow> pcb_ptr list \<Rightarrow> nat" where
  "drain_rank H m pp rs ws = 3 * (length rs + length ws) + (case m of Drain_Stop \<Rightarrow> 0 | Drain_Writers \<Rightarrow> 1
     | Drain_Readers \<Rightarrow> if contents H pp \<noteq> [] \<and> rs \<noteq> [] then 0 else 2)"

text \<open>No reader is left waiting while there are bytes it could have.\<close>

definition readers_served :: "hw \<Rightarrow> pipe \<Rightarrow> pcb_ptr list \<Rightarrow> pcb_ptr list \<Rightarrow> bool" where
  "readers_served H pp rs ws \<longleftrightarrow> rs = [] \<or> contents H pp = [] \<and> ws = []"

text \<open>No writer is left waiting while there is room.\<close>

definition writers_served :: "hw \<Rightarrow> pipe \<Rightarrow> pcb_ptr list \<Rightarrow> bool" where
  "writers_served H pp ws \<longleftrightarrow> ws = [] \<or> length (contents H pp) = plen H"

lemma drain_stop:
  assumes "psys H s Q p pp rs ws"
  shows "drain H p Drain_Stop s = Some s \<and> drained H s s pp pp rs rs ws ws []"
  using drained_refl [OF assms] by (simp add: drain.simps)

text \<open>
  One iteration: the loop goes on from a state of lower rank, and what the rest of the loop does
  from there it does, after this step, from here; \<open>ds\<close> is what this step delivers.
\<close>

definition drain_progress ::
  "hw \<Rightarrow> obj_ptr \<Rightarrow> drain_mode \<Rightarrow> 'a sstate_scheme \<Rightarrow> pipe \<Rightarrow> pcb_ptr list \<Rightarrow> pcb_ptr list \<Rightarrow>
   drain_mode \<Rightarrow> 'a sstate_scheme \<Rightarrow> ghost \<Rightarrow> pipe \<Rightarrow> pcb_ptr list \<Rightarrow> pcb_ptr list \<Rightarrow> u8 list list \<Rightarrow> bool" where
  "drain_progress H p m s pp rs ws m1 s1 Q1 pp1 rs1 ws1 es \<longleftrightarrow> drain H p m s = drain H p m1 s1 \<and> psys H s1 Q1 p pp1 rs1 ws1
     \<and> drain_rank H m1 pp1 rs1 ws1 < drain_rank H m pp rs ws \<and> (m1 = Drain_Stop \<longrightarrow> readers_served H pp1 rs1 ws1)
     \<and> (rs = [] \<and> m = Drain_Writers \<longrightarrow> rs1 = [] \<and> m1 \<noteq> Drain_Readers \<and> (m1 = Drain_Stop \<longrightarrow> writers_served H pp1 ws1))
     \<and> (\<forall>s' pp' rs2 ws2 ds. drained H s1 s' pp1 pp' rs1 rs2 ws1 ws2 ds \<longrightarrow> drained H s s' pp pp' rs rs2 ws ws2 (es @ ds))"

lemma drain_writers_progress:
  assumes ps: "psys H s Q p pp rs ws"
  shows "\<exists>m1 s1 Q1 pp1 rs1 ws1 es. drain_progress H p Drain_Writers s pp rs ws m1 s1 Q1 pp1 rs1 ws1 es"
proof (cases ws)
  case Nil
  have "drain_progress H p Drain_Writers s pp rs ws (if contents H pp \<noteq> [] \<and> rs \<noteq> [] then Drain_Readers else Drain_Stop) s Q pp rs ws []"
    using writers_step_empty [of H s Q p pp rs] ps Nil
    by (auto simp: drain_progress_def drain.simps [of H p Drain_Writers] drain_rank_def readers_served_def writers_served_def)
  then show ?thesis by blast
next
  case (Cons v vs)
  note ps' = ps [unfolded Cons]
  obtain ys where ys: "Q ReadyQ = Some ys" by (rule psys_ready [OF ps])
  show ?thesis
  proof (cases "length (contents H pp) + length (pending (pcbs s) (kbufs s) v) \<le> plen H")
    case True
    obtain s1 Q1 pp1 c where s1: "writers_step H p s = Some (Drain_Writers, s1)" "psys H s1 Q1 p pp1 rs vs"
      "contents H pp1 = contents H pp @ pending (pcbs s) (kbufs s) v" "kbufs s1 = kbufs s"
      "pcbs s v = Some c" "pcbs s1 = (pcbs s)(v \<mapsto> written c)"
      using writers_step_done [OF ps' ys True] by blast
    have "drain_progress H p Drain_Writers s pp rs ws Drain_Writers s1 Q1 pp1 rs vs []"
      using s1(1,2) drained_done [OF ps' s1(5,6,4,3)]
      by (simp add: drain_progress_def Cons drain.simps [of H p Drain_Writers s] drain_rank_def)
    then show ?thesis by blast
  next
    case False
    then have more: "plen H < length (contents H pp) + length (pending (pcbs s) (kbufs s) v)" by simp
    let ?m = "if rs \<noteq> [] then Drain_Readers else Drain_Stop"
    obtain s1 pp1 c d where s1: "writers_step H p s = Some (?m, s1)" "psys H s1 Q p pp1 rs (v # vs)"
      "length (contents H pp1) = plen H" "kbufs s1 = kbufs s"
      "contents H pp1 @ pending (pcbs s1) (kbufs s1) v = contents H pp @ pending (pcbs s) (kbufs s) v"
      "pcbs s v = Some c" "pcbs s1 = (pcbs s)(v \<mapsto> c\<lparr>write_loc := d\<rparr>)"
      using writers_step_partial [OF ps' more] by blast
    have "0 < plen H" using psysD(4) [OF ps] by (simp add: pipe_ok_def plen_def)
    then have ne: "contents H pp1 \<noteq> []" using s1(3) by auto
    have "drain_progress H p Drain_Writers s pp rs ws ?m s1 Q pp1 rs (v # vs) []"
      using s1(1-3) ne drained_partial [OF ps' s1(6,7,4,5)]
      by (simp add: drain_progress_def Cons drain.simps [of H p Drain_Writers s] drain_rank_def readers_served_def
          writers_served_def)
    then show ?thesis by blast
  qed
qed

lemma drain_readers_progress:
  assumes ps: "psys H s Q p pp rs ws"
  shows "\<exists>m1 s1 Q1 pp1 rs1 ws1 es. drain_progress H p Drain_Readers s pp rs ws m1 s1 Q1 pp1 rs1 ws1 es"
proof (cases "contents H pp = [] \<or> rs = []")
  case True
  have "0 < plen H" using psysD(4) [OF ps] by (simp add: pipe_ok_def plen_def)
  then have "drain_progress H p Drain_Readers s pp rs ws
      (if length (contents H pp) < plen H \<and> rs \<noteq> [] then Drain_Writers else Drain_Stop) s Q pp rs ws []"
    using readers_step_stop [OF ps True] ps True
    by (auto simp: drain_progress_def drain.simps [of H p Drain_Readers] drain_rank_def readers_served_def)
  then show ?thesis by blast
next
  case False
  then obtain q qs where rs: "rs = q # qs" and c: "contents H pp \<noteq> []" by (cases rs) auto
  obtain ys where ys: "Q ReadyQ = Some ys" by (rule psys_ready [OF ps])
  note ps' = ps [unfolded rs]
  obtain s1 Q1 pp1 c b bs n where s1: "readers_step H p s = Some (Drain_Readers, s1)" "psys H s1 Q1 p pp1 qs ws"
    "pcbs s q = Some c" "pipe_buffer c = Some b" "kbufs s b = Some bs"
    "n = min (nat (pipe_len c)) (length (contents H pp))" "contents H pp1 = drop n (contents H pp)"
    "kbufs s1 = (kbufs s)(b \<mapsto> take n (contents H pp) @ drop n bs)" "pcbs s1 = (pcbs s)(q \<mapsto> served (int n) c)"
    "map (pending (pcbs s1) (kbufs s1)) ws = map (pending (pcbs s) (kbufs s)) ws"
    using readers_step_serve [OF ps' c ys] by blast
  have "drain_progress H p Drain_Readers s pp rs ws Drain_Readers s1 Q1 pp1 qs ws [take n (contents H pp)]"
    using s1(1,2) c drained_serve [OF ps' s1(3-6,9,8,7,10)]
    by (simp add: drain_progress_def rs drain.simps [of H p Drain_Readers s] drain_rank_def)
  then show ?thesis by blast
qed

lemma drain_ok:
  assumes "psys H s Q p pp rs ws" "m = Drain_Stop \<longrightarrow> readers_served H pp rs ws"
  shows "\<exists>s' Q' pp' rs2 ws2 ds. drain H p m s = Some s' \<and> psys H s' Q' p pp' rs2 ws2
    \<and> drained H s s' pp pp' rs rs2 ws ws2 ds \<and> readers_served H pp' rs2 ws2
    \<and> (rs = [] \<and> (m = Drain_Writers \<or> m = Drain_Stop \<and> writers_served H pp ws) \<longrightarrow> writers_served H pp' ws2)"
  using assms
proof (induction "drain_rank H m pp rs ws" arbitrary: m s Q pp rs ws rule: less_induct)
  case less
  show ?case
  proof (cases "m = Drain_Stop")
    case True
    then show ?thesis using drain_stop [OF less.prems(1)] less.prems by blast
  next
    case False
    then obtain m1 s1 Q1 pp1 rs1 ws1 es where g: "drain_progress H p m s pp rs ws m1 s1 Q1 pp1 rs1 ws1 es"
      using drain_writers_progress [OF less.prems(1)] drain_readers_progress [OF less.prems(1)] by (cases m) blast+
    note g = g [unfolded drain_progress_def]
    have lower: "drain_rank H m1 pp1 rs1 ws1 < drain_rank H m pp rs ws" "psys H s1 Q1 p pp1 rs1 ws1"
      "m1 = Drain_Stop \<longrightarrow> readers_served H pp1 rs1 ws1"
      using g by blast+
    obtain s' Q' pp' rs2 ws2 ds where d: "drain H p m1 s1 = Some s'" "psys H s' Q' p pp' rs2 ws2"
      "drained H s1 s' pp1 pp' rs1 rs2 ws1 ws2 ds" "readers_served H pp' rs2 ws2"
      "rs1 = [] \<and> (m1 = Drain_Writers \<or> m1 = Drain_Stop \<and> writers_served H pp1 ws1) \<longrightarrow> writers_served H pp' ws2"
      using less.hyps [OF lower] by (elim exE conjE) (rule that)
    have "drained H s s' pp pp' rs rs2 ws ws2 (es @ ds)" using g d(3) by blast
    moreover have "rs = [] \<and> (m = Drain_Writers \<or> m = Drain_Stop \<and> writers_served H pp ws) \<longrightarrow> writers_served H pp' ws2"
      using g d(5) False by (cases m1) auto
    moreover have "drain H p m s = Some s'" using g d(1) by simp
    ultimately show ?thesis using d(2,4) by blast
  qed
qed

end
