(* ===== verification/Pipe_Props.thy ===== *)
theory Pipe_Props
  imports Pipe_Drain
begin

text \<open>
  Reading from and writing to a pipe: the two entry points, their properties as operations
  on the stream of bytes, and where the code lets go of a writer it should have resumed.
\<close>

section \<open>Finding the pipe\<close>

definition names_pipe :: "hw \<Rightarrow> 'a sstate_scheme \<Rightarrow> int \<Rightarrow> obj_ptr \<Rightarrow> bool" where
  "names_pipe H s i p \<longleftrightarrow> (\<exists>n. GetCheckSync H i PIPE s = Some (SUCCESS H, Some n)
     \<and> sync_object (Some n) s = Some (U_Pipe (Some p)))"

text \<open>The running process: on no list, and the buffer of its call is used by no waiting one.\<close>

definition caller_ok ::
  "'a sstate_scheme \<Rightarrow> pcb_ptr \<Rightarrow> pcb \<Rightarrow> buf_ptr \<Rightarrow> u8 list \<Rightarrow> int \<Rightarrow> pcb_ptr list \<Rightarrow> pcb_ptr list \<Rightarrow> bool" where
  "caller_ok s q c b bs len rs ws \<longleftrightarrow> current_process s = Some q \<and> pcbs s q = Some c \<and> idle_state (state c)
     \<and> kbufs s b = Some bs \<and> 0 \<le> len \<and> nat len \<le> length bs
     \<and> (\<forall>x \<in> set rs \<union> set ws. bufp (pcbs s) x \<noteq> Some b)"

lemma caller_okD:
  assumes "caller_ok s q c b bs len rs ws"
  shows "current_process s = Some q" "pcbs s q = Some c" "idle_state (state c)" "kbufs s b = Some bs"
    "0 \<le> len" "nat len \<le> length bs" "x \<in> set rs \<union> set ws \<Longrightarrow> bufp (pcbs s) x \<noteq> Some b"
  using assms by (auto simp: caller_ok_def)

lemma caller_buffer: "caller_ok s q c b bs len rs ws \<Longrightarrow> Some b \<notin> bufp (pcbs s) ` (set rs \<union> set ws)"
  by (metis imageE caller_okD(7))

lemma caller_not_waiting:
  assumes ps: "psys H s Q p pp rs ws" and c: "caller_ok s q c b bs len rs ws"
  shows "q \<notin> set rs \<union> set ws" "QueueNode q \<notin> queued Q" "has_elem (lists s) (QueueNode q)"
proof -
  show nq: "QueueNode q \<notin> queued Q"
    using sched_inv_idle_unqueued [OF psysD(1) [OF ps] caller_okD(2,3) [OF c]] .
  show "q \<notin> set rs \<union> set ws"
    using nq queuedI [where Q = Q, OF psysD(5) [OF ps]] queuedI [where Q = Q, OF psysD(6) [OF ps]] by auto
  show "has_elem (lists s) (QueueNode q)" using sched_invD(6) [OF psysD(1) [OF ps] caller_okD(2) [OF c]] .
qed

section \<open>Reading\<close>

lemma copy_out_uncounted:
  assumes "pipes s p = Some pp" "pipe_ok H pp" "kbufs s b = Some bs" "n \<le> length (contents H pp)" "n \<le> length bs"
  shows "\<exists>pp'. copy_out H 0 p (Some b) (int n) s
      = Some (s\<lparr>pipes := (pipes s)(p \<mapsto> pp'\<lparr>bytes_in_buffer := bytes_in_buffer pp\<rparr>),
          kbufs := (kbufs s)(b \<mapsto> take n (contents H pp) @ drop n bs)\<rparr>)
    \<and> pipe_ok H pp' \<and> contents H pp' = drop n (contents H pp) \<and> bytes_in_buffer pp' = bytes_in_buffer pp - int n"
proof (cases "n = 0")
  case True
  have "s = s\<lparr>pipes := (pipes s)(p \<mapsto> pp), kbufs := (kbufs s)(b \<mapsto> bs)\<rparr>" using assms(1,3) by (simp add: fun_upd_idem)
  then show ?thesis using True assms(2) by (intro exI [of _ pp]) (simp add: copy_out_def)
next
  case False
  obtain pp' where pp': "take_loop H 1 0 n pp bs = Some (pp', take n (contents H pp) @ drop n bs)"
    "pipe_ok H pp'" "contents H pp' = drop n (contents H pp)"
    using take_loop_ok [OF assms(2,4), of 0 bs] assms(5) by auto
  have "take_loop H 0 0 n pp bs
      = Some (pp'\<lparr>bytes_in_buffer := bytes_in_buffer pp\<rparr>, take n (contents H pp) @ drop n bs)"
    using take_loop_uncounted [where H = H and i = 0 and n = n and pp = pp and m = "bytes_in_buffer pp" and dest = bs] pp'(1) by simp
  then show ?thesis using False assms(1,3) pp' take_loop_counts [OF pp'(1)]
    by (intro exI [of _ pp']) (simp add: copy_out_def)
qed

text \<open>The part before \<open>SyncDrainWriters\<close>, when there are bytes.\<close>

lemma read_prefix:
  assumes ps: "psys H s Q p pp rs ws" and ne: "contents H pp \<noteq> []" and c: "caller_ok s q c b bs len rs ws"
    and id: "names_pipe H s i p" and op: "open_for_read pp" and err: "ERROR H \<noteq> SUCCESS H"
    and n: "n = min (nat len) (length (contents H pp))"
  shows "\<exists>s1 pp1. SyncReadPipe H i (Some b) len s = map_option (Pair (SUCCESS H)) (SyncDrainWriters H p s1)
    \<and> psys H s1 Q p pp1 rs ws \<and> contents H pp1 = drop n (contents H pp)
    \<and> pcbs s1 = (pcbs s)(q \<mapsto> c\<lparr>user_context := set_reg 0 (word_of_int (int n)) (user_context c)\<rparr>)
    \<and> kbufs s1 = (kbufs s)(b \<mapsto> take n (contents H pp) @ drop n bs)"
proof -
  have le: "n \<le> length (contents H pp)" "n \<le> length bs" using n caller_okD(6) [OF c] by simp_all
  let ?c = "c\<lparr>user_context := set_reg 0 (word_of_int (int n)) (user_context c)\<rparr>"
  obtain pp1 where pp1: "copy_out H 0 p (Some b) (int n) s
      = Some (s\<lparr>pipes := (pipes s)(p \<mapsto> pp1\<lparr>bytes_in_buffer := bytes_in_buffer pp\<rparr>),
          kbufs := (kbufs s)(b \<mapsto> take n (contents H pp) @ drop n bs)\<rparr>)"
    "pipe_ok H pp1" "contents H pp1 = drop n (contents H pp)" "bytes_in_buffer pp1 = bytes_in_buffer pp - int n"
    using copy_out_uncounted [OF psysD(3,4) [OF ps] caller_okD(4) [OF c] le] by blast
  define s1 where "s1 = s\<lparr>kbufs := (kbufs s)(b \<mapsto> take n (contents H pp) @ drop n bs),
     pcbs := (pcbs s)(q \<mapsto> ?c), pipes := (pipes s)(p \<mapsto> pp1)\<rparr>"
  obtain m where m: "GetCheckSync H i PIPE s = Some (SUCCESS H, Some m)"
    "sync_object (Some m) s = Some (U_Pipe (Some p))" using id by (auto simp: names_pipe_def)
  have tr: "(if len < bytes_in_buffer pp then len else bytes_in_buffer pp) = int n"
    using caller_okD(5) [OF c] contents_length [OF psysD(4) [OF ps]] n by auto
  have "pp1\<lparr>bytes_in_buffer := bytes_in_buffer pp - int n\<rparr> = pp1" using pp1(4) by simp
  then have "SyncReadPipe H i (Some b) len s = map_option (Pair (SUCCESS H)) (SyncDrainWriters H p s1)"
    using m op err psysD(3) [OF ps] bytes_simps(1) [OF psysD(4) [OF ps]] ne pp1(1) caller_okD(1,2) [OF c]
    by (cases "SyncDrainWriters H p s1") (simp_all add: SyncReadPipe_def tr upd_pcb_def upd_pipe_def s1_def)
  moreover have "psys H s1 Q p pp1 rs ws"
  proof (rule psys_changeI [where s = s])
    have "sched_inv (lists s) ((pcbs s)(q \<mapsto> ?c)) Q"
      by (rule sched_inv_same_state [OF psysD(1) [OF ps] caller_okD(2) [OF c]]) simp
    then show "sched_inv (lists s1) (pcbs s1) Q" by (simp add: s1_def)
    fix x assume x: "x \<in> set rs \<union> set ws"
    then show "pcbs s1 x = pcbs s x" using caller_not_waiting(1) [OF ps c] by (auto simp: s1_def)
    fix b' assume "bufp (pcbs s) x = Some b'"
    then show "kbufs s1 b' = kbufs s b'" using caller_okD(7) [OF c x] by (auto simp: s1_def)
  qed (use psysD [OF ps] pp1(2) in \<open>auto simp: s1_def\<close>)
  ultimately show ?thesis using pp1(3) by (intro exI [of _ s1] exI [of _ pp1]) (simp add: s1_def)
qed


lemma delivered_cong:
  assumes d: "delivered s1 s' x e" and "pcbs s1 x = pcbs s x" "\<And>b. bufp (pcbs s) x = Some b \<Longrightarrow> kbufs s1 b = kbufs s b"
  shows "delivered s s' x e"
proof -
  obtain c b bs where c: "pcbs s1 x = Some c" "pipe_buffer c = Some b" "kbufs s1 b = Some bs"
    "length e \<le> nat (pipe_len c)" "pcbs s' x = Some (served (int (length e)) c)" "kbufs s' b = Some (e @ drop (length e) bs)"
    using d by (auto simp: delivered_def)
  moreover have px: "pcbs s x = Some c" using assms(2) c(1) by simp
  then have "bufp (pcbs s) x = Some b" using c(2) by (simp add: bufp_def)
  then have "kbufs s b = Some bs" using assms(3) c(3) by simp
  ultimately show ?thesis using px unfolding delivered_def by metis
qed

lemma drained_cong:
  assumes "drained H s1 s' pp1 pp' rs rs2 ws ws2 ds"
    and "\<And>x. x \<in> set rs \<union> set ws \<Longrightarrow> pcbs s1 x = pcbs s x"
      "\<And>x b. x \<in> set rs \<union> set ws \<Longrightarrow> bufp (pcbs s) x = Some b \<Longrightarrow> kbufs s1 b = kbufs s b"
  shows "\<exists>rs1 ws1. rs = rs1 @ rs2 \<and> ws = ws1 @ ws2 \<and> list_all2 (delivered s s') rs1 ds
    \<and> (\<forall>w \<in> set ws1. \<exists>y. pcbs s w = Some y \<and> pcbs s' w = Some (written y))
    \<and> (\<forall>q. q \<notin> set rs \<union> set ws \<longrightarrow> pcbs s' q = pcbs s1 q)
    \<and> (\<forall>b. (\<forall>x \<in> set rs \<union> set ws. bufp (pcbs s) x \<noteq> Some b) \<longrightarrow> kbufs s' b = kbufs s1 b)"
proof -
  obtain rs1 ws1 where r: "rs = rs1 @ rs2" "list_all2 (delivered s1 s') rs1 ds"
    "\<forall>q. q \<notin> set rs1 \<union> set ws \<longrightarrow> pcbs s' q = pcbs s1 q"
    "\<forall>b. (\<forall>r \<in> set rs1. bufp (pcbs s1) r \<noteq> Some b) \<longrightarrow> kbufs s' b = kbufs s1 b"
    "ws = ws1 @ ws2" "\<forall>w \<in> set ws1. \<exists>y. pcbs s1 w = Some y \<and> pcbs s' w = Some (written y)"
    using assms(1) unfolding drained_def by blast
  have "list_all2 (delivered s s') rs1 ds"
  proof (rule list.rel_mono_strong [OF r(2)])
    fix x e assume x: "x \<in> set rs1" "delivered s1 s' x e"
    then have m: "x \<in> set rs \<union> set ws" using r(1) by simp
    show "delivered s s' x e" by (rule delivered_cong [OF x(2) assms(2) [OF m] assms(3) [OF m]])
  qed
  moreover have "bufp (pcbs s1) x = bufp (pcbs s) x" if "x \<in> set rs1" for x
    using assms(2) [of x] that r(1) by (simp add: bufp_def)
  moreover have "\<forall>w \<in> set ws1. \<exists>y. pcbs s w = Some y \<and> pcbs s' w = Some (written y)"
    using r(5,6) assms(2) by simp
  ultimately show ?thesis using r(1,3-5) by (intro exI [of _ rs1] exI [of _ ws1]) auto
qed

text \<open>A process that has been resumed is in the ready queue.\<close>

lemma written_ready:
  assumes "psys H s Q p pp rs ws" "pcbs s w = Some (written y)"
  shows "in_q Q (QueueNode w) ReadyQ"
proof -
  have st: "state (written y) = PROCESS_READY" by (simp add: written_def)
  obtain l where "in_q Q (QueueNode w) l" "state_queues (state (written y)) l"
    using sched_inv_position [OF psysD(1) [OF assms(1)] assms(2)] st by (auto simp: idle_state_def)
  then show ?thesis using st by simp
qed

section \<open>Blocking\<close>

text \<open>A process joins the tail of a waiting list and is blocked.\<close>

lemma block_ok:
  assumes inv: "sched_inv (lists s) (pcbs s) Q" and q: "pcbs s q = Some c" "idle_state (state c)"
    and l: "Q l = Some xs" "state_queues PROCESS_BLOCKED l" and c': "state c' = PROCESS_BLOCKED"
  shows "\<exists>h'. insert_tail (Some l) (Some (Elem (QueueNode q))) (lists s) = Some h'
    \<and> sched_inv h' ((pcbs s)(q \<mapsto> c')) (Q(l \<mapsto> xs @ [QueueNode q]))"
proof -
  have ok: "lists_ok (lists s) Q" using sched_invD(1) [OF inv] .
  have nq: "QueueNode q \<notin> queued Q" using sched_inv_idle_unqueued [OF inv q] .
  have he: "has_elem (lists s) (QueueNode q)" using sched_invD(6) [OF inv q(1)] .
  obtain h' where h': "insert_tail (Some l) (Some (Elem (QueueNode q))) (lists s) = Some h'"
    "lists_ok h' (Q(l \<mapsto> xs @ [QueueNode q]))" "\<forall>e. has_elem h' e = has_elem (lists s) e"
    using insert_tail_ok [OF ok l(1) nq he] by blast
  have iq: "in_q (Q(l \<mapsto> xs @ [QueueNode q])) e l' \<longleftrightarrow> in_q Q e l' \<or> (e = QueueNode q \<and> l' = l)" for e l'
    using l(1) by (rule in_q_append)
  have "sched_inv h' ((pcbs s)(q \<mapsto> c')) (Q(l \<mapsto> xs @ [QueueNode q]))"
    by (rule sched_inv_change [OF inv h'(2) _ _ q(1)])
       (use h'(3) iq c' l(2) nq in \<open>auto simp: queued_in_q idle_state_def\<close>)
  with h'(1) show ?thesis by blast
qed

lemma read_blocks:
  assumes ps: "psys H s Q p pp rs ws" and e: "contents H pp = []" and c: "caller_ok s q c b bs len rs ws"
    and id: "names_pipe H s i p" and op: "open_for_read pp" and err: "ERROR H \<noteq> SUCCESS H"
  shows "\<exists>s' Q'. SyncReadPipe H i (Some b) len s = Some (PCB_BLOCKED, s') \<and> psys H s' Q' p pp (rs @ [q]) ws
    \<and> pcbs s' = (pcbs s)(q \<mapsto> c\<lparr>waiting_pipe_id := i, pipe_buffer := Some b, pipe_len := len, state := PROCESS_BLOCKED\<rparr>)
    \<and> kbufs s' = kbufs s \<and> (\<exists>h P. s' = s\<lparr>lists := h, pcbs := P\<rparr>)"
proof -
  let ?c1 = "c\<lparr>waiting_pipe_id := i, pipe_buffer := Some b, pipe_len := len\<rparr>"
  let ?c = "?c1\<lparr>state := PROCESS_BLOCKED\<rparr>" and ?Q = "Q(PipeReaders p \<mapsto> map QueueNode rs @ [QueueNode q])"
  obtain h' where h': "insert_tail (Some (PipeReaders p)) (Some (Elem (QueueNode q))) (lists s) = Some h'"
    "sched_inv h' ((pcbs s)(q \<mapsto> ?c)) ?Q"
    using block_ok [OF psysD(1) [OF ps] caller_okD(2,3) [OF c] psysD(5) [OF ps], of ?c] by auto
  define s' where "s' = s\<lparr>lists := h', pcbs := (pcbs s)(q \<mapsto> ?c)\<rparr>"
  obtain m where m: "GetCheckSync H i PIPE s = Some (SUCCESS H, Some m)"
    "sync_object (Some m) s = Some (U_Pipe (Some p))" using id by (auto simp: names_pipe_def)
  have "SyncReadPipe H i (Some b) len s = Some (PCB_BLOCKED, s')"
    using m op err psysD(3) [OF ps] bytes_simps(1) [OF psysD(4) [OF ps]] e caller_okD(1,2) [OF c] h'(1)
    by (simp add: SyncReadPipe_def upd_pcb_def on_lists_def s'_def)
  moreover have nq: "q \<notin> set rs \<union> set ws" using caller_not_waiting(1) [OF ps c] .
  have bq: "bufp (pcbs s') x = (if x = q then Some b else bufp (pcbs s) x)" for x by (simp add: bufp_def s'_def)
  have "psys H s' ?Q p pp (rs @ [q]) ws"
    unfolding psys_def pcb_ok_def
  proof (intro conjI ballI)
    fix x assume x: "x \<in> set (rs @ [q]) \<union> set ws"
    show "waiting_io (pcbs s') (kbufs s') x"
      using x psysD(7) [OF ps, of x] nq caller_okD(4-6) [OF c]
      by (cases "x = q") (auto simp: waiting_io_def s'_def)
  next
    fix w assume w: "w \<in> set ws"
    then show "writer_ok (pcbs s') w" using psysD(8) [OF ps w] nq by (auto simp: writer_ok_def s'_def)
  next
    have "map (bufp (pcbs s')) rs = map (bufp (pcbs s)) rs" "map (bufp (pcbs s')) ws = map (bufp (pcbs s)) ws"
      using nq by (auto simp: bq)
    then have eq: "map (bufp (pcbs s')) ((rs @ [q]) @ ws)
        = map (bufp (pcbs s)) rs @ [Some b] @ map (bufp (pcbs s)) ws"
      by (simp only: map_append list.map append.assoc) (simp add: bq)
    show "distinct (map (bufp (pcbs s')) ((rs @ [q]) @ ws))"
      unfolding eq using psysD(9) [OF ps] caller_buffer [OF c] by auto
  qed (use h'(2) psysD [OF ps] in \<open>simp_all add: s'_def\<close>)
  ultimately show ?thesis by (intro exI [of _ s'] exI [of _ ?Q]) (auto simp: s'_def)
qed

section \<open>Writing\<close>

lemma write_loop_ok:
  assumes ps: "psys H s Q p pp rs ws" and c: "caller_ok s q c b bs len rs ws"
    and k: "k = min (plen H - length (contents H pp)) (nat len)"
  shows "\<exists>pp1. write_loop H (buf_get (Some b) s) len (PIPE_BUFFER_LEN H - bytes_in_buffer pp) 0 pp 0 = Some (pp1, int k)
    \<and> pipe_ok H pp1 \<and> contents H pp1 = contents H pp @ take k bs"
proof -
  have rd: "\<forall>i < nat len. buf_get (Some b) s (int i) = Some (bs ! i)"
    using caller_okD(4,6) [OF c] by (simp add: buf_get_def)
  obtain pp1 where "fill_loop H (buf_get (Some b) s) (int (nat len)) pp (int 0) = Some (pp1, int (0 + k))"
    "pipe_ok H pp1" "contents H pp1 = contents H pp @ take k (drop 0 bs)"
    using fill_loop_ok [OF psysD(4) [OF ps] _ rd caller_okD(6) [OF c], of 0 k] k by auto
  then show ?thesis using write_loop_fill [of "PIPE_BUFFER_LEN H - bytes_in_buffer pp" 0 H pp] caller_okD(5) [OF c]
    by simp
qed

text \<open>The part of \<open>SyncWritePipe\<close> before \<open>SyncDrainReaders\<close>.\<close>

lemma write_prefix:
  assumes ps: "psys H s Q p pp rs ws" and c: "caller_ok s q c b bs len rs ws"
    and id: "names_pipe H s i p" and op: "open_for_write pp" and err: "ERROR H \<noteq> SUCCESS H"
    and k: "k = min (plen H - length (contents H pp)) (nat len)"
  shows "\<exists>s1 Q1 pp1. SyncWritePipe H i (Some b) len s
      = map_option (Pair (if k < nat len then PCB_BLOCKED else SUCCESS H)) (SyncDrainReaders H p s1)
    \<and> psys H s1 Q1 p pp1 rs (if k < nat len then ws @ [q] else ws)
    \<and> contents H pp1 = contents H pp @ take k bs \<and> kbufs s1 = kbufs s
    \<and> pcbs s1 = (pcbs s)(q \<mapsto> if k < nat len
        then c\<lparr>write_loc := int k, pipe_buffer := Some b, pipe_len := len, waiting_pipe_id := i, state := PROCESS_BLOCKED\<rparr>
        else c\<lparr>write_loc := int k, user_context := set_reg 0 (word_of_int len) (user_context c)\<rparr>)"
proof -
  obtain pp1 where pp1: "write_loop H (buf_get (Some b) s) len (PIPE_BUFFER_LEN H - bytes_in_buffer pp) 0 pp 0
      = Some (pp1, int k)" "pipe_ok H pp1" "contents H pp1 = contents H pp @ take k bs"
    using write_loop_ok [OF ps c k] by blast
  obtain m where m: "GetCheckSync H i PIPE s = Some (SUCCESS H, Some m)"
    "sync_object (Some m) s = Some (U_Pipe (Some p))" using id by (auto simp: names_pipe_def)
  have bg: "buf_get (Some b) (s\<lparr>pcbs := P\<rparr>) = buf_get (Some b) s" for P by (intro ext) (simp add: buf_get_def)
  have nq: "q \<notin> set rs \<union> set ws" using caller_not_waiting(1) [OF ps c] .
  have lt: "int k < len \<longleftrightarrow> k < nat len" using caller_okD(5) [OF c] by auto
  show ?thesis
  proof (cases "k < nat len")
    case False
    let ?c = "c\<lparr>write_loc := int k, user_context := set_reg 0 (word_of_int len) (user_context c)\<rparr>"
    define s1 where "s1 = s\<lparr>pipes := (pipes s)(p \<mapsto> pp1), pcbs := (pcbs s)(q \<mapsto> ?c)\<rparr>"
    have "SyncWritePipe H i (Some b) len s = map_option (Pair (SUCCESS H)) (SyncDrainReaders H p s1)"
      using m op err psysD(3) [OF ps] caller_okD(1,2) [OF c] pp1(1) False lt
      by (cases "SyncDrainReaders H p s1") (simp_all add: SyncWritePipe_def upd_pcb_def upd_pipe_def bg s1_def)
    moreover have "psys H s1 Q p pp1 rs ws"
    proof (rule psys_changeI [where s = s])
      have "sched_inv (lists s) ((pcbs s)(q \<mapsto> ?c)) Q"
        by (rule sched_inv_same_state [OF psysD(1) [OF ps] caller_okD(2) [OF c]]) simp
      then show "sched_inv (lists s1) (pcbs s1) Q" by (simp add: s1_def)
      fix x assume "x \<in> set rs \<union> set ws"
      then show "pcbs s1 x = pcbs s x" using nq by (auto simp: s1_def)
    qed (use psysD [OF ps] pp1(2) in \<open>auto simp: s1_def\<close>)
    ultimately show ?thesis using False pp1(3)
      by (intro exI [of _ s1] exI [of _ Q] exI [of _ pp1]) (simp add: s1_def)
  next
    case True
    let ?c = "c\<lparr>write_loc := int k, pipe_buffer := Some b, pipe_len := len, waiting_pipe_id := i, state := PROCESS_BLOCKED\<rparr>"
    let ?Q = "Q(PipeWriters p \<mapsto> map QueueNode ws @ [QueueNode q])"
    obtain h' where h': "insert_tail (Some (PipeWriters p)) (Some (Elem (QueueNode q))) (lists s) = Some h'"
      "sched_inv h' ((pcbs s)(q \<mapsto> ?c)) ?Q"
      using block_ok [OF psysD(1) [OF ps] caller_okD(2,3) [OF c] psysD(6) [OF ps], of ?c] by auto
    define s1 where "s1 = s\<lparr>pipes := (pipes s)(p \<mapsto> pp1), pcbs := (pcbs s)(q \<mapsto> ?c), lists := h'\<rparr>"
    have "SyncWritePipe H i (Some b) len s = map_option (Pair PCB_BLOCKED) (SyncDrainReaders H p s1)"
      using m op err psysD(3) [OF ps] caller_okD(1,2) [OF c] pp1(1) True lt h'(1)
      by (cases "SyncDrainReaders H p s1")
         (simp_all add: SyncWritePipe_def upd_pcb_def upd_pipe_def on_lists_def bg s1_def)
    moreover have bq: "bufp (pcbs s1) x = (if x = q then Some b else bufp (pcbs s) x)" for x
      by (simp add: bufp_def s1_def)
    have "psys H s1 ?Q p pp1 rs (ws @ [q])"
      unfolding psys_def pcb_ok_def
    proof (intro conjI ballI)
      fix x assume x: "x \<in> set rs \<union> set (ws @ [q])"
      show "waiting_io (pcbs s1) (kbufs s1) x"
        using x psysD(7) [OF ps, of x] nq caller_okD(4-6) [OF c]
        by (cases "x = q") (auto simp: waiting_io_def s1_def)
    next
      fix w assume w: "w \<in> set (ws @ [q])"
      show "writer_ok (pcbs s1) w"
        using w psysD(8) [OF ps, of w] nq lt True by (cases "w = q") (auto simp: writer_ok_def s1_def)
    next
      have "map (bufp (pcbs s1)) rs = map (bufp (pcbs s)) rs" "map (bufp (pcbs s1)) ws = map (bufp (pcbs s)) ws"
        using nq by (auto simp: bq)
      then have eq: "map (bufp (pcbs s1)) (rs @ ws @ [q])
          = map (bufp (pcbs s)) rs @ map (bufp (pcbs s)) ws @ [Some b]"
        by (simp only: map_append list.map append.assoc) (simp add: bq)
      show "distinct (map (bufp (pcbs s1)) (rs @ ws @ [q]))"
        unfolding eq using psysD(9) [OF ps] caller_buffer [OF c] by auto
    qed (use h'(2) psysD [OF ps] pp1(2) in \<open>simp_all add: s1_def\<close>)
    ultimately show ?thesis using True pp1(3)
      by (intro exI [of _ s1] exI [of _ ?Q] exI [of _ pp1]) (simp add: s1_def)
  qed
qed


text \<open>The bytes under way then: the new ones that fit stand before those of the earlier writers.\<close>

lemma write_stream:
  assumes ps: "psys H s Q p pp rs ws" and c: "caller_ok s q c b bs len rs ws" and len: "length bs = nat len"
    and s1: "contents H pp1 = contents H pp @ take k bs" "kbufs s1 = kbufs s"
      "pcbs s1 = (pcbs s)(q \<mapsto> if k < nat len
        then c\<lparr>write_loc := int k, pipe_buffer := Some b, pipe_len := len, waiting_pipe_id := i, state := PROCESS_BLOCKED\<rparr>
        else c\<lparr>write_loc := int k, user_context := set_reg 0 (word_of_int len) (user_context c)\<rparr>)"
  shows "stream H s1 pp1 (if k < nat len then ws @ [q] else ws)
    = contents H pp @ take k bs @ concat (map (pending (pcbs s) (kbufs s)) ws) @ drop k bs"
proof -
  have nq: "q \<notin> set rs \<union> set ws" using caller_not_waiting(1) [OF ps c] .
  have pe: "map (pending (pcbs s1) (kbufs s1)) ws = map (pending (pcbs s) (kbufs s)) ws"
    by (rule map_cong [OF refl]) (rule same_io(3), use nq s1(2,3) in auto)
  show ?thesis
  proof (cases "k < nat len")
    case True
    then have "pending (pcbs s1) (kbufs s1) q = drop k bs"
      using s1(2,3) caller_okD(4,5) [OF c] len by (simp add: pending_def)
    then show ?thesis using True s1(1) by (simp add: stream_def pe)
  next
    case False
    then show ?thesis using s1(1) len by (simp add: stream_def pe)
  qed
qed

lemma delivered_all_cong:
  assumes "list_all2 (delivered s1 s') rs ds" "kbufs s1 = kbufs s" "\<And>x. x \<in> set rs \<Longrightarrow> pcbs s1 x = pcbs s x"
  shows "list_all2 (delivered s s') rs ds"
proof (rule list.rel_mono_strong [OF assms(1)])
  fix x e assume x: "x \<in> set rs" "delivered s1 s' x e"
  then show "delivered s s' x e" by (intro delivered_cong [OF x(2)]) (use assms(2,3) in auto)
qed

section \<open>Properties\<close>

text \<open>
  C2: Reading a pipe that holds bytes never blocks: the caller gets the first
  \<open>min(len, bytes)\<close> bytes of the pipe at the front of its buffer, in order, with their
  number in register 0; the bytes still under way afterwards, those of blocked writers
  included, are exactly the rest, except for what blocked readers were handed from their
  front; and no reader is left waiting while there is anything to read. The writers at the
  head of the line that are resumed are in the ready queue with the number of their bytes in
  register 0; when no reader waits, only a full buffer leaves a writer blocked.
\<close>

theorem pipe_read_takes_prefix:
  assumes "psys H s Q p pp rs ws" "contents H pp \<noteq> []" "caller_ok s q c b bs len rs ws"
    "names_pipe H s i p" "open_for_read pp" "ERROR H \<noteq> SUCCESS H"
  shows "\<exists>s' Q' pp' rs2 ws2 ds n. SyncReadPipe H i (Some b) len s = Some (SUCCESS H, s')
    \<and> n = min (nat len) (length (contents H pp))
    \<and> kbufs s' b = Some (take n (contents H pp) @ drop n bs)
    \<and> pcbs s' q = Some (c\<lparr>user_context := set_reg 0 (word_of_int (int n)) (user_context c)\<rparr>)
    \<and> psys H s' Q' p pp' rs2 ws2 \<and> readers_served H pp' rs2 ws2
    \<and> stream H s pp ws = take n (contents H pp) @ concat ds @ stream H s' pp' ws2
    \<and> (\<exists>rs1. rs = rs1 @ rs2 \<and> list_all2 (delivered s s') rs1 ds)
    \<and> (\<exists>ws1. ws = ws1 @ ws2 \<and> (\<forall>w \<in> set ws1. in_q Q' (QueueNode w) ReadyQ
         \<and> (\<exists>y. pcbs s w = Some y \<and> pcbs s' w = Some (written y))))
    \<and> (rs = [] \<longrightarrow> ws2 = [] \<or> length (contents H pp') = plen H)"
proof -
  note ps = assms(1) and c = assms(3)
  define n where "n = min (nat len) (length (contents H pp))"
  obtain s1 pp1 where s1: "SyncReadPipe H i (Some b) len s = map_option (Pair (SUCCESS H)) (SyncDrainWriters H p s1)"
    "psys H s1 Q p pp1 rs ws" "contents H pp1 = drop n (contents H pp)"
    "pcbs s1 = (pcbs s)(q \<mapsto> c\<lparr>user_context := set_reg 0 (word_of_int (int n)) (user_context c)\<rparr>)"
    "kbufs s1 = (kbufs s)(b \<mapsto> take n (contents H pp) @ drop n bs)"
    using read_prefix [OF assms n_def] by blast
  obtain s' Q' pp' rs2 ws2 ds where d: "drain H p Drain_Writers s1 = Some s'" "psys H s' Q' p pp' rs2 ws2"
    "drained H s1 s' pp1 pp' rs rs2 ws ws2 ds" "readers_served H pp' rs2 ws2"
    "rs = [] \<longrightarrow> ws2 = [] \<or> length (contents H pp') = plen H"
    using drain_ok [OF s1(2), of Drain_Writers] unfolding writers_served_def by auto
  have nq: "q \<notin> set rs \<union> set ws" using caller_not_waiting(1) [OF ps c] .
  have same: "pcbs s1 x = pcbs s x" if "x \<in> set rs \<union> set ws" for x using that nq s1(4) by auto
  have buf: "kbufs s1 b' = kbufs s b'" if "x \<in> set rs \<union> set ws" "bufp (pcbs s) x = Some b'" for x b'
    using that caller_okD(7) [OF c that(1)] s1(5) by auto
  have "\<exists>rs1 ws1. rs = rs1 @ rs2 \<and> ws = ws1 @ ws2 \<and> list_all2 (delivered s s') rs1 ds
    \<and> (\<forall>w \<in> set ws1. \<exists>y. pcbs s w = Some y \<and> pcbs s' w = Some (written y))
    \<and> (\<forall>x. x \<notin> set rs \<union> set ws \<longrightarrow> pcbs s' x = pcbs s1 x)
    \<and> (\<forall>b. (\<forall>x \<in> set rs \<union> set ws. bufp (pcbs s) x \<noteq> Some b) \<longrightarrow> kbufs s' b = kbufs s1 b)"
    by (rule drained_cong [OF d(3)]) (use same buf in blast)+
  then obtain rs1 ws1 where r: "rs = rs1 @ rs2" "list_all2 (delivered s s') rs1 ds"
    "\<forall>x. x \<notin> set rs \<union> set ws \<longrightarrow> pcbs s' x = pcbs s1 x"
    "\<forall>b. (\<forall>x \<in> set rs \<union> set ws. bufp (pcbs s) x \<noteq> Some b) \<longrightarrow> kbufs s' b = kbufs s1 b"
    and w: "ws = ws1 @ ws2" "\<forall>w \<in> set ws1. \<exists>y. pcbs s w = Some y \<and> pcbs s' w = Some (written y)"
    by (elim exE conjE) (rule that)
  have "\<forall>w \<in> set ws1. in_q Q' (QueueNode w) ReadyQ \<and> (\<exists>y. pcbs s w = Some y \<and> pcbs s' w = Some (written y))"
    using w(2) written_ready [OF d(2)] by blast
  then have ws1: "\<exists>ws1. ws = ws1 @ ws2 \<and> (\<forall>w \<in> set ws1. in_q Q' (QueueNode w) ReadyQ
      \<and> (\<exists>y. pcbs s w = Some y \<and> pcbs s' w = Some (written y)))"
    using w(1) by (intro exI [of _ ws1]) simp
  have pe: "map (pending (pcbs s1) (kbufs s1)) ws = map (pending (pcbs s) (kbufs s)) ws"
    by (rule map_cong [OF refl]) (rule same_io(3), use same buf in auto)
  have "stream H s pp ws = take n (contents H pp) @ stream H s1 pp1 ws"
    unfolding stream_def s1(3) pe by simp
  moreover have "stream H s1 pp1 ws = concat ds @ stream H s' pp' ws2" using d(3) unfolding drained_def by blast
  ultimately have stm: "stream H s pp ws = take n (contents H pp) @ concat ds @ stream H s' pp' ws2" by simp
  have kb: "kbufs s' b = Some (take n (contents H pp) @ drop n bs)" using r(4) caller_okD(7) [OF c] s1(5) by simp
  have pq: "pcbs s' q = Some (c\<lparr>user_context := set_reg 0 (word_of_int (int n)) (user_context c)\<rparr>)"
    using r(3) nq s1(4) by simp
  have run: "SyncReadPipe H i (Some b) len s = Some (SUCCESS H, s')" using s1(1) d(1) by (simp add: SyncDrainWriters_def)
  have rs1: "\<exists>rs1. rs = rs1 @ rs2 \<and> list_all2 (delivered s s') rs1 ds" using r(1,2) by (intro exI [of _ rs1] conjI)
  show ?thesis
    by (rule exI [of _ s'], rule exI [of _ Q'], rule exI [of _ pp'], rule exI [of _ rs2], rule exI [of _ ws2],
        rule exI [of _ ds], rule exI [of _ n])
       (intro conjI run n_def kb pq d(2,4,5) stm rs1 ws1)
qed

text \<open>
  C3: Writing \<open>len\<close> bytes to a pipe puts as many of them as there is room for at the end of the
  buffer; when not all fit, the caller is blocked behind the earlier writers with the rest, and
  only then. When no earlier writer waits, or when the buffer is full, the new bytes thereby
  follow all the old ones, in order. In general the ones that fit come before the bytes that
  earlier writers still have to write (a writer may wait although there is room, see the lost
  wakeup). Blocked readers are handed bytes from the front in the order in which they came, no
  byte is lost or invented, and no reader is left waiting while there is anything to read.
\<close>

theorem pipe_write_appends:
  assumes "psys H s Q p pp rs ws" "caller_ok s q c b bs len rs ws" "length bs = nat len"
    "names_pipe H s i p" "open_for_write pp" "ERROR H \<noteq> SUCCESS H"
  shows "\<exists>s' Q' pp' rs2 ws2 ds k. SyncWritePipe H i (Some b) len s
      = Some (if length (contents H pp) + nat len \<le> plen H then SUCCESS H else PCB_BLOCKED, s')
    \<and> k = min (plen H - length (contents H pp)) (nat len)
    \<and> psys H s' Q' p pp' rs2 ws2 \<and> readers_served H pp' rs2 ws2
    \<and> contents H pp @ take k bs @ concat (map (pending (pcbs s) (kbufs s)) ws) @ drop k bs
      = concat ds @ stream H s' pp' ws2
    \<and> (ws = [] \<or> length (contents H pp) = plen H \<longrightarrow> stream H s pp ws @ bs = concat ds @ stream H s' pp' ws2)
    \<and> (length (contents H pp) + nat len \<le> plen H \<longrightarrow> (\<exists>y. pcbs s' q = Some y \<and> regs (user_context y) 0 = word_of_int len))
    \<and> (\<exists>rs1. rs = rs1 @ rs2 \<and> list_all2 (delivered s s') rs1 ds)"
proof -
  note ps = assms(1) and c = assms(2)
  define k where "k = min (plen H - length (contents H pp)) (nat len)"
  let ?ws = "if k < nat len then ws @ [q] else ws" and ?pe = "map (pending (pcbs s) (kbufs s)) ws"
  obtain s1 Q1 pp1 where s1: "SyncWritePipe H i (Some b) len s
      = map_option (Pair (if k < nat len then PCB_BLOCKED else SUCCESS H)) (SyncDrainReaders H p s1)"
    "psys H s1 Q1 p pp1 rs ?ws" "contents H pp1 = contents H pp @ take k bs" "kbufs s1 = kbufs s"
    "pcbs s1 = (pcbs s)(q \<mapsto> if k < nat len
        then c\<lparr>write_loc := int k, pipe_buffer := Some b, pipe_len := len, waiting_pipe_id := i, state := PROCESS_BLOCKED\<rparr>
        else c\<lparr>write_loc := int k, user_context := set_reg 0 (word_of_int len) (user_context c)\<rparr>)"
    using write_prefix [OF ps c assms(4-6) k_def] by blast
  have "Drain_Readers = Drain_Stop \<longrightarrow> readers_served H pp1 rs ?ws" by simp
  then obtain s' Q' pp' rs2 ws2 ds where d: "drain H p Drain_Readers s1 = Some s'" "psys H s' Q' p pp' rs2 ws2"
    "drained H s1 s' pp1 pp' rs rs2 ?ws ws2 ds" "readers_served H pp' rs2 ws2"
    by (rule drain_ok [OF s1(2), THEN exE]) (elim exE conjE, rule that)
  have nq: "q \<notin> set rs \<union> set ws" using caller_not_waiting(1) [OF ps c] .
  obtain rs1 where r: "rs = rs1 @ rs2" "list_all2 (delivered s1 s') rs1 ds"
    "stream H s1 pp1 ?ws = concat ds @ stream H s' pp' ws2"
    "\<forall>x. x \<notin> set rs1 \<union> set ?ws \<longrightarrow> pcbs s' x = pcbs s1 x"
    using d(3) unfolding drained_def by blast
  have "pcbs s1 x = pcbs s x" if "x \<in> set rs1" for x using that nq r(1) s1(5) by auto
  then have dl: "list_all2 (delivered s s') rs1 ds" by (rule delivered_all_cong [OF r(2) s1(4)])
  have stm: "stream H s1 pp1 ?ws = contents H pp @ take k bs @ concat ?pe @ drop k bs"
    by (rule write_stream [OF ps c assms(3) s1(3-5)])
  have cb: "length (contents H pp) \<le> plen H" by (rule contents_bound [OF psysD(4) [OF ps]])
  have fits: "k < nat len \<longleftrightarrow> \<not> (length (contents H pp) + nat len \<le> plen H)"
    unfolding k_def min_less_iff_disj using cb by linarith
  then have run: "SyncWritePipe H i (Some b) len s
      = Some (if length (contents H pp) + nat len \<le> plen H then SUCCESS H else PCB_BLOCKED, s')"
    using s1(1) d(1) by (simp add: SyncDrainReaders_def)
  have all: "contents H pp @ take k bs @ concat ?pe @ drop k bs = concat ds @ stream H s' pp' ws2"
    using r(3) stm by (simp only:)
  have inorder: "stream H s pp ws @ bs = concat ds @ stream H s' pp' ws2" if w: "ws = [] \<or> length (contents H pp) = plen H"
  proof -
    have "take k bs @ concat ?pe @ drop k bs = concat ?pe @ bs" using w by (cases "ws = []") (simp_all add: k_def)
    then show ?thesis using all by (simp only: stream_def append.assoc)
  qed
  have reg: "\<exists>y. pcbs s' q = Some y \<and> regs (user_context y) 0 = word_of_int len"
    if "length (contents H pp) + nat len \<le> plen H"
  proof -
    have f: "\<not> k < nat len" using fits that by blast
    then have "q \<notin> set rs1 \<union> set ?ws" using nq r(1) by simp
    then have "pcbs s' q = pcbs s1 q" using r(4) by blast
    then show ?thesis using s1(5) f by (simp add: set_reg_def)
  qed
  show ?thesis
    by (rule exI [of _ s'], rule exI [of _ Q'], rule exI [of _ pp'], rule exI [of _ rs2], rule exI [of _ ws2],
        rule exI [of _ ds], rule exI [of _ k])
       (intro conjI run d(2,4) all impI inorder reg k_def exI [of _ rs1] r(1) dl)
qed

text \<open>
  C20: A lost wakeup. When a writer brings more bytes than the pipe can hold while one reader
  waits on the empty pipe with room for a full buffer, the reader is served and drains the
  buffer, but the writer stays blocked with its remaining bytes although the whole buffer is
  free, since \<open>SyncDrainReaders\<close> tests the readers' list before it resumes writers.
\<close>

theorem pipe_writer_stranded:
  assumes "psys H s Q p pp [r] []" "contents H pp = []" "caller_ok s q c b bs len [r] []"
    "plen H < nat len" "length bs = nat len" "names_pipe H s i p" "open_for_write pp" "ERROR H \<noteq> SUCCESS H"
    "pcbs s r = Some y" "plen H \<le> nat (pipe_len y)"
  shows "\<exists>s' Q' pp'. SyncWritePipe H i (Some b) len s = Some (PCB_BLOCKED, s') \<and> psys H s' Q' p pp' [] [q]
    \<and> contents H pp' = [] \<and> pending (pcbs s') (kbufs s') q = drop (plen H) bs"
proof -
  note ps = assms(1) and c = assms(3)
  define k where "k = min (plen H - length (contents H pp)) (nat len)"
  have k: "k = plen H" "k < nat len" using assms(2,4) by (simp_all add: k_def)
  obtain s1 Q1 pp1 where s1: "SyncWritePipe H i (Some b) len s = map_option (Pair PCB_BLOCKED) (SyncDrainReaders H p s1)"
    "psys H s1 Q1 p pp1 [r] [q]" "contents H pp1 = take k bs" "kbufs s1 = kbufs s"
    "pcbs s1 = (pcbs s)(q \<mapsto> c\<lparr>write_loc := int k, pipe_buffer := Some b, pipe_len := len, waiting_pipe_id := i,
        state := PROCESS_BLOCKED\<rparr>)"
    using write_prefix [OF ps c assms(6-8) k_def] k(2) assms(2) by auto
  have pos: "0 < plen H" using psysD(4) [OF ps] by (simp add: pipe_ok_def plen_def)
  have ne: "contents H pp1 \<noteq> []" using s1(3) k assms(5) pos by auto
  obtain ys where ys: "Q1 ReadyQ = Some ys" by (rule psys_ready [OF s1(2)])
  have qr: "q \<noteq> r" using caller_not_waiting(1) [OF ps c] by simp
  obtain s2 Q2 pp2 y2 b2 bs2 n where s2: "readers_step H p s1 = Some (Drain_Readers, s2)" "psys H s2 Q2 p pp2 [] [q]"
    "pcbs s1 r = Some y2" "n = min (nat (pipe_len y2)) (length (contents H pp1))" "contents H pp2 = drop n (contents H pp1)"
    "map (pending (pcbs s2) (kbufs s2)) [q] = map (pending (pcbs s1) (kbufs s1)) [q]"
    using readers_step_serve [OF s1(2) ne ys] by blast
  have "y2 = y" using s2(3) s1(5) assms(9) qr by simp
  then have "n = length (contents H pp1)" using s2(4) s1(3) assms(5,10) k by simp
  then have e: "contents H pp2 = []" using s2(5) by simp
  have "readers_step H p s2 = Some (Drain_Stop, s2)"
    using readers_step_stop [OF s2(2)] by simp
  then have "drain H p Drain_Readers s1 = Some s2"
    using s2(1) by (simp add: drain.simps [of H p Drain_Readers s1] drain.simps [of H p Drain_Readers s2]
        drain.simps [of H p Drain_Stop])
  moreover have "pending (pcbs s1) (kbufs s1) q = drop k bs"
    using s1(4,5) caller_okD(4,5) [OF c] assms(5) by (simp add: pending_def)
  ultimately show ?thesis using s1(1) s2(2,6) e k(1)
    by (intro exI [of _ s2] exI [of _ Q2] exI [of _ pp2]) (simp add: SyncDrainReaders_def)
qed

text \<open>
  C19: Reading an empty pipe blocks the caller at the tail of the readers' list with its
  request recorded, and changes nothing else, even when writers with bytes left are blocked
  on the very same pipe: together with the lost wakeup, both sides then wait for each other.
\<close>

theorem pipe_read_empty_blocks:
  assumes "psys H s Q p pp rs ws" "contents H pp = []" "caller_ok s q c b bs len rs ws"
    "names_pipe H s i p" "open_for_read pp" "ERROR H \<noteq> SUCCESS H"
  shows "\<exists>s' Q'. SyncReadPipe H i (Some b) len s = Some (PCB_BLOCKED, s') \<and> psys H s' Q' p pp (rs @ [q]) ws
    \<and> map (pending (pcbs s') (kbufs s')) ws = map (pending (pcbs s) (kbufs s)) ws
    \<and> (\<exists>c'. pcbs s' q = Some c' \<and> state c' = PROCESS_BLOCKED \<and> pipe_buffer c' = Some b \<and> pipe_len c' = len)"
proof -
  obtain s' Q' where s': "SyncReadPipe H i (Some b) len s = Some (PCB_BLOCKED, s')" "psys H s' Q' p pp (rs @ [q]) ws"
    "pcbs s' = (pcbs s)(q \<mapsto> c\<lparr>waiting_pipe_id := i, pipe_buffer := Some b, pipe_len := len, state := PROCESS_BLOCKED\<rparr>)"
    "kbufs s' = kbufs s"
    using read_blocks [OF assms] by blast
  have "q \<notin> set ws" using caller_not_waiting(1) [OF assms(1,3)] by simp
  then have "map (pending (pcbs s') (kbufs s')) ws = map (pending (pcbs s) (kbufs s)) ws"
    using s'(3,4) by (auto simp: pending_def)
  then show ?thesis using s' by auto
qed


section \<open>Instances\<close>

text \<open>
  Process 1 runs; process 2 waits to read 4 bytes when it is in \<open>rs\<close>, process 3 waits to
  write the last two of its 6 bytes when it is in \<open>ws\<close>. The pipe holds \<open>bs\<close>.
\<close>

definition reader_pcb :: pcb where
  "reader_pcb = blank_pcb\<lparr>pid := 2, state := PROCESS_BLOCKED, pipe_buffer := Some 60, pipe_len := 4\<rparr>"

definition writer_pcb :: pcb where
  "writer_pcb = blank_pcb\<lparr>pid := 3, state := PROCESS_BLOCKED, pipe_buffer := Some 61, pipe_len := 6, write_loc := 4\<rparr>"

definition caller_pcb :: pcb where
  "caller_pcb = blank_pcb\<lparr>pid := 1, state := PROCESS_RUNNING\<rparr>"

definition pipe_lists :: "bool \<Rightarrow> bool \<Rightarrow> (lref \<times> eref list) list" where
  "pipe_lists r w = [(ReadyQ, []), (DelayQ, []), (BlockedQ, []), (ZombieQ, []),
     (Children 1, []), (Children 2, []), (Children 3, []),
     (PipeReaders 20, if r then [QueueNode 2] else []), (PipeWriters 20, if w then [QueueNode 3] else [])]"

definition pipe_pcbs :: "bool \<Rightarrow> bool \<Rightarrow> (pcb_ptr \<times> pcb) list" where
  "pipe_pcbs r w = [(1, caller_pcb), (2, if r then reader_pcb else blank_pcb), (3, if w then writer_pcb else blank_pcb)]"

definition demo_pipe :: "u8 list \<Rightarrow> pipe" where
  "demo_pipe bs = \<lparr>buffer = take 4 (bs @ replicate 4 0), read_pos = 0, write_pos = int (length bs) mod 4,
     bytes_in_buffer = int (length bs), open_for_read = True, open_for_write = True\<rparr>"

definition pipe_system :: "bool \<Rightarrow> bool \<Rightarrow> u8 list \<Rightarrow> sstate" where
  "pipe_system r w bs = with_objects ((small_system family_nodes (pipe_lists r w) (pipe_pcbs r w) 1)
       \<lparr>kbufs := [60 \<mapsto> [0, 0, 0, 0], 61 \<mapsto> [1, 2, 3, 4, 5, 6], 70 \<mapsto> [11, 12, 13, 14, 15, 16]]\<rparr>)
     demo_objs [20 \<mapsto> demo_pipe bs] Map.empty Map.empty"

lemma pipe_system_pcb_ok: "pcb_ok (pipe_system r w bs) (map_of (pipe_lists r w))"
proof -
  have "system_check family_nodes (pipe_lists r w) (pipe_pcbs r w)"
    by (cases r; cases w) (simp_all add: system_check_def family_nodes_def pipe_lists_def pipe_pcbs_def
        reader_pcb_def writer_pcb_def caller_pcb_def blank_pcb_def idle_state_def)
  from system_check_ok(1) [OF this] show ?thesis by (simp add: pcb_ok_def pipe_system_def)
qed

lemma demo_plen [simp]: "plen demo_hw = 4"
  by (simp add: plen_def)

lemma demo_pipe_ok:
  assumes "length bs = 0 \<or> length bs = 4"
  shows "pipe_ok demo_hw (demo_pipe bs)" "contents demo_hw (demo_pipe bs) = bs"
proof -
  show "pipe_ok demo_hw (demo_pipe bs)" using assms by (auto simp: pipe_ok_def demo_pipe_def)
  show "contents demo_hw (demo_pipe bs) = bs"
    using assms by (auto simp: contents_def demo_pipe_def intro!: nth_equalityI)
qed

lemma pipe_system_ok:
  assumes "length bs = 0 \<or> length bs = 4"
  shows "psys demo_hw (pipe_system r w bs) (map_of (pipe_lists r w)) 20 (demo_pipe bs)
    (if r then [2] else []) (if w then [3] else [])"
    "names_pipe demo_hw (pipe_system r w bs) 0 20"
    "caller_ok (pipe_system r w bs) 1 caller_pcb 70 [11, 12, 13, 14, 15, 16] n (if r then [2] else []) (if w then [3] else [])
      \<longleftrightarrow> 0 \<le> n \<and> n \<le> 6"
proof -
  have pc: "pcbs (pipe_system r w bs) = map_of (pipe_pcbs r w)" by (simp add: pipe_system_def)
  have kb: "kbufs (pipe_system r w bs) = [60 \<mapsto> [0, 0, 0, 0], 61 \<mapsto> [1, 2, 3, 4, 5, 6], 70 \<mapsto> [11, 12, 13, 14, 15, 16]]"
    by (simp add: pipe_system_def)
  show "psys demo_hw (pipe_system r w bs) (map_of (pipe_lists r w)) 20 (demo_pipe bs)
    (if r then [2] else []) (if w then [3] else [])"
    unfolding psys_def pc kb
  proof (intro conjI)
    show "pcb_ok (pipe_system r w bs) (map_of (pipe_lists r w))" by (rule pipe_system_pcb_ok)
    show "pipe_ok demo_hw (demo_pipe bs)" by (rule demo_pipe_ok [OF assms])
    show "pipes (pipe_system r w bs) 20 = Some (demo_pipe bs)" by (simp add: pipe_system_def)
  qed (auto simp: pipe_lists_def pipe_pcbs_def waiting_io_def writer_ok_def bufp_def reader_pcb_def writer_pcb_def)
  show "names_pipe demo_hw (pipe_system r w bs) 0 20"
    by (simp add: names_pipe_def GetCheckSync_def sync_object_def pipe_system_def demo_objs_def MAX_SYNCS_def arr_get_def)
  show "caller_ok (pipe_system r w bs) 1 caller_pcb 70 [11, 12, 13, 14, 15, 16] n (if r then [2] else []) (if w then [3] else [])
      \<longleftrightarrow> 0 \<le> n \<and> n \<le> 6"
    unfolding caller_ok_def pc kb
    by (auto simp: pipe_system_def pipe_pcbs_def caller_pcb_def idle_state_def bufp_def reader_pcb_def writer_pcb_def)
qed

lemma demo_pipe_open [simp]: "open_for_read (demo_pipe bs)" "open_for_write (demo_pipe bs)"
  by (simp_all add: demo_pipe_def)

lemma pipe_read_takes_prefix_witness:
  "\<exists>s'. SyncReadPipe demo_hw 0 (Some 70) 3 (pipe_system False True [9, 8, 7, 6]) = Some (0, s')
     \<and> kbufs s' 70 = Some [9, 8, 7, 14, 15, 16]"
proof -
  note ps = pipe_system_ok [of "[9, 8, 7, 6]" False True, simplified]
  have c: "contents demo_hw (demo_pipe [9, 8, 7, 6]) = [9, 8, 7, 6]" by (rule demo_pipe_ok) simp
  show ?thesis
    using pipe_read_takes_prefix [OF ps(1) _ iffD2 [OF ps(3)] ps(2), of 3] by (auto simp: c)
qed

lemma pipe_write_appends_witness:
  "\<exists>s'. SyncWritePipe demo_hw 0 (Some 70) 6 (pipe_system True False []) = Some (30, s')"
proof -
  note ps = pipe_system_ok [of "[]" True False, simplified]
  have c: "contents demo_hw (demo_pipe []) = []" by (rule demo_pipe_ok) simp
  show ?thesis
    using pipe_write_appends [OF ps(1) iffD2 [OF ps(3)] _ ps(2), of 6] by (auto simp: c PCB_BLOCKED_def)
qed

lemma pipe_writer_stranded_witness:
  "\<exists>s' Q' pp'. SyncWritePipe demo_hw 0 (Some 70) 6 (pipe_system True False []) = Some (30, s')
     \<and> psys demo_hw s' Q' 20 pp' [] [1] \<and> contents demo_hw pp' = [] \<and> pending (pcbs s') (kbufs s') 1 = [15, 16]"
proof -
  note ps = pipe_system_ok [of "[]" True False, simplified]
  have c: "contents demo_hw (demo_pipe []) = []" by (rule demo_pipe_ok) simp
  have y: "pcbs (pipe_system True False []) 2 = Some reader_pcb" "plen demo_hw \<le> nat (pipe_len reader_pcb)"
    by (simp_all add: pipe_system_def pipe_pcbs_def reader_pcb_def)
  show ?thesis
    using pipe_writer_stranded [OF ps(1) c iffD2 [OF ps(3)] _ _ ps(2) _ _ y, of 6] by (auto simp: PCB_BLOCKED_def)
qed

lemma pipe_read_empty_blocks_witness:
  "\<exists>s' Q'. SyncReadPipe demo_hw 0 (Some 70) 3 (pipe_system True True []) = Some (30, s')
     \<and> psys demo_hw s' Q' 20 (demo_pipe []) [2, 1] [3]"
proof -
  note ps = pipe_system_ok [of "[]" True True, simplified]
  have c: "contents demo_hw (demo_pipe []) = []" by (rule demo_pipe_ok) simp
  show ?thesis
    using pipe_read_empty_blocks [OF ps(1) c iffD2 [OF ps(3)] ps(2), of 3] by (auto simp: PCB_BLOCKED_def)
qed

end
