(* ===== verification/Lock.thy ===== *)
theory Lock
  imports Pipe_Props
begin

text \<open>
  Locks and condition variables of \<open>sync.c\<close>.

  A release hands the lock directly to the first waiter. The handlers are shown to refine an
  abstract lock, an owner and a queue, and runs of the kernel in which any other activity may
  happen between two operations on the lock are shown to serve its requests in order.
\<close>

section \<open>Locks\<close>

definition upd_lock :: "obj_ptr \<Rightarrow> (lock \<Rightarrow> lock) \<Rightarrow> 'a sstate_scheme \<Rightarrow> 'a sstate_scheme option" where
  "upd_lock l f s = do { x \<leftarrow> locks s l; Some (s\<lparr>locks := (locks s)(l \<mapsto> f x)\<rparr>) }"

definition SyncInitLock :: "hw \<Rightarrow> sync_env \<Rightarrow> u32 \<Rightarrow> 'a sstate_scheme \<Rightarrow> (int \<times> 'a sstate_scheme) option" where
  "SyncInitLock H a lock_idp s =
     (if global_sync_counter s \<ge> int MAX_SYNCS then Some (ERROR H, s)
      else do {
        l \<leftarrow> m_object a;
        s \<leftarrow> Some (s\<lparr>locks := (locks s)(l \<mapsto> \<lparr>locked = False, owner = None\<rparr>)\<rparr>);
        s \<leftarrow> init_waiters (m_list_junk a) (LockWaiters l) s;
        (rc, s) \<leftarrow> InitSyncObject H (m_sync a) (m_sync_junk a) LOCK (Some l) s;
        if rc = ERROR H then do { s \<leftarrow> free_lock l s; Some (ERROR H, s) }
        else do {
          s \<leftarrow> deref_store H lock_idp (word_of_int rc) s;
          Some (SUCCESS H, s) } })"

definition SyncLockAcquire :: "hw \<Rightarrow> int \<Rightarrow> 'a sstate_scheme \<Rightarrow> (int \<times> 'a sstate_scheme) option" where
  "SyncLockAcquire H lock_id s = do {
     (rc, sync) \<leftarrow> GetCheckSync H lock_id LOCK s;
     if rc = ERROR H then Some (ERROR H, s)
     else do {
       u \<leftarrow> sync_object sync s;
       l \<leftarrow> as_lock u;
       ld \<leftarrow> locks s l;
       if \<not> locked ld then do {
         s \<leftarrow> upd_lock l (\<lambda>x. x\<lparr>locked := True, owner := current_process s\<rparr>) s;
         Some (SUCCESS H, s) }
       else do {
         q \<leftarrow> current_process s;
         s \<leftarrow> on_lists (insert_tail (Some (LockWaiters l)) (Some (Elem (QueueNode q)))) s;
         s \<leftarrow> upd_pcb (Some q) (\<lambda>c. c\<lparr>state := PROCESS_BLOCKED, waiting_lock_id := lock_id\<rparr>) s;
         Some (PCB_BLOCKED, s) } } }"

text \<open>The common end of \<open>SyncLockRelease\<close> and of the release inside \<open>SyncCvarWait\<close>.\<close>

definition hand_over :: "hw \<Rightarrow> obj_ptr \<Rightarrow> 'a sstate_scheme \<Rightarrow> 'a sstate_scheme option" where
  "hand_over H l s = do {
     n \<leftarrow> counts (lists s) (LockWaiters l);
     if n \<noteq> 0 then do {
       (node, h) \<leftarrow> pop H (Some (LockWaiters l)) (lists s);
       s \<leftarrow> Some (s\<lparr>lists := h\<rparr>);
       nx \<leftarrow> pcb_from_queue_node node;
       s \<leftarrow> upd_pcb (Some nx) (\<lambda>c. c\<lparr>waiting_lock_id := -1, state := PROCESS_DEFAULT\<rparr>) s;
       s \<leftarrow> add_to_ready_queue (Some nx) s;
       upd_lock l (\<lambda>x. x\<lparr>owner := Some nx\<rparr>) s }
     else upd_lock l (\<lambda>x. x\<lparr>locked := False, owner := None\<rparr>) s }"

text \<open>The error message reads the pids of the owner, whatever it is, and of the caller.\<close>

definition trace_owner :: "pcb_ptr option \<Rightarrow> pcb_ptr option \<Rightarrow> 'a kstate_scheme \<Rightarrow> unit option" where
  "trace_owner p q s = do { _ \<leftarrow> get_pcb p s; _ \<leftarrow> get_pcb q s; Some () }"

definition SyncLockRelease :: "hw \<Rightarrow> int \<Rightarrow> 'a sstate_scheme \<Rightarrow> (int \<times> 'a sstate_scheme) option" where
  "SyncLockRelease H lock_id s = do {
     (rc, sync) \<leftarrow> GetCheckSync H lock_id LOCK s;
     if rc = ERROR H then Some (ERROR H, s)
     else do {
       u \<leftarrow> sync_object sync s;
       l \<leftarrow> as_lock u;
       ld \<leftarrow> locks s l;
       if owner ld \<noteq> current_process s then do {
         _ \<leftarrow> trace_owner (owner ld) (current_process s) s;
         Some (ERROR H, s) }
       else do {
         n \<leftarrow> counts (lists s) (LockWaiters l);
         s \<leftarrow> hand_over H l s;
         Some (if n \<noteq> 0 then SUCCESS H else 0, s) } } }"

section \<open>Condition variables\<close>

definition SyncInitCvar :: "hw \<Rightarrow> sync_env \<Rightarrow> u32 \<Rightarrow> 'a sstate_scheme \<Rightarrow> (int \<times> 'a sstate_scheme) option" where
  "SyncInitCvar H a cvar_idp s =
     (if global_sync_counter s \<ge> int MAX_SYNCS then Some (ERROR H, s)
      else do {
        c \<leftarrow> m_object a;
        s \<leftarrow> Some (s\<lparr>cvars := (cvars s)(c \<mapsto> ())\<rparr>);
        s \<leftarrow> init_waiters (m_list_junk a) (CvarWaiters c) s;
        (rc, s) \<leftarrow> InitSyncObject H (m_sync a) (m_sync_junk a) CVAR (Some c) s;
        if rc = ERROR H then do { s \<leftarrow> free_cvar c s; Some (ERROR H, s) }
        else do {
          s \<leftarrow> deref_store H cvar_idp (word_of_int rc) s;
          Some (0, s) } })"

definition SyncCvarWait :: "hw \<Rightarrow> int \<Rightarrow> int \<Rightarrow> 'a sstate_scheme \<Rightarrow> (int \<times> 'a sstate_scheme) option" where
  "SyncCvarWait H cvar_id lock_id s = do {
     (rc, sync) \<leftarrow> GetCheckSync H cvar_id CVAR s;
     if rc = ERROR H then Some (ERROR H, s)
     else do {
       u \<leftarrow> sync_object sync s;
       let cvar = as_cvar u;
       (rc, sync) \<leftarrow> GetCheckSync H lock_id LOCK s;
       if rc = ERROR H then Some (ERROR H, s)
       else do {
         u \<leftarrow> sync_object sync s;
         l \<leftarrow> as_lock u;
         ld \<leftarrow> locks s l;
         let cur = current_process s;
         if owner ld \<noteq> cur then do {
           _ \<leftarrow> trace_owner (owner ld) cur s;
           Some (ERROR H, s) }
         else do {
           s \<leftarrow> hand_over H l s;
           c \<leftarrow> cvar;
           _ \<leftarrow> cvars s c;
           q \<leftarrow> cur;
           s \<leftarrow> on_lists (insert_tail (Some (CvarWaiters c)) (Some (Elem (QueueNode q)))) s;
           s \<leftarrow> upd_pcb (Some q) (\<lambda>x. x\<lparr>waiting_cvar_id := cvar_id, state := PROCESS_BLOCKED\<rparr>) s;
           Some (PCB_BLOCKED, s) } } } }"

text \<open>The body shared by signal and by each round of broadcast.\<close>

definition wake_waiter :: "hw \<Rightarrow> obj_ptr \<Rightarrow> 'a sstate_scheme \<Rightarrow> 'a sstate_scheme option" where
  "wake_waiter H c s = do {
     (node, h) \<leftarrow> pop H (Some (CvarWaiters c)) (lists s);
     s \<leftarrow> Some (s\<lparr>lists := h\<rparr>);
     nx \<leftarrow> pcb_from_queue_node node;
     s \<leftarrow> upd_pcb (Some nx) (\<lambda>x. x\<lparr>waiting_cvar_id := -1, state := PROCESS_DEFAULT\<rparr>) s;
     add_to_ready_queue (Some nx) s }"

definition SyncCvarSignal :: "hw \<Rightarrow> int \<Rightarrow> 'a sstate_scheme \<Rightarrow> (int \<times> 'a sstate_scheme) option" where
  "SyncCvarSignal H cvar_id s = do {
     (rc, sync) \<leftarrow> GetCheckSync H cvar_id CVAR s;
     if rc = ERROR H then Some (ERROR H, s)
     else do {
       u \<leftarrow> sync_object sync s;
       c \<leftarrow> as_cvar u;
       _ \<leftarrow> cvars s c;
       n \<leftarrow> counts (lists s) (CvarWaiters c);
       if n = 0 then Some (0, s)
       else do { s \<leftarrow> wake_waiter H c s; Some (0, s) } } }"

partial_function (option) broadcast_loop :: "hw \<Rightarrow> obj_ptr \<Rightarrow> 'a sstate_scheme \<Rightarrow> 'a sstate_scheme option" where
  "broadcast_loop H c s = do {
     n \<leftarrow> counts (lists s) (CvarWaiters c);
     if n \<noteq> 0 then do { s \<leftarrow> wake_waiter H c s; broadcast_loop H c s } else Some s }"

text \<open>
  The function ends without a \<open>return\<close> when it woke somebody: the value is \<open>None\<close> then, and
  a caller that uses it has no defined behaviour.
\<close>

definition SyncCvarBroadcast :: "hw \<Rightarrow> int \<Rightarrow> 'a sstate_scheme \<Rightarrow> (int option \<times> 'a sstate_scheme) option" where
  "SyncCvarBroadcast H cvar_id s = do {
     (rc, sync) \<leftarrow> GetCheckSync H cvar_id CVAR s;
     if rc = ERROR H then Some (Some (ERROR H), s)
     else do {
       u \<leftarrow> sync_object sync s;
       c \<leftarrow> as_cvar u;
       _ \<leftarrow> cvars s c;
       n \<leftarrow> counts (lists s) (CvarWaiters c);
       if n = 0 then Some (Some 0, s)
       else do { s \<leftarrow> broadcast_loop H c s; Some (None, s) } } }"

section \<open>The abstract lock\<close>

text \<open>An owner and the queue of those who asked; \<open>None\<close> is a request that cannot happen.\<close>

type_synonym alock = "pcb_ptr option \<times> pcb_ptr list"

fun spec_acquire :: "pcb_ptr \<Rightarrow> alock \<Rightarrow> alock" where
  "spec_acquire p (None, ws) = (Some p, ws)"
| "spec_acquire p (Some q, ws) = (Some q, ws @ [p])"

fun spec_release :: "pcb_ptr \<Rightarrow> alock \<Rightarrow> alock" where
  "spec_release p (Some q, w # ws) = (if p = q then (Some w, ws) else (Some q, w # ws))"
| "spec_release p (Some q, []) = (if p = q then (None, []) else (Some q, []))"
| "spec_release p (None, ws) = (None, ws)"

text \<open>The concrete lock \<open>l\<close> represents the abstract one.\<close>

definition lock_repr :: "'a sstate_scheme \<Rightarrow> ghost \<Rightarrow> obj_ptr \<Rightarrow> alock \<Rightarrow> bool" where
  "lock_repr s Q l a \<longleftrightarrow> pcb_ok s Q \<and> (\<exists>ld. locks s l = Some ld \<and> owner ld = fst a
     \<and> locked ld = (fst a \<noteq> None) \<and> Q (LockWaiters l) = Some (map QueueNode (snd a))
     \<and> (fst a = None \<longrightarrow> snd a = []) \<and> (\<forall>q. fst a = Some q \<longrightarrow> pcbs s q \<noteq> None))"

lemma lock_reprD:
  assumes "lock_repr s Q l (ow, ws)"
  shows "sched_inv (lists s) (pcbs s) Q" "locks s l = Some \<lparr>locked = (ow \<noteq> None), owner = ow\<rparr>"
    "Q (LockWaiters l) = Some (map QueueNode ws)" "ow = None \<Longrightarrow> ws = []"
    "ow = Some q \<Longrightarrow> \<exists>c. pcbs s q = Some c"
  using assms by (auto simp: lock_repr_def pcb_ok_def intro: lock.equality)

definition names_lock :: "hw \<Rightarrow> 'a sstate_scheme \<Rightarrow> int \<Rightarrow> obj_ptr \<Rightarrow> bool" where
  "names_lock H s i l \<longleftrightarrow> (\<exists>n. GetCheckSync H i LOCK s = Some (SUCCESS H, Some n)
     \<and> sync_object (Some n) s = Some (U_Lock (Some l)))"

text \<open>The caller: the running process, in no queue.\<close>

definition runs :: "'a sstate_scheme \<Rightarrow> pcb_ptr \<Rightarrow> bool" where
  "runs s q \<longleftrightarrow> current_process s = Some q \<and> (\<exists>c. pcbs s q = Some c \<and> idle_state (state c))"

lemma acquire_ok:
  assumes rep: "lock_repr s Q l a" and id: "names_lock H s i l" and q: "runs s q" and err: "ERROR H \<noteq> SUCCESS H"
  shows "\<exists>s' Q'. SyncLockAcquire H i s = Some (if fst a = None then SUCCESS H else PCB_BLOCKED, s')
    \<and> lock_repr s' Q' l (spec_acquire q a)
    \<and> (\<exists>c c'. pcbs s q = Some c \<and> pcbs s' = (pcbs s)(q \<mapsto> c') \<and> state c' = (if fst a = None then state c else PROCESS_BLOCKED))
    \<and> current_process s' = current_process s"
proof -
  obtain ow ws where a: "a = (ow, ws)" by (cases a)
  note r = lock_reprD [OF rep [unfolded a]]
  obtain c where c: "current_process s = Some q" "pcbs s q = Some c" "idle_state (state c)" using q by (auto simp: runs_def)
  obtain n where n: "GetCheckSync H i LOCK s = Some (SUCCESS H, Some n)" "sync_object (Some n) s = Some (U_Lock (Some l))"
    using id by (auto simp: names_lock_def)
  show ?thesis
  proof (cases ow)
    case None
    define s' where "s' = s\<lparr>locks := (locks s)(l \<mapsto> \<lparr>locked = True, owner = Some q\<rparr>)\<rparr>"
    have "SyncLockAcquire H i s = Some (SUCCESS H, s')"
      using n err r(2) None c(1) by (simp add: SyncLockAcquire_def upd_lock_def s'_def)
    moreover have "lock_repr s' Q l (Some q, [])"
      using r(1,3,4) None c by (simp add: lock_repr_def pcb_ok_def s'_def)
    moreover have "pcbs s' = (pcbs s)(q \<mapsto> c)" using c(2) by (simp add: s'_def fun_upd_idem)
    ultimately show ?thesis using a None r(4) c(2) by (intro exI [of _ s'] exI [of _ Q]) (auto simp: s'_def)
  next
    case (Some ow')
    let ?c = "c\<lparr>state := PROCESS_BLOCKED, waiting_lock_id := i\<rparr>"
    let ?Q = "Q(LockWaiters l \<mapsto> map QueueNode ws @ [QueueNode q])"
    obtain h' where h': "insert_tail (Some (LockWaiters l)) (Some (Elem (QueueNode q))) (lists s) = Some h'"
      "sched_inv h' ((pcbs s)(q \<mapsto> ?c)) ?Q"
      using block_ok [OF r(1) c(2,3) r(3), of ?c] by auto
    define s' where "s' = s\<lparr>lists := h', pcbs := (pcbs s)(q \<mapsto> ?c)\<rparr>"
    have "SyncLockAcquire H i s = Some (PCB_BLOCKED, s')"
      using n err r(2) Some c h'(1) by (simp add: SyncLockAcquire_def upd_pcb_def on_lists_def s'_def)
    moreover have "lock_repr s' ?Q l (Some ow', ws @ [q])"
      using r(2,5) Some h'(2) by (auto simp: lock_repr_def pcb_ok_def s'_def)
    ultimately show ?thesis using a Some c(2)
      by (intro exI [of _ s'] exI [of _ ?Q] conjI exI [of _ c] exI [of _ ?c]) (simp_all add: s'_def)
  qed
qed

lemma hand_over_ok:
  assumes rep: "lock_repr s Q l (Some q, ws)"
  shows "\<exists>s' Q'. hand_over H l s = Some s' \<and> lock_repr s' Q' l (spec_release q (Some q, ws))
    \<and> pcbs s' = (case ws of [] \<Rightarrow> pcbs s
        | w # _ \<Rightarrow> (pcbs s)(w := map_option (\<lambda>c. c\<lparr>waiting_lock_id := -1, state := PROCESS_READY\<rparr>) (pcbs s w)))
    \<and> counts (lists s) (LockWaiters l) = Some (int (length ws))
    \<and> current_process s' = current_process s \<and> sync_table s' = sync_table s \<and> sync_objs s' = sync_objs s
    \<and> cvars s' = cvars s \<and> (\<forall>l'. l' \<noteq> LockWaiters l \<and> l' \<noteq> ReadyQ \<longrightarrow> Q' l' = Q l')
    \<and> (\<forall>ys. Q ReadyQ = Some ys \<longrightarrow> Q' ReadyQ = Some (ys @ map QueueNode (take 1 ws)))"
proof -
  note r = lock_reprD [OF rep]
  have cnt: "counts (lists s) (LockWaiters l) = Some (int (length ws))"
    using lists_ok_count [OF sched_invD(1) [OF r(1)] r(3)] by simp
  show ?thesis
  proof (cases ws)
    case Nil
    define s' where "s' = s\<lparr>locks := (locks s)(l \<mapsto> \<lparr>locked = False, owner = None\<rparr>)\<rparr>"
    have "hand_over H l s = Some s'" using cnt Nil r(2) by (simp add: hand_over_def upd_lock_def s'_def)
    moreover have "lock_repr s' Q l (None, [])" using r(1,3) Nil by (simp add: lock_repr_def pcb_ok_def s'_def)
    ultimately show ?thesis using Nil cnt by (intro exI [of _ s'] exI [of _ Q]) (simp add: s'_def)
  next
    case (Cons w vs)
    have wq: "Q (LockWaiters l) = Some (QueueNode w # map QueueNode vs)" using r(3) Cons by simp
    obtain ys where ys: "Q ReadyQ = Some ys" by (rule sched_inv_queue [OF r(1), of ReadyQ]) auto
    obtain c where c: "pcbs s w = Some c"
      using sched_invD(3) [OF r(1) in_qI [where Q = Q, OF wq], of w] by auto
    let ?c = "c\<lparr>waiting_lock_id := -1, state := PROCESS_READY\<rparr>"
    let ?Q = "Q(LockWaiters l \<mapsto> map QueueNode vs, ReadyQ \<mapsto> ys @ [QueueNode w])"
    obtain h1 h2 where h: "pop H (Some (LockWaiters l)) (lists s) = Some (Some (Elem (QueueNode w)), h1)"
      "insert_tail (Some ReadyQ) (Some (Elem (QueueNode w))) h1 = Some h2"
      "sched_inv h2 ((pcbs s)(w \<mapsto> ?c)) ?Q"
      using wake_ok [OF r(1) wq _ ys c, of ?c H] by auto
    define s' where "s' = s\<lparr>pcbs := (pcbs s)(w \<mapsto> ?c), lists := h2,
       locks := (locks s)(l \<mapsto> \<lparr>locked = True, owner = Some w\<rparr>)\<rparr>"
    have "hand_over H l s = Some s'"
      using cnt Cons r(2) h(1,2) c
      by (simp add: hand_over_def upd_lock_def upd_pcb_def add_to_ready_run s'_def)
    moreover have "lock_repr s' ?Q l (Some w, vs)" using h(3) by (simp add: lock_repr_def pcb_ok_def s'_def)
    ultimately show ?thesis using Cons cnt c ys by (intro exI [of _ s'] exI [of _ ?Q]) (simp add: s'_def)
  qed
qed


lemma release_ok:
  assumes rep: "lock_repr s Q l a" and id: "names_lock H s i l" and q: "runs s q"
    and err: "ERROR H \<noteq> SUCCESS H" "SUCCESS H = 0" and own: "fst a = Some q"
  shows "\<exists>s' Q'. SyncLockRelease H i s = Some (SUCCESS H, s') \<and> lock_repr s' Q' l (spec_release q a)"
proof -
  obtain ws where a: "a = (Some q, ws)" using own by (cases a) auto
  note rep' = rep [unfolded a]
  obtain n where n: "GetCheckSync H i LOCK s = Some (SUCCESS H, Some n)" "sync_object (Some n) s = Some (U_Lock (Some l))"
    using id by (auto simp: names_lock_def)
  obtain s' Q' where s': "hand_over H l s = Some s'" "lock_repr s' Q' l (spec_release q (Some q, ws))"
    "counts (lists s) (LockWaiters l) = Some (int (length ws))"
    using hand_over_ok [OF rep', of H] by blast
  have "SyncLockRelease H i s = Some (SUCCESS H, s')"
    using n err lock_reprD(2) [OF rep'] q s'(1,3) by (auto simp: SyncLockRelease_def runs_def)
  with s'(2) show ?thesis unfolding a by blast
qed

lemma release_refused:
  assumes rep: "lock_repr s Q l a" and id: "names_lock H s i l" and q: "runs s q"
    and err: "ERROR H \<noteq> SUCCESS H" and own: "fst a = Some p" "p \<noteq> q"
  shows "SyncLockRelease H i s = Some (ERROR H, s)"
proof -
  obtain ws where a: "a = (Some p, ws)" using own by (cases a) auto
  obtain n where n: "GetCheckSync H i LOCK s = Some (SUCCESS H, Some n)" "sync_object (Some n) s = Some (U_Lock (Some l))"
    using id by (auto simp: names_lock_def)
  show ?thesis
    using n err lock_reprD(2,5) [OF rep [unfolded a]] q own(2)
    by (auto simp: SyncLockRelease_def runs_def trace_owner_def get_pcb_def)
qed

section \<open>Runs\<close>

datatype lock_event = Requested pcb_ptr | Released pcb_ptr | Refused pcb_ptr | Elsewhere

text \<open>
  One step of the kernel as far as the lock \<open>l\<close>, named by \<open>i\<close>, is concerned: the running
  process asks for it, gives it back, or is refused to; or anything else happens that leaves
  the lock and its queue alone, such as scheduling another process.
\<close>

inductive lock_step ::
  "hw \<Rightarrow> int \<Rightarrow> obj_ptr \<Rightarrow> lock_event \<Rightarrow> sstate \<Rightarrow> sstate \<Rightarrow> bool" for H i l where
  request: "runs s p \<Longrightarrow> names_lock H s i l \<Longrightarrow> SyncLockAcquire H i s = Some (rc, s') \<Longrightarrow>
    lock_step H i l (Requested p) s s'"
| release: "runs s p \<Longrightarrow> names_lock H s i l \<Longrightarrow> SyncLockRelease H i s = Some (SUCCESS H, s') \<Longrightarrow>
    lock_step H i l (Released p) s s'"
| refuse: "runs s p \<Longrightarrow> names_lock H s i l \<Longrightarrow> SyncLockRelease H i s = Some (ERROR H, s') \<Longrightarrow>
    lock_step H i l (Refused p) s s'"
| other: "(\<And>Q a. lock_repr s Q l a \<Longrightarrow> \<exists>Q'. lock_repr s' Q' l a) \<Longrightarrow> lock_step H i l Elsewhere s s'"

inductive lock_run :: "hw \<Rightarrow> int \<Rightarrow> obj_ptr \<Rightarrow> sstate \<Rightarrow> lock_event list \<Rightarrow> sstate \<Rightarrow> bool" for H i l s0 where
  start: "lock_run H i l s0 [] s0"
| step: "lock_run H i l s0 es s \<Longrightarrow> lock_step H i l e s s' \<Longrightarrow> lock_run H i l s0 (es @ [e]) s'"

inductive_cases lock_step_requested: "lock_step H i l (Requested p) s s'"
inductive_cases lock_step_released: "lock_step H i l (Released p) s s'"
inductive_cases lock_step_refused: "lock_step H i l (Refused p) s s'"
inductive_cases lock_step_elsewhere: "lock_step H i l Elsewhere s s'"

fun requests :: "lock_event list \<Rightarrow> pcb_ptr list" where
  "requests [] = []"
| "requests (Requested p # es) = p # requests es"
| "requests (_ # es) = requests es"

fun releases :: "lock_event list \<Rightarrow> pcb_ptr list" where
  "releases [] = []"
| "releases (Released p # es) = p # releases es"
| "releases (_ # es) = releases es"

lemma requests_append: "requests (es @ fs) = requests es @ requests fs"
  by (induction es rule: requests.induct) simp_all

lemma releases_append: "releases (es @ fs) = releases es @ releases fs"
  by (induction es rule: releases.induct) simp_all

text \<open>Who holds the lock and who waits, as one line.\<close>

fun in_line :: "alock \<Rightarrow> pcb_ptr list" where
  "in_line (None, ws) = ws"
| "in_line (Some p, ws) = p # ws"

lemma spec_acquire_line: "in_line (spec_acquire p a) = in_line a @ [p]" if "fst a = None \<longrightarrow> snd a = []"
  using that by (cases "(p, a)" rule: spec_acquire.cases) auto

lemma spec_release_line: "fst a = Some p \<Longrightarrow> in_line a = p # in_line (spec_release p a)"
  by (cases "(p, a)" rule: spec_release.cases) auto

text \<open>A release that reports success was made by the owner.\<close>

lemma release_success_owner:
  assumes rep: "lock_repr s Q l a" and id: "names_lock H s i l" and q: "runs s q"
    and err: "ERROR H \<noteq> SUCCESS H" and r: "SyncLockRelease H i s = Some (SUCCESS H, s')"
  shows "fst a = Some q"
proof (rule ccontr)
  assume no: "fst a \<noteq> Some q"
  obtain ow ws where a: "a = (ow, ws)" by (cases a)
  obtain n where n: "GetCheckSync H i LOCK s = Some (SUCCESS H, Some n)" "sync_object (Some n) s = Some (U_Lock (Some l))"
    using id by (auto simp: names_lock_def)
  show False
    using n err lock_reprD(2) [OF rep [unfolded a]] q no r a
    by (auto simp: SyncLockRelease_def runs_def trace_owner_def get_pcb_def split: Option.bind_splits if_splits)
qed

lemma refused_same:
  assumes rep: "lock_repr s Q l a" and id: "names_lock H s i l" and q: "runs s q"
    and err: "ERROR H \<noteq> SUCCESS H" "SUCCESS H = 0" and r: "SyncLockRelease H i s = Some (ERROR H, s')"
  shows "s' = s"
proof (cases "fst a")
  case None
  obtain ws where a: "a = (None, ws)" using None by (cases a) auto
  obtain n where n: "GetCheckSync H i LOCK s = Some (SUCCESS H, Some n)" "sync_object (Some n) s = Some (U_Lock (Some l))"
    using id by (auto simp: names_lock_def)
  show ?thesis using n err lock_reprD(2) [OF rep [unfolded a]] q r
    by (auto simp: SyncLockRelease_def runs_def trace_owner_def get_pcb_def)
next
  case (Some p)
  then show ?thesis
    using release_refused [OF rep id q err(1) Some] release_ok [OF rep id q err] r err(1) by (cases "p = q") auto
qed

lemma lock_run_line:
  assumes "lock_run H i l s0 es s" "lock_repr s0 Q0 l (None, [])" "ERROR H \<noteq> SUCCESS H" "SUCCESS H = 0"
  shows "\<exists>Q a. lock_repr s Q l a \<and> requests es = releases es @ in_line a"
  using assms(1)
proof (induction rule: lock_run.induct)
  case start
  show ?case using assms(2) by (intro exI [of _ Q0] exI [of _ "(None, [])"]) simp
next
  case (step es s e s')
  obtain Q a where ih: "lock_repr s Q l a" "requests es = releases es @ in_line a" using step.IH by blast
  show ?case
  proof (cases e)
    case (Requested p)
    from step.hyps(2) obtain rc where r: "runs s p" "names_lock H s i l" "SyncLockAcquire H i s = Some (rc, s')"
      unfolding Requested by (rule lock_step_requested)
    obtain Q' where "lock_repr s' Q' l (spec_acquire p a)" using acquire_ok [OF ih(1) r(2,1) assms(3)] r(3) by auto
    moreover have "fst a = None \<longrightarrow> snd a = []" using ih(1) by (auto simp: lock_repr_def)
    ultimately show ?thesis using ih(2) Requested spec_acquire_line [of a p]
      by (intro exI [of _ Q'] exI [of _ "spec_acquire p a"]) (simp add: requests_append releases_append)
  next
    case (Released p)
    from step.hyps(2) have r: "runs s p" "names_lock H s i l" "SyncLockRelease H i s = Some (SUCCESS H, s')"
      unfolding Released by (auto elim: lock_step_released)
    have own: "fst a = Some p" using release_success_owner [OF ih(1) r(2,1) assms(3) r(3)] .
    obtain Q' where "lock_repr s' Q' l (spec_release p a)" using release_ok [OF ih(1) r(2,1) assms(3,4) own] r(3) by auto
    then show ?thesis using ih(2) Released spec_release_line [OF own]
      by (intro exI [of _ Q'] exI [of _ "spec_release p a"]) (simp add: requests_append releases_append)
  next
    case (Refused p)
    from step.hyps(2) have r: "runs s p" "names_lock H s i l" "SyncLockRelease H i s = Some (ERROR H, s')"
      unfolding Refused by (auto elim: lock_step_refused)
    have "s' = s" using refused_same [OF ih(1) r(2,1) assms(3,4) r(3)] .
    then show ?thesis using ih Refused by (intro exI [of _ Q] exI [of _ a]) (simp add: requests_append releases_append)
  next
    case Elsewhere
    have "\<exists>Q'. lock_repr s' Q' l a"
      using step.hyps(2) ih(1) unfolding Elsewhere by (elim lock_step_elsewhere) blast
    then obtain Q' where "lock_repr s' Q' l a" by blast
    then show ?thesis using ih(2) Elsewhere
      by (intro exI [of _ Q'] exI [of _ a]) (simp add: requests_append releases_append)
  qed
qed


section \<open>Waiting, signalling, broadcasting\<close>

definition cvar_repr :: "'a sstate_scheme \<Rightarrow> ghost \<Rightarrow> obj_ptr \<Rightarrow> pcb_ptr list \<Rightarrow> bool" where
  "cvar_repr s Q c ws \<longleftrightarrow> pcb_ok s Q \<and> cvars s c = Some () \<and> Q (CvarWaiters c) = Some (map QueueNode ws)"

definition names_cvar :: "hw \<Rightarrow> 'a sstate_scheme \<Rightarrow> int \<Rightarrow> obj_ptr \<Rightarrow> bool" where
  "names_cvar H s i c \<longleftrightarrow> (\<exists>n. GetCheckSync H i CVAR s = Some (SUCCESS H, Some n)
     \<and> sync_object (Some n) s = Some (U_Cvar (Some c)))"

lemma cvar_reprD:
  assumes "cvar_repr s Q c ws"
  shows "sched_inv (lists s) (pcbs s) Q" "cvars s c = Some ()" "Q (CvarWaiters c) = Some (map QueueNode ws)"
  using assms by (simp_all add: cvar_repr_def pcb_ok_def)

lemma cvar_count:
  assumes rep: "cvar_repr s Q c ws"
  shows "counts (lists s) (CvarWaiters c) = Some (int (length ws))"
  using lists_ok_count [OF sched_invD(1) [OF cvar_reprD(1) [OF rep]] cvar_reprD(3) [OF rep]] by simp

lemma wake_waiter_ok:
  assumes rep: "cvar_repr s Q c (w # ws)" and ys: "Q ReadyQ = Some (map QueueNode ys)"
  shows "\<exists>s' Q' x. wake_waiter H c s = Some s' \<and> cvar_repr s' Q' c ws \<and> Q' ReadyQ = Some (map QueueNode (ys @ [w]))
    \<and> pcbs s w = Some x \<and> pcbs s' = (pcbs s)(w \<mapsto> x\<lparr>waiting_cvar_id := -1, state := PROCESS_READY\<rparr>)"
proof -
  note r = cvar_reprD [OF rep]
  have wq: "Q (CvarWaiters c) = Some (QueueNode w # map QueueNode ws)" using r(3) by simp
  obtain x where x: "pcbs s w = Some x" using sched_invD(3) [OF r(1) in_qI [where Q = Q, OF wq], of w] by auto
  let ?x = "x\<lparr>waiting_cvar_id := -1, state := PROCESS_READY\<rparr>"
  let ?Q = "Q(CvarWaiters c \<mapsto> map QueueNode ws, ReadyQ \<mapsto> map QueueNode ys @ [QueueNode w])"
  obtain h1 h2 where h: "pop H (Some (CvarWaiters c)) (lists s) = Some (Some (Elem (QueueNode w)), h1)"
    "insert_tail (Some ReadyQ) (Some (Elem (QueueNode w))) h1 = Some h2" "sched_inv h2 ((pcbs s)(w \<mapsto> ?x)) ?Q"
    using wake_ok [OF r(1) wq _ ys x, of ?x H] by auto
  define s' where "s' = s\<lparr>pcbs := (pcbs s)(w \<mapsto> ?x), lists := h2\<rparr>"
  have "wake_waiter H c s = Some s'"
    using h(1,2) x by (simp add: wake_waiter_def upd_pcb_def add_to_ready_run s'_def)
  moreover have "cvar_repr s' ?Q c ws" using h(3) r(2) by (simp add: cvar_repr_def pcb_ok_def s'_def)
  ultimately show ?thesis using x by (intro exI [of _ s'] exI [of _ ?Q] exI [of _ x]) (simp add: s'_def)
qed

definition woken :: "pcb_ptr list \<Rightarrow> (pcb_ptr \<rightharpoonup> pcb) \<Rightarrow> (pcb_ptr \<rightharpoonup> pcb)" where
  "woken ws P = (\<lambda>q. if q \<in> set ws then map_option (\<lambda>x. x\<lparr>waiting_cvar_id := -1, state := PROCESS_READY\<rparr>) (P q) else P q)"

lemma woken_Cons: "P w = Some x \<Longrightarrow> w \<notin> set ws \<Longrightarrow>
    woken ws (P(w \<mapsto> x\<lparr>waiting_cvar_id := -1, state := PROCESS_READY\<rparr>)) = woken (w # ws) P"
  by (auto simp: woken_def fun_eq_iff)

lemma broadcast_loop_ok:
  assumes "cvar_repr s Q c ws" "Q ReadyQ = Some (map QueueNode ys)"
  shows "\<exists>s' Q'. broadcast_loop H c s = Some s' \<and> cvar_repr s' Q' c [] \<and> Q' ReadyQ = Some (map QueueNode (ys @ ws))
    \<and> pcbs s' = woken ws (pcbs s)"
  using assms
proof (induction ws arbitrary: s Q ys)
  case Nil
  then show ?case using cvar_count [OF Nil.prems(1)]
    by (intro exI [of _ s] exI [of _ Q]) (simp add: broadcast_loop.simps [of H c s] woken_def)
next
  case (Cons w ws)
  obtain s1 Q1 x where s1: "wake_waiter H c s = Some s1" "cvar_repr s1 Q1 c ws" "Q1 ReadyQ = Some (map QueueNode (ys @ [w]))"
    "pcbs s w = Some x" "pcbs s1 = (pcbs s)(w \<mapsto> x\<lparr>waiting_cvar_id := -1, state := PROCESS_READY\<rparr>)"
    using wake_waiter_ok [OF Cons.prems] by blast
  have nw: "w \<notin> set ws"
    using lists_ok_distinct [OF sched_invD(1) [OF cvar_reprD(1) [OF Cons.prems(1)]] cvar_reprD(3) [OF Cons.prems(1)]]
    by (simp add: distinct_map image_iff)
  obtain s2 Q2 where s2: "broadcast_loop H c s1 = Some s2" "cvar_repr s2 Q2 c []"
    "Q2 ReadyQ = Some (map QueueNode ((ys @ [w]) @ ws))" "pcbs s2 = woken ws (pcbs s1)"
    using Cons.IH [OF s1(2,3)] by blast
  have "broadcast_loop H c s = Some s2"
    using cvar_count [OF Cons.prems(1)] s1(1) s2(1) by (simp add: broadcast_loop.simps [of H c s])
  moreover have "pcbs s2 = woken (w # ws) (pcbs s)" unfolding s2(4) s1(5) by (rule woken_Cons [where P = "pcbs s", OF s1(4) nw])
  ultimately show ?case using s2(2,3) by (intro exI [of _ s2] exI [of _ Q2]) simp
qed

section \<open>Properties\<close>

text \<open>
  C1: In every run of acquires, releases and other steps that leave the representation of the
  lock as it is (the release inside \<open>SyncCvarWait\<close> is a property of its own), from a state in
  which the lock is free, the processes that asked for the lock are, in the order in which they asked,
  exactly those that have given it back, followed by the one that owns it, followed by those
  that wait: the lock has at most one owner at a time, is handed on first come first served,
  nobody overtakes and no request is forgotten.
\<close>

theorem lock_first_come_first_served:
  assumes "lock_run H i l s0 es s" "lock_repr s0 Q0 l (None, [])" "ERROR H \<noteq> SUCCESS H" "SUCCESS H = 0"
  shows "\<exists>Q ow ws ld. pcb_ok s Q \<and> locks s l = Some ld \<and> owner ld = ow \<and> locked ld = (ow \<noteq> None)
    \<and> Q (LockWaiters l) = Some (map QueueNode ws)
    \<and> requests es = releases es @ (case ow of None \<Rightarrow> [] | Some p \<Rightarrow> [p]) @ ws \<and> (ow = None \<longrightarrow> ws = [])"
proof -
  obtain Q a where a: "lock_repr s Q l a" "requests es = releases es @ in_line a"
    using lock_run_line [OF assms] by blast
  obtain ow ws where ow: "a = (ow, ws)" by (cases a)
  have "in_line a = (case ow of None \<Rightarrow> [] | Some p \<Rightarrow> [p]) @ ws" unfolding ow by (cases ow) simp_all
  then show ?thesis using a lock_reprD [OF a(1) [unfolded ow]]
    by (intro exI [of _ Q] exI [of _ ow] exI [of _ ws] exI [of _ "\<lparr>locked = (ow \<noteq> None), owner = ow\<rparr>"])
       (auto simp: pcb_ok_def)
qed

definition locked_system :: sstate where
  "locked_system = object_system\<lparr>locks := [30 \<mapsto> \<lparr>locked = True, owner = Some 1\<rparr>]\<rparr>"

lemma object_system_locks:
  "runs object_system 1" "names_lock demo_hw object_system 1 30"
  "SyncLockAcquire demo_hw 1 object_system = Some (0, locked_system)"
  "lock_repr object_system (map_of object_lists) 30 (None, [])"
proof -
  show "runs object_system 1"
    by (simp add: runs_def object_system_def family_pcbs_def blank_pcb_def idle_state_def)
  have g: "GetCheckSync demo_hw 1 LOCK object_system = Some (0, Some 201)"
    "sync_object (Some 201) object_system = Some (U_Lock (Some 30))"
    by (simp_all add: GetCheckSync_def object_system_def demo_objs_def MAX_SYNCS_def arr_get_def sync_object_def)
  then show "names_lock demo_hw object_system 1 30" by (simp add: names_lock_def)
  have l: "locks object_system 30 = Some \<lparr>locked = False, owner = None\<rparr>" "current_process object_system = Some 1"
    "locks object_system = [30 \<mapsto> \<lparr>locked = False, owner = None\<rparr>]"
    by (simp_all add: object_system_def)
  show "SyncLockAcquire demo_hw 1 object_system = Some (0, locked_system)"
    using g l by (simp add: SyncLockAcquire_def upd_lock_def locked_system_def)
  show "lock_repr object_system (map_of object_lists) 30 (None, [])"
    using object_lists_ok(1) l by (simp add: lock_repr_def object_lists_def family_lists_def)
qed

lemma lock_first_come_first_served_witness:
  "\<exists>ld. locks locked_system 30 = Some ld \<and> lock_run demo_hw 1 30 object_system [Requested 1] locked_system
     \<and> [1] = (case owner ld of None \<Rightarrow> [] | Some p \<Rightarrow> [p])"
proof -
  have "lock_run demo_hw 1 30 object_system ([] @ [Requested 1]) locked_system"
    by (rule lock_run.step [OF lock_run.start lock_step.request [OF object_system_locks(1-3)]])
  then have run: "lock_run demo_hw 1 30 object_system [Requested 1] locked_system" by simp
  obtain Q ow ws ld where "locks locked_system 30 = Some ld" "owner ld = ow"
    "requests [Requested 1] = releases [Requested 1] @ (case ow of None \<Rightarrow> [] | Some p \<Rightarrow> [p]) @ ws" "ow = None \<longrightarrow> ws = []"
    using lock_first_come_first_served [OF run object_system_locks(4)] by auto
  then show ?thesis using run by (cases ow) auto
qed

text \<open>
  C16: Waiting on a condition variable as the owner of the lock gives the lock up, to the
  first process waiting for it if there is one, and in the same call puts the caller, now
  blocked, at the tail of the variable's waiters: no signal sent afterwards can miss it.
\<close>

theorem cvar_wait_releases_and_blocks:
  assumes "lock_repr s Q l (Some q, ws)" "cvar_repr s Q c vs" "runs s q" "names_cvar H s i c" "names_lock H s j l"
    "ERROR H \<noteq> SUCCESS H"
  shows "\<exists>s' Q'. SyncCvarWait H i j s = Some (PCB_BLOCKED, s') \<and> lock_repr s' Q' l (spec_release q (Some q, ws))
    \<and> cvar_repr s' Q' c (vs @ [q]) \<and> map_option state (pcbs s' q) = Some PROCESS_BLOCKED
    \<and> (\<forall>w vs'. ws = w # vs' \<longrightarrow> map_option state (pcbs s' w) = Some PROCESS_READY)"
proof -
  note lr = lock_reprD [OF assms(1)] and cr = cvar_reprD [OF assms(2)]
  obtain x where x: "current_process s = Some q" "pcbs s q = Some x" "idle_state (state x)"
    using assms(3) by (auto simp: runs_def)
  obtain n where n: "GetCheckSync H i CVAR s = Some (SUCCESS H, Some n)" "sync_object (Some n) s = Some (U_Cvar (Some c))"
    using assms(4) by (auto simp: names_cvar_def)
  obtain m where m: "GetCheckSync H j LOCK s = Some (SUCCESS H, Some m)" "sync_object (Some m) s = Some (U_Lock (Some l))"
    using assms(5) by (auto simp: names_lock_def)
  obtain s1 Q1 where s1: "hand_over H l s = Some s1" "lock_repr s1 Q1 l (spec_release q (Some q, ws))"
    "pcbs s1 = (case ws of [] \<Rightarrow> pcbs s
        | w # _ \<Rightarrow> (pcbs s)(w := map_option (\<lambda>c. c\<lparr>waiting_lock_id := -1, state := PROCESS_READY\<rparr>) (pcbs s w)))"
    "cvars s1 = cvars s" "\<forall>l'. l' \<noteq> LockWaiters l \<and> l' \<noteq> ReadyQ \<longrightarrow> Q1 l' = Q l'"
    using hand_over_ok [OF assms(1), of H] by blast
  have nq: "QueueNode q \<notin> queued Q" using sched_inv_idle_unqueued [OF lr(1) x(2,3)] .
  have qw: "w \<noteq> q" if "w \<in> set ws" for w
  proof
    assume "w = q"
    then have "QueueNode q \<in> queued Q" using that by (intro queuedI [where Q = Q, OF lr(3)]) auto
    with nq show False ..
  qed
  have x1: "pcbs s1 q = Some x" using s1(3) x(2) qw by (cases ws) auto
  obtain a where a: "spec_release q (Some q, ws) = a" by blast
  have si1: "sched_inv (lists s1) (pcbs s1) Q1" using s1(2) by (simp add: lock_repr_def pcb_ok_def)
  have cq: "Q1 (CvarWaiters c) = Some (map QueueNode vs)" using s1(5) cr(3) by simp
  let ?x = "x\<lparr>waiting_cvar_id := i, state := PROCESS_BLOCKED\<rparr>"
  let ?Q = "Q1(CvarWaiters c \<mapsto> map QueueNode vs @ [QueueNode q])"
  obtain h' where h': "insert_tail (Some (CvarWaiters c)) (Some (Elem (QueueNode q))) (lists s1) = Some h'"
    "sched_inv h' ((pcbs s1)(q \<mapsto> ?x)) ?Q"
    using block_ok [OF si1 x1 x(3) cq, of ?x] by auto
  define s' where "s' = s1\<lparr>lists := h', pcbs := (pcbs s1)(q \<mapsto> ?x)\<rparr>"
  have "SyncCvarWait H i j s = Some (PCB_BLOCKED, s')"
    using n m assms(6) lr(2) x(1) s1(1,4) cr(2) h'(1) x1
    by (simp add: SyncCvarWait_def on_lists_def upd_pcb_def s'_def)
  moreover have "lock_repr s' ?Q l (spec_release q (Some q, ws))"
    using s1(2) h'(2) unfolding lock_repr_def pcb_ok_def by (auto simp: s'_def)
  moreover have "cvar_repr s' ?Q c (vs @ [q])" using h'(2) s1(4) cr(2) by (simp add: cvar_repr_def pcb_ok_def s'_def)
  moreover have "map_option state (pcbs s' w) = Some PROCESS_READY" if w: "ws = w # vs'" for w vs'
  proof -
    have "in_q Q (QueueNode w) (LockWaiters l)" using lr(3) w by (simp add: in_q_def)
    then obtain y where "pcbs s w = Some y" using sched_invD(3) [OF lr(1)] by blast
    then show ?thesis using s1(3) w qw [of w] by (simp add: s'_def)
  qed
  ultimately show ?thesis by (intro exI [of _ s'] exI [of _ ?Q]) (simp add: s'_def)
qed

lemma locked_system_ok:
  "lock_repr locked_system (map_of object_lists) 30 (Some 1, [])" "cvar_repr locked_system (map_of object_lists) 40 []"
  "runs locked_system 1" "names_cvar demo_hw locked_system 2 40" "names_lock demo_hw locked_system 1 30"
proof -
  have p: "pcb_ok locked_system (map_of object_lists)" using object_lists_ok(1) by (simp add: pcb_ok_def locked_system_def)
  have pc: "pcbs locked_system 1 = Some (blank_pcb\<lparr>pid := 1, state := PROCESS_RUNNING\<rparr>)" "current_process locked_system = Some 1"
    by (simp_all add: locked_system_def object_system_def family_pcbs_def)
  show "lock_repr locked_system (map_of object_lists) 30 (Some 1, [])"
    using p pc by (simp add: lock_repr_def locked_system_def object_lists_def family_lists_def)
  show "cvar_repr locked_system (map_of object_lists) 40 []"
    using p by (simp add: cvar_repr_def locked_system_def object_system_def object_lists_def family_lists_def)
  show "runs locked_system 1" using pc by (simp add: runs_def idle_state_def)
  show "names_cvar demo_hw locked_system 2 40" "names_lock demo_hw locked_system 1 30"
    by (simp_all add: names_cvar_def names_lock_def GetCheckSync_def sync_object_def locked_system_def object_system_def
        demo_objs_def MAX_SYNCS_def arr_get_def)
qed

lemma cvar_wait_releases_and_blocks_witness:
  "\<exists>s' Q'. SyncCvarWait demo_hw 2 1 locked_system = Some (30, s') \<and> lock_repr s' Q' 30 (None, []) \<and> cvar_repr s' Q' 40 [1]"
  using cvar_wait_releases_and_blocks [OF locked_system_ok] by (auto simp: PCB_BLOCKED_def)

text \<open>
  C17: A broadcast makes every waiter of the condition variable ready, in the order in which
  they came, leaves the variable without waiters and always ends; but whenever it woke
  somebody it returns no value, so that the handler that stores its result has none.
\<close>

theorem cvar_broadcast_wakes_all:
  assumes "cvar_repr s Q c ws" "Q ReadyQ = Some (map QueueNode ys)" "names_cvar H s i c" "ERROR H \<noteq> SUCCESS H"
  shows "\<exists>s' Q'. SyncCvarBroadcast H i s = Some (if ws = [] then Some 0 else None, s') \<and> cvar_repr s' Q' c []
    \<and> Q' ReadyQ = Some (map QueueNode (ys @ ws))
    \<and> (\<forall>w \<in> set ws. map_option state (pcbs s' w) = Some PROCESS_READY) \<and> (\<forall>q. q \<notin> set ws \<longrightarrow> pcbs s' q = pcbs s q)"
proof -
  obtain n where n: "GetCheckSync H i CVAR s = Some (SUCCESS H, Some n)" "sync_object (Some n) s = Some (U_Cvar (Some c))"
    using assms(3) by (auto simp: names_cvar_def)
  obtain s' Q' where s': "broadcast_loop H c s = Some s'" "cvar_repr s' Q' c []" "Q' ReadyQ = Some (map QueueNode (ys @ ws))"
    "pcbs s' = woken ws (pcbs s)"
    using broadcast_loop_ok [OF assms(1,2)] by blast
  have cnt: "counts (lists s) (CvarWaiters c) = Some (int (length ws))" by (rule cvar_count [OF assms(1)])
  have live: "\<exists>x. pcbs s w = Some x" if "w \<in> set ws" for w
    using sched_invD(3) [OF cvar_reprD(1) [OF assms(1)] in_qI [where Q = Q, OF cvar_reprD(3) [OF assms(1)]], of w] that by auto
  have "\<forall>w \<in> set ws. map_option state (pcbs s' w) = Some PROCESS_READY" "\<forall>q. q \<notin> set ws \<longrightarrow> pcbs s' q = pcbs s q"
    using live unfolding s'(4) by (fastforce simp: woken_def)+
  moreover have "SyncCvarBroadcast H i s = Some (if ws = [] then Some 0 else None, if ws = [] then s else s')"
    using n assms(4) cvar_reprD(2) [OF assms(1)] cnt s'(1) by (simp add: SyncCvarBroadcast_def)
  moreover have "ws = [] \<Longrightarrow> s' = s" using s'(1) cnt by (simp add: broadcast_loop.simps [of H c s])
  ultimately show ?thesis using s'(2,3) by (intro exI [of _ s'] exI [of _ Q']) auto
qed

lemma cvar_broadcast_wakes_all_witness:
  "\<exists>s' Q'. SyncCvarBroadcast demo_hw 2 locked_system = Some (Some 0, s') \<and> cvar_repr s' Q' 40 []"
proof -
  have "map_of object_lists ReadyQ = Some (map QueueNode [3])" by (simp add: object_lists_def family_lists_def)
  from cvar_broadcast_wakes_all [OF locked_system_ok(2) this locked_system_ok(4)] show ?thesis by auto
qed

end
