(* ===== verification/Sched.thy ===== *)
theory Sched
  imports Context Loader Lock
begin

text \<open>
  The whole kernel state and the scheduler: \<open>schedule\<close> of \<open>syscalls.c\<close>, split where the
  processor changes kernel stacks.

  \<open>schedule\<close> stops in the middle of \<open>KernelContextSwitch\<close> and its second half runs in
  another process. A handler therefore ends in one of three ways: it returns to user mode
  with the contents of \<open>*uctxt\<close>, the processor goes on in a saved kernel context of the
  process that has become the current one, or \<open>Halt()\<close> was called. \<open>resume\<close> runs what is
  left to do in such a context, up to the return to user mode.
\<close>

section \<open>State\<close>

datatype handler =
    H_Unimplemented | H_Fork | H_Exec | H_Exit | H_Wait | H_GetPID | H_Brk | H_Delay
  | H_PipeInit | H_PipeRead | H_PipeWrite | H_LockInit | H_LockAcquire | H_LockRelease
  | H_CvarInit | H_Signal | H_Broadcast | H_CvarWait | H_Reclaim

datatype trap_handler =
    T_kernel | T_clock | T_illegal | T_memory | T_math | T_receive | T_transmit

record kernel = sstate +
  syscall_handlers :: "handler option list"
  trap_handlers :: "trap_handler option list"
  switch_flag :: int

datatype trap_end = Return user_context | Resume kcont | Stopped

text \<open>
  What the environment decides while a handler runs: the results of the allocations it makes
  and the bytes they leave, the files, whether \<open>KernelContextSwitch\<close> succeeds, and, where the
  framework keeps \<open>*uctxt\<close> on its own terms, what it holds when a context is resumed.
\<close>

record env =
  e_switch :: bool
  e_pcb :: pcb_env
  e_stack :: "pt_ptr option"
  e_stack_junk :: "pte list"
  e_kint :: u32
  e_kint_junk :: u32
  e_kbuf :: "buf_ptr option"
  e_kbuf_junk :: "nat \<Rightarrow> u8"
  e_sync :: sync_env
  e_fs :: "u8 list \<Rightarrow> exe option"
  e_argbuf :: "buf_ptr option"
  e_uctxt :: user_context

section \<open>The end of the handlers\<close>

definition free_kbuf :: "buf_ptr option \<Rightarrow> 'a kstate_scheme \<Rightarrow> 'a kstate_scheme option" where
  "free_kbuf b s = (case b of None \<Rightarrow> Some s
     | Some b \<Rightarrow> do { _ \<leftarrow> kbufs s b; Some (s\<lparr>kbufs := (kbufs s)(b := None)\<rparr>) })"

text \<open>A length passed to \<open>malloc\<close> or \<open>memcpy\<close> is converted to \<open>size_t\<close>.\<close>

definition size_of :: "int \<Rightarrow> nat" where
  "size_of len = unat (word_of_int len :: u32)"

definition kbuf_bytes :: "buf_ptr option \<Rightarrow> nat \<Rightarrow> 'a kstate_scheme \<Rightarrow> u8 list option" where
  "kbuf_bytes b n s = (case b of
       None \<Rightarrow> if n = 0 then Some [] else None
     | Some b \<Rightarrow> do { bs \<leftarrow> kbufs s b; guard (n \<le> length bs); Some (take n bs) })"

text \<open>The end of \<open>SysPipeRead\<close>, with \<open>buf\<close>, \<open>kbuf\<close> and \<open>len\<close> as its local variables.\<close>

definition pipe_read_end :: "hw \<Rightarrow> u32 \<Rightarrow> buf_ptr option \<Rightarrow> int \<Rightarrow> 'a kstate_scheme \<Rightarrow> 'a kstate_scheme option" where
  "pipe_read_end H buf kbuf len s = do {
     bs \<leftarrow> kbuf_bytes kbuf (size_of len) s;
     s \<leftarrow> store_bytes H buf bs s;
     free_kbuf kbuf s }"

definition wait_end :: "hw \<Rightarrow> u32 \<Rightarrow> u32 \<Rightarrow> 'a kstate_scheme \<Rightarrow> 'a kstate_scheme option" where
  "wait_end H status_ptr kstatus_ptr s = do {
     v \<leftarrow> kints s kstatus_ptr;
     s \<leftarrow> store_int H status_ptr v s;
     Some (s\<lparr>kints := (kints s)(kstatus_ptr := None)\<rparr>) }"

text \<open>What a handler does after its call of \<open>schedule\<close>, with \<open>*uctxt = u\<close>.\<close>

fun after :: "hw \<Rightarrow> kcont \<Rightarrow> user_context \<Rightarrow> kernel \<Rightarrow> (user_context \<times> kernel) option" where
  "after H (K_Wait status_ptr kstatus_ptr) u s = do {
     s \<leftarrow> wait_end H status_ptr kstatus_ptr s; Some (u, s) }"
| "after H (K_PipeRead buf kbuf len) u s = do { s \<leftarrow> pipe_read_end H buf kbuf len s; Some (u, s) }"
| "after H (K_PipeWrite kbuf) u s = do { s \<leftarrow> free_kbuf kbuf s; Some (u, s) }"
| "after H (K_CvarWait lock_id) u s = do {
     (rc, s) \<leftarrow> SyncLockAcquire H lock_id s;
     Some (set_reg 0 (word_of_int (SUCCESS H)) u, s) }"
| "after H k u s = Some (u, s)"

section \<open>schedule\<close>

text \<open>The first half: \<open>None\<close> in the first component is \<open>return NULL\<close>.\<close>

definition schedule ::
  "hw \<Rightarrow> bool \<Rightarrow> kcont \<Rightarrow> user_context \<Rightarrow> kernel \<Rightarrow> (kcont option \<times> kernel) option" where
  "schedule H ok k uctxt s = do {
     let curr = current_process s;
     _ \<leftarrow> get_pcb curr s;
     n \<leftarrow> counts (lists s) ReadyQ;
     (next, s) \<leftarrow> (if n = 0 then Some (idle_process s, s)
                   else do {
                     (node, h) \<leftarrow> pop H (Some ReadyQ) (lists s);
                     p \<leftarrow> pcb_from_queue_node node;
                     Some (Some p, s\<lparr>lists := h\<rparr>) });
     s \<leftarrow> upd_pcb (current_process s) (\<lambda>c. c\<lparr>user_context := uctxt\<rparr>) s;
     s \<leftarrow> upd_pcb next (\<lambda>c. c\<lparr>run_time := 0\<rparr>) s;
     if ok then do {
       (k', s) \<leftarrow> KCSwitch H k curr next s;
       Some (Some k', s) }
     else Some (None, s) }"

text \<open>The second half, in the process that has become the current one.\<close>

definition schedule_end :: "kernel \<Rightarrow> (user_context \<times> kernel) option" where
  "schedule_end s = do {
     c \<leftarrow> get_pcb (current_process s) s;
     p \<leftarrow> region1_pt c;
     s \<leftarrow> Some (WriteRegister (W_PTBR1 p) s);
     Some (user_context c, WriteRegister W_TLB_FLUSH_1 s) }"

text \<open>A call of \<open>schedule\<close> in a handler whose continuation is \<open>k\<close>.\<close>

definition reschedule :: "hw \<Rightarrow> bool \<Rightarrow> kcont \<Rightarrow> user_context \<Rightarrow> kernel \<Rightarrow> (trap_end \<times> kernel) option" where
  "reschedule H ok k u s = do {
     (r, s) \<leftarrow> schedule H ok k u s;
     case r of
       Some k' \<Rightarrow> Some (Resume k', s)
     | None \<Rightarrow> do { (u, s) \<leftarrow> after H k u s; Some (Return u, s) } }"

section \<open>Resuming a saved kernel context\<close>

text \<open>The end of \<open>SysFork\<close>, run by the parent and, after its first switch, by the child.\<close>

definition fork_end :: "pcb_ptr \<Rightarrow> user_context \<Rightarrow> kernel \<Rightarrow> (user_context \<times> kernel) option" where
  "fork_end child u s = do {
     s \<leftarrow> add_to_ready_queue (Some child) s;
     c \<leftarrow> pcbs s child;
     Some (set_reg 0 (word_of_int (pid c)) u, s) }"

definition SetCurrentProcess :: "pcb_ptr option \<Rightarrow> 'a kstate_scheme \<Rightarrow> 'a kstate_scheme option" where
  "SetCurrentProcess process s =
     upd_pcb process (\<lambda>c. c\<lparr>state := PROCESS_RUNNING\<rparr>) (s\<lparr>current_process := process\<rparr>)"

text \<open>The end of \<open>KernelStart\<close>, run once by idle and once by init.\<close>

definition boot_end :: "pcb_ptr \<Rightarrow> pcb_ptr \<Rightarrow> kernel \<Rightarrow> (user_context \<times> kernel) option" where
  "boot_end init_pcb idle_pcb s = do {
     s \<leftarrow> Some (WriteRegister W_TLB_FLUSH_ALL s);
     if switch_flag s = 0 then do {
       s \<leftarrow> add_to_ready_queue (Some init_pcb) s;
       s \<leftarrow> Some (s\<lparr>switch_flag := 1\<rparr>);
       c \<leftarrow> pcbs s idle_pcb;
       s \<leftarrow> SetCurrentProcess (Some idle_pcb) s;
       Some (user_context c, s) }
     else do {
       c \<leftarrow> pcbs s init_pcb;
       p \<leftarrow> region1_pt c;
       s \<leftarrow> Some (WriteRegister (W_PTBR1 p) s);
       s \<leftarrow> Some (WriteRegister W_TLB_FLUSH_1 s);
       s \<leftarrow> SetCurrentProcess (Some init_pcb) s;
       Some (user_context c, s) } }"

text \<open>
  \<open>u\<close> is what the memory at \<open>uctxt\<close> holds when the context is resumed; only the end of
  \<open>SysFork\<close> does not overwrite it.
\<close>

definition resume :: "hw \<Rightarrow> kcont \<Rightarrow> user_context \<Rightarrow> kernel \<Rightarrow> (user_context \<times> kernel) option" where
  "resume H k u s = (case k of
       K_Unset \<Rightarrow> None
     | K_Fork child \<Rightarrow> fork_end child u s
     | K_KernelStart init_pcb idle_pcb \<Rightarrow> boot_end init_pcb idle_pcb s
     | _ \<Rightarrow> do { (u, s) \<leftarrow> schedule_end s; after H k u s })"

text \<open>A handler together with the context it may switch to: up to the return to user mode.\<close>

definition complete ::
  "hw \<Rightarrow> user_context \<Rightarrow> (trap_end \<times> kernel) option \<Rightarrow> (user_context run \<times> kernel) option" where
  "complete H u r = do {
     (e, s) \<leftarrow> r;
     case e of
       Return u \<Rightarrow> Some (Ret u, s)
     | Stopped \<Rightarrow> Some (Halted, s)
     | Resume k \<Rightarrow> do { (u, s) \<leftarrow> resume H k u s; Some (Ret u, s) } }"

end
