(* ===== verification/Syscalls.thy ===== *)
theory Syscalls
  imports Sched
begin

text \<open>
  The system call handlers of \<open>syscalls.c\<close>. A handler takes the constants, the environment,
  the contents of \<open>*uctxt\<close> and the kernel state.
\<close>

type_synonym sys = "hw \<Rightarrow> env \<Rightarrow> user_context \<Rightarrow> kernel \<Rightarrow> (trap_end \<times> kernel) option"

text \<open>An argument register read as an \<open>int\<close>, and a return value put into register 0.\<close>

definition int_reg :: "nat \<Rightarrow> user_context \<Rightarrow> int" where
  "int_reg i u = sint (regs u i)"

definition return_value :: "int \<Rightarrow> user_context \<Rightarrow> kernel \<Rightarrow> (trap_end \<times> kernel) option" where
  "return_value rc u s = Some (Return (set_reg 0 (word_of_int rc) u), s)"

section \<open>The handler table\<close>

definition set_handler :: "hw \<Rightarrow> syscall \<Rightarrow> handler \<Rightarrow> kernel \<Rightarrow> kernel option" where
  "set_handler H c h s = do {
     t \<leftarrow> arr_set (syscall_handlers s) (xor (YALNIX H c) (YALNIX_PREFIX H)) (Some h);
     Some (s\<lparr>syscall_handlers := t\<rparr>) }"

fun set_handlers :: "hw \<Rightarrow> (syscall \<times> handler) list \<Rightarrow> kernel \<Rightarrow> kernel option" where
  "set_handlers H [] s = Some s"
| "set_handlers H ((c, h) # chs) s = do { s \<leftarrow> set_handler H c h s; set_handlers H chs s }"

definition syscall_table :: "(syscall \<times> handler) list" where
  "syscall_table = [
     (YALNIX_FORK, H_Fork), (YALNIX_EXEC, H_Exec), (YALNIX_EXIT, H_Exit), (YALNIX_WAIT, H_Wait),
     (YALNIX_GETPID, H_GetPID), (YALNIX_BRK, H_Brk), (YALNIX_DELAY, H_Delay),
     (YALNIX_TTY_READ, H_Unimplemented), (YALNIX_TTY_WRITE, H_Unimplemented),
     (YALNIX_PIPE_INIT, H_PipeInit), (YALNIX_PIPE_READ, H_PipeRead), (YALNIX_PIPE_WRITE, H_PipeWrite),
     (YALNIX_LOCK_INIT, H_LockInit), (YALNIX_LOCK_ACQUIRE, H_LockAcquire), (YALNIX_LOCK_RELEASE, H_LockRelease),
     (YALNIX_CVAR_INIT, H_CvarInit), (YALNIX_CVAR_SIGNAL, H_Signal), (YALNIX_CVAR_BROADCAST, H_Broadcast),
     (YALNIX_CVAR_WAIT, H_CvarWait), (YALNIX_RECLAIM, H_Reclaim)]"

definition syscalls_init :: "hw \<Rightarrow> kernel \<Rightarrow> kernel option" where
  "syscalls_init H = set_handlers H syscall_table"

section \<open>Processes\<close>

definition SysUnimplemented :: sys where
  "SysUnimplemented H e u s = return_value (ERROR H) u s"

text \<open>Up to the call of \<open>KernelContextSwitch\<close>; the child, or \<open>Halted\<close>.\<close>

definition fork_child ::
  "hw \<Rightarrow> env \<Rightarrow> pcb_ptr option \<Rightarrow> user_context \<Rightarrow> kernel \<Rightarrow> (pcb_ptr run \<times> kernel) option" where
  "fork_child H e parent_pcb u s = do {
     (child_pcb, s) \<leftarrow> create_pcb H (e_pcb e) s;
     s \<leftarrow> add_child parent_pcb child_pcb s;
     s \<leftarrow> upd_pcb child_pcb (\<lambda>c. c\<lparr>should_fork := False\<rparr>) s;
     s \<leftarrow> upd_pcb child_pcb (\<lambda>c. c\<lparr>user_context := u\<rparr>) s;
     s \<leftarrow> CopyPageTable H parent_pcb child_pcb s;
     (r, s) \<leftarrow> InitializeKernelStack H (e_stack e) (e_stack_junk e) s;
     case r of Halted \<Rightarrow> Some (Halted, s)
     | Ret ks \<Rightarrow> do {
         s \<leftarrow> upd_pcb child_pcb (\<lambda>c. c\<lparr>kernel_stack := Some ks\<rparr>) s;
         child \<leftarrow> child_pcb;
         Some (Ret child, s) } }"

definition SysFork :: sys where
  "SysFork H e u s = do {
     c \<leftarrow> get_pcb (current_process s) s;
     if should_fork c then do {
       (r, s) \<leftarrow> fork_child H e (current_process s) u s;
       case r of Halted \<Rightarrow> Some (Stopped, s)
       | Ret child \<Rightarrow>
           if \<not> e_switch e then Some (Stopped, s)
           else do {
             (k, s) \<leftarrow> KCCopy H (K_Fork child) (Some child) s;
             (u, s) \<leftarrow> fork_end child u s;
             Some (Return u, s) } }
     else do {
       s \<leftarrow> upd_pcb (current_process s) (\<lambda>c. c\<lparr>should_fork := True\<rparr>) s;
       return_value 0 u s } }"

definition SysExec :: sys where
  "SysExec H e u s = do {
     filename \<leftarrow> load_string H (regs u 0) s;
     p \<leftarrow> current_process s;
     (rc, s) \<leftarrow> LoadProgram H (e_fs e filename) (load_argv H (regs u 1)) (e_argbuf e) p s;
     c \<leftarrow> get_pcb (current_process s) s;
     Some (Return (user_context c), s) }"

definition SysExit :: sys where
  "SysExit H e u s = do {
     s \<leftarrow> terminate_process H (current_process s) (int_reg 0 u) s;
     reschedule H (e_switch e) K_Exit u s }"

text \<open>A \<open>malloc\<close> of one \<open>int\<close>; the address 0 is a failure.\<close>

definition SysWait :: sys where
  "SysWait H e u s = do {
     p \<leftarrow> current_process s;
     _ \<leftarrow> pcbs s p;
     none \<leftarrow> list_is_empty H (Some (Children p)) (lists s);
     if none \<noteq> 0 then return_value (ERROR H) u s
     else do {
       let status_ptr = regs u 0;
       z_child \<leftarrow> find_zombie_child H (Some p) s;
       case z_child of
         None \<Rightarrow> do {
           s \<leftarrow> upd_pcb (Some p) (\<lambda>c. c\<lparr>state := PROCESS_DEFAULT\<rparr>) s;
           let a = e_kint e;
           s \<leftarrow> Some (if a = 0 then s else s\<lparr>kints := (kints s)(a \<mapsto> e_kint_junk e)\<rparr>);
           s \<leftarrow> upd_pcb (Some p) (\<lambda>c. c\<lparr>waiting_for_children := 1\<rparr>) s;
           s \<leftarrow> add_to_blocked_queue (Some p) s;
           reschedule H (e_switch e) (K_Wait status_ptr a) (set_reg 0 a u) s }
       | Some z \<Rightarrow> do {
           s \<leftarrow> remove_from_zombie_queue (Some z) s;
           c \<leftarrow> pcbs s z;
           s \<leftarrow> (if status_ptr \<noteq> 0 then store_int H status_ptr (word_of_int (exit_code c)) s else Some s);
           s \<leftarrow> free_pcb z s;
           return_value (pid c) u s } } }"

definition SysGetPID :: sys where
  "SysGetPID H e u s = do {
     c \<leftarrow> get_pcb (current_process s) s;
     return_value (pid c) u s }"

definition SysDelay :: sys where
  "SysDelay H e u s =
     (let delay = int_reg 0 u
      in if delay < 0 then do { _ \<leftarrow> get_pcb (current_process s) s; return_value (ERROR H) u s }
         else if delay = 0 then do { _ \<leftarrow> get_pcb (current_process s) s; return_value 0 u s }
         else do {
           let curr_p = current_process s;
           s \<leftarrow> upd_pcb curr_p (\<lambda>c. c\<lparr>state := PROCESS_DEFAULT\<rparr>) s;
           s \<leftarrow> add_to_delay_queue curr_p delay s;
           reschedule H (e_switch e) K_Delay (set_reg 0 0 u) s })"

section \<open>The user's break\<close>

text \<open>\<open>False\<close> is the return with \<open>ERROR\<close> when no frame is left.\<close>

function brk_grow :: "hw \<Rightarrow> pt_ptr option \<Rightarrow> u32 \<Rightarrow> u32 \<Rightarrow> 'a mem_scheme \<Rightarrow> (bool \<times> 'a mem_scheme) option" where
  "brk_grow H t i nbrk s =
     (if i < nbrk then do {
        p \<leftarrow> t;
        e \<leftarrow> pt_get (Table p) (uint i) s;
        if \<not> valid e then do {
          (nf, s) \<leftarrow> allocate_frame H s;
          if nf = ERROR H then Some (False, s)
          else do {
            s \<leftarrow> pt_set (Table p) (uint i)
                  \<lparr>valid = True, prot = or (PROT_READ H) (PROT_WRITE H), pfn = word_of_int nf\<rparr> s;
            brk_grow H t (i + 1) nbrk s } }
        else brk_grow H t (i + 1) nbrk s }
      else Some (True, s))"
  by pat_completeness auto
termination
  by (relation "measure (\<lambda>(H, t, i, n, s). unat n - unat i)") (auto intro: word_loop_measure)

text \<open>The loop counts down on an unsigned index, and runs while it is below the new break.\<close>

lemma count_down_measure:
  fixes i n :: "'a::len word"
  assumes "i - 1 < n"
  shows "unat (i - 1) < unat i"
proof (cases "i = 0")
  case True
  then show ?thesis using assms by simp
next
  case False
  then show ?thesis by (simp add: unat_gt_0 unat_minus_one)
qed

function brk_shrink :: "hw \<Rightarrow> pt_ptr option \<Rightarrow> u32 \<Rightarrow> u32 \<Rightarrow> 'a mem_scheme \<Rightarrow> 'a mem_scheme option" where
  "brk_shrink H t i nbrk s =
     (if i < nbrk then do {
        p \<leftarrow> t;
        e \<leftarrow> pt_get (Table p) (uint i) s;
        s \<leftarrow> (if valid e then do {
               s \<leftarrow> free_frame H (uint (pfn e)) s;
               s \<leftarrow> Some (WriteRegister (W_TLB_FLUSH (push_bit (PAGESHIFT H) i)) s);
               pt_set (Table p) (uint i) zero_pte s }
             else Some s);
        brk_shrink H t (i - 1) nbrk s }
      else Some s)"
  by pat_completeness auto
termination
  by (relation "measure (\<lambda>(H, t, i, n, s). if i < n then Suc (unat i) else 0)")
     (auto intro: count_down_measure)

declare brk_grow.simps [simp del] brk_shrink.simps [simp del]

definition SysBrk :: sys where
  "SysBrk H e u s = do {
     let addr = regs u 0;
     c \<leftarrow> get_pcb (current_process s) s;
     let nbrk = drop_bit (PAGESHIFT H) (UP_TO_PAGE H addr) - word_of_nat (MAX_PT_LEN H);
     let cbrk = drop_bit (PAGESHIFT H) (brk c);
     if nbrk \<ge> drop_bit (PAGESHIFT H) (DOWN_TO_PAGE H (uc_sp (user_context c))) then return_value (ERROR H) u s
     else if nbrk = cbrk then return_value 0 u s
     else if nbrk > cbrk then do {
       (done, s) \<leftarrow> brk_grow H (region1_pt c) cbrk nbrk s;
       if done then return_value 0 u s else return_value (ERROR H) u s }
     else do {
       s \<leftarrow> brk_shrink H (region1_pt c) (cbrk - 1) nbrk s;
       return_value 0 u s } }"

section \<open>Pipes\<close>

definition SysPipeInit :: sys where
  "SysPipeInit H e u s = do {
     (rc, s) \<leftarrow> SyncInitPipe H (e_sync e) (regs u 0) s;
     return_value rc u s }"

text \<open>\<open>malloc(len)\<close>: the buffer holds what was left there.\<close>

definition alloc_kbuf :: "env \<Rightarrow> int \<Rightarrow> 'a kstate_scheme \<Rightarrow> 'a kstate_scheme" where
  "alloc_kbuf e len s = (case e_kbuf e of None \<Rightarrow> s
     | Some b \<Rightarrow> s\<lparr>kbufs := (kbufs s)(b \<mapsto> map (e_kbuf_junk e) [0..<size_of len])\<rparr>)"

definition SysPipeRead :: sys where
  "SysPipeRead H e u s = do {
     let pipe_id = int_reg 0 u;
     let buf = regs u 1;
     let len = int_reg 2 u;
     let kbuf = e_kbuf e;
     s \<leftarrow> Some (alloc_kbuf e len s);
     (rc, s) \<leftarrow> SyncReadPipe H pipe_id kbuf len s;
     if rc = enum_state PROCESS_BLOCKED then reschedule H (e_switch e) (K_PipeRead buf kbuf len) u s
     else if rc = ERROR H then Some (Return u, s)
     else do { s \<leftarrow> pipe_read_end H buf kbuf len s; Some (Return u, s) } }"

definition fill_kbuf :: "buf_ptr option \<Rightarrow> u8 list \<Rightarrow> 'a kstate_scheme \<Rightarrow> 'a kstate_scheme option" where
  "fill_kbuf b bs s = (case b of
       None \<Rightarrow> if bs = [] then Some s else None
     | Some b \<Rightarrow> do {
         old \<leftarrow> kbufs s b;
         guard (length bs \<le> length old);
         Some (s\<lparr>kbufs := (kbufs s)(b \<mapsto> bs @ drop (length bs) old)\<rparr>) })"

definition SysPipeWrite :: sys where
  "SysPipeWrite H e u s = do {
     let pipe_id = int_reg 0 u;
     let buf = regs u 1;
     let len = int_reg 2 u;
     let kbuf = e_kbuf e;
     s \<leftarrow> Some (alloc_kbuf e len s);
     bs \<leftarrow> load_bytes H buf (size_of len) s;
     s \<leftarrow> fill_kbuf kbuf bs s;
     (rc, s) \<leftarrow> SyncWritePipe H pipe_id kbuf len s;
     if rc = enum_state PROCESS_BLOCKED then reschedule H (e_switch e) (K_PipeWrite kbuf) u s
     else if rc = ERROR H then Some (Return u, s)
     else do { s \<leftarrow> free_kbuf kbuf s; Some (Return u, s) } }"

section \<open>Locks, condition variables, reclaim\<close>

definition SysLockInit :: sys where
  "SysLockInit H e u s = do {
     (rc, s) \<leftarrow> SyncInitLock H (e_sync e) (regs u 0) s;
     return_value rc u s }"

definition SysLockAcquire :: sys where
  "SysLockAcquire H e u s = do {
     (rc, s) \<leftarrow> SyncLockAcquire H (int_reg 0 u) s;
     if rc = enum_state PROCESS_BLOCKED then reschedule H (e_switch e) K_LockAcquire u s
     else return_value rc u s }"

definition SysLockRelease :: sys where
  "SysLockRelease H e u s = do {
     (rc, s) \<leftarrow> SyncLockRelease H (int_reg 0 u) s;
     return_value rc u s }"

definition SysCvarInit :: sys where
  "SysCvarInit H e u s = do {
     (rc, s) \<leftarrow> SyncInitCvar H (e_sync e) (regs u 0) s;
     return_value rc u s }"

definition SysSignal :: sys where
  "SysSignal H e u s = do {
     (rc, s) \<leftarrow> SyncCvarSignal H (int_reg 0 u) s;
     return_value rc u s }"

text \<open>The value that is stored may be missing.\<close>

definition SysBroadcast :: sys where
  "SysBroadcast H e u s = do {
     (rc, s) \<leftarrow> SyncCvarBroadcast H (int_reg 0 u) s;
     rc \<leftarrow> rc;
     return_value rc u s }"

text \<open>Both identifiers are read from register 0.\<close>

definition SysCvarWait :: sys where
  "SysCvarWait H e u s = do {
     let cvar_id = int_reg 0 u;
     let lock_id = int_reg 0 u;
     (rc, s) \<leftarrow> SyncCvarWait H cvar_id lock_id s;
     if rc = ERROR H then return_value (ERROR H) u s
     else reschedule H (e_switch e) (K_CvarWait lock_id) u s }"

definition SysReclaim :: sys where
  "SysReclaim H e u s = do {
     (rc, s) \<leftarrow> SyncReclaim H (int_reg 0 u) s;
     return_value rc u s }"

section \<open>Calling a handler through the table\<close>

fun call_handler :: "handler \<Rightarrow> sys" where
  "call_handler H_Unimplemented = SysUnimplemented"
| "call_handler H_Fork = SysFork"
| "call_handler H_Exec = SysExec"
| "call_handler H_Exit = SysExit"
| "call_handler H_Wait = SysWait"
| "call_handler H_GetPID = SysGetPID"
| "call_handler H_Brk = SysBrk"
| "call_handler H_Delay = SysDelay"
| "call_handler H_PipeInit = SysPipeInit"
| "call_handler H_PipeRead = SysPipeRead"
| "call_handler H_PipeWrite = SysPipeWrite"
| "call_handler H_LockInit = SysLockInit"
| "call_handler H_LockAcquire = SysLockAcquire"
| "call_handler H_LockRelease = SysLockRelease"
| "call_handler H_CvarInit = SysCvarInit"
| "call_handler H_Signal = SysSignal"
| "call_handler H_Broadcast = SysBroadcast"
| "call_handler H_CvarWait = SysCvarWait"
| "call_handler H_Reclaim = SysReclaim"

end
