(* ===== verification/Traps.thy ===== *)
theory Traps
  imports Syscalls
begin

text \<open>
  The trap handlers of \<open>traps.c\<close> and the interrupt vector.
\<close>

section \<open>The handlers\<close>

definition kernel_handler :: sys where
  "kernel_handler H e u s = do {
     let ind = xor (uc_code u) (YALNIX_PREFIX H);
     if ind \<ge> 0 \<and> ind < 256 then do {
       h \<leftarrow> arr_get (syscall_handlers s) ind;
       case h of Some h \<Rightarrow> call_handler h H e u s
       | None \<Rightarrow> return_value (ERROR H) u s }
     else return_value (ERROR H) u s }"

definition clock_handler :: sys where
  "clock_handler H e u s = do {
     s \<leftarrow> update_delayed_processes H s;
     let curr_p = current_process s;
     c \<leftarrow> get_pcb curr_p s;
     guard (run_time c < INT_MAX);
     s \<leftarrow> upd_pcb curr_p (\<lambda>c. c\<lparr>run_time := run_time c + 1\<rparr>) s;
     c \<leftarrow> get_pcb curr_p s;
     if run_time c > time_slice c then do {
       n \<leftarrow> counts (lists s) ReadyQ;
       if n \<noteq> 0 then do {
         s \<leftarrow> upd_pcb curr_p (\<lambda>c. c\<lparr>state := PROCESS_DEFAULT\<rparr>) s;
         reschedule H (e_switch e) K_Clock u s }
       else Some (Return u, s) }
     else Some (Return u, s) }"

definition illegal_handler :: sys where
  "illegal_handler H e u s = do {
     _ \<leftarrow> get_pcb (current_process s) s;
     SysExit H e (set_reg 0 (word_of_int (ERROR H)) u) s }"

definition math_handler :: sys where
  "math_handler H e u s = do {
     _ \<leftarrow> get_pcb (current_process s) s;
     SysExit H e (set_reg 0 (word_of_int (ERROR H)) u) s }"

text \<open>Only reads: \<open>None\<close> is an index the check lets through although it is past the table.\<close>

definition print_pte :: "hw \<Rightarrow> pt_base \<Rightarrow> int \<Rightarrow> 'a mem_scheme \<Rightarrow> unit option" where
  "print_pte H pageTable pte_index s =
     (if pte_index < 0 \<or> pte_index > int (MAX_PT_LEN H) then Some ()
      else do { _ \<leftarrow> pt_get pageTable pte_index s; Some () })"

definition memory_handler :: sys where
  "memory_handler H e u s = do {
     guard (VMEM_REGION_SIZE H \<noteq> 0);
     let regionNumber = uc_addr u div VMEM_REGION_SIZE H;
     let rel = (if regionNumber = 1 then uc_addr u - VMEM_1_BASE H else uc_addr u);
     let page = sint rel div 2 ^ PAGESHIFT H;
     _ \<leftarrow> (if regionNumber = 0 then print_pte H Region0 page s
          else if regionNumber = 1 then do {
            c \<leftarrow> get_pcb (current_process s) s;
            p \<leftarrow> region1_pt c;
            print_pte H (Table p) page s }
          else Some ());
     Some (Return u, s) }"

definition receive_handler :: sys where
  "receive_handler H e u s = Some (Return u, s)"

definition transmit_handler :: sys where
  "transmit_handler H e u s = Some (Return u, s)"

section \<open>The interrupt vector\<close>

fun call_trap_handler :: "trap_handler \<Rightarrow> sys" where
  "call_trap_handler T_kernel = kernel_handler"
| "call_trap_handler T_clock = clock_handler"
| "call_trap_handler T_illegal = illegal_handler"
| "call_trap_handler T_memory = memory_handler"
| "call_trap_handler T_math = math_handler"
| "call_trap_handler T_receive = receive_handler"
| "call_trap_handler T_transmit = transmit_handler"

definition set_trap_handler :: "hw \<Rightarrow> trap \<Rightarrow> trap_handler \<Rightarrow> kernel \<Rightarrow> kernel option" where
  "set_trap_handler H t h s = do {
     v \<leftarrow> arr_set (trap_handlers s) (int (TRAP H t)) (Some h);
     Some (s\<lparr>trap_handlers := v\<rparr>) }"

definition trap_init :: "hw \<Rightarrow> kernel \<Rightarrow> kernel option" where
  "trap_init H s = do {
     s \<leftarrow> set_trap_handler H TRAP_KERNEL T_kernel s;
     s \<leftarrow> set_trap_handler H TRAP_CLOCK T_clock s;
     s \<leftarrow> set_trap_handler H TRAP_ILLEGAL T_illegal s;
     s \<leftarrow> set_trap_handler H TRAP_MEMORY T_memory s;
     s \<leftarrow> set_trap_handler H TRAP_MATH T_math s;
     s \<leftarrow> set_trap_handler H TRAP_TTY_RECEIVE T_receive s;
     s \<leftarrow> set_trap_handler H TRAP_TTY_TRANSMIT T_transmit s;
     Some (WriteRegister W_VECTOR_BASE s) }"

text \<open>
  What the processor does on a trap: it calls the handler the vector holds, and goes back to
  user mode with what the handlers leave in \<open>*uctxt\<close>.
\<close>

definition take_trap :: "hw \<Rightarrow> env \<Rightarrow> nat \<Rightarrow> user_context \<Rightarrow> kernel \<Rightarrow> (user_context run \<times> kernel) option" where
  "take_trap H e vector u s = do {
     h \<leftarrow> arr_get (trap_handlers s) (int vector);
     h \<leftarrow> h;
     complete H (e_uctxt e) (call_trap_handler h H e u s) }"

end
