(* ===== verification/Boot.thy ===== *)
theory Boot
  imports Traps
begin

text \<open>
  Booting: \<open>kernel.c\<close>. \<open>KernelStart\<close> builds idle and init, clones its own kernel context
  into init and returns as idle; its end, \<open>boot_end\<close> of theory \<open>Sched\<close>, runs a second time
  when init is first scheduled.
\<close>

definition create_process :: "hw \<Rightarrow> pcb_env \<Rightarrow> 'a kstate_scheme \<Rightarrow> (pcb_ptr option \<times> 'a kstate_scheme) option" where
  "create_process H a s = do {
     (new_pcb, s) \<leftarrow> create_pcb H a s;
     if new_pcb = None then Some (None, s)
     else do { _ \<leftarrow> get_pcb new_pcb s; Some (new_pcb, s) } }"

text \<open>What the boot firmware and the linker provide.\<close>

record boot =
  b_text_page :: int
  b_data_page :: int
  b_brk_page :: int
  b_pmem_size :: u32
  b_bitmap :: bool
  b_queues :: "lref \<Rightarrow> bool"
  b_junk :: "(lref, eref) junk"
  b_DoIdle :: u32

text \<open>\<open>None\<close> is a NULL \<open>cmd_args\<close>.\<close>

definition init_name :: "u8 list list option \<Rightarrow> u8 list" where
  "init_name cmd_args = (case cmd_args of Some (a # _) \<Rightarrow> a | _ \<Rightarrow> map of_char ''test/init'')"

text \<open>Up to \<open>enable_virtual_memory\<close>: the result is idle's control block.\<close>

definition start_idle :: "hw \<Rightarrow> boot \<Rightarrow> env \<Rightarrow> user_context \<Rightarrow> kernel \<Rightarrow> (pcb_ptr run \<times> kernel) option" where
  "start_idle H b e uctxt s = do {
     (idle_pcb, s) \<leftarrow> create_process H (e_pcb e) s;
     s \<leftarrow> Some (s\<lparr>idle_process := idle_pcb\<rparr>);
     s \<leftarrow> upd_pcb idle_pcb (\<lambda>c. c\<lparr>time_slice := 1\<rparr>) s;
     idle \<leftarrow> idle_pcb;
     (f, s) \<leftarrow> allocate_frame H s;
     if f = ERROR H then Some (Halted, s)
     else do {
       c \<leftarrow> pcbs s idle;
       t \<leftarrow> region1_pt c;
       s \<leftarrow> map_page (Table t) (int (MAX_PT_LEN H) - 1) f (or (PROT_READ H) (PROT_WRITE H)) s;
       s \<leftarrow> Some (WriteRegister (W_PTBR1 t) s);
       s \<leftarrow> Some (WriteRegister (W_PTLR1 (MAX_PT_LEN H)) s);
       (r, s) \<leftarrow> InitializeKernelStack H (e_stack e) (e_stack_junk e) s;
       case r of Halted \<Rightarrow> Some (Halted, s)
       | Ret ks \<Rightarrow> do {
           s \<leftarrow> upd_pcb (Some idle) (\<lambda>c. c\<lparr>kernel_stack := Some ks\<rparr>) s;
           s \<leftarrow> upd_pcb (Some idle) (\<lambda>c. c\<lparr>user_context :=
                 uctxt\<lparr>uc_pc := b_DoIdle b, uc_sp := VMEM_1_LIMIT H - 5\<rparr>\<rparr>) s;
           Some (Ret idle, enable_virtual_memory s) } } }"

text \<open>From the creation of init to the second write of idle's page table base.\<close>

definition start_init ::
  "hw \<Rightarrow> env \<Rightarrow> u8 list list option \<Rightarrow> pcb_ptr \<Rightarrow> user_context \<Rightarrow> kernel \<Rightarrow> (pcb_ptr run \<times> kernel) option" where
  "start_init H e cmd_args idle uctxt s = do {
     (init_pcb, s) \<leftarrow> create_process H (e_pcb e) s;
     case init_pcb of None \<Rightarrow> Some (Halted, s)
     | Some p \<Rightarrow> do {
         (r, s) \<leftarrow> InitializeKernelStack H (e_stack e) (e_stack_junk e) s;
         case r of Halted \<Rightarrow> Some (Halted, s)
         | Ret ks \<Rightarrow> do {
             s \<leftarrow> upd_pcb (Some p) (\<lambda>c. c\<lparr>kernel_stack := Some ks\<rparr>) s;
             s \<leftarrow> upd_pcb (Some p) (\<lambda>c. c\<lparr>user_context := uctxt\<rparr>) s;
             c \<leftarrow> pcbs s p;
             t \<leftarrow> region1_pt c;
             s \<leftarrow> Some (WriteRegister (W_PTBR1 t) s);
             s \<leftarrow> Some (WriteRegister W_TLB_FLUSH_1 s);
             (rc, s) \<leftarrow> LoadProgram H (e_fs e (init_name cmd_args)) (\<lambda>_. cmd_args) (e_argbuf e) p s;
             c \<leftarrow> pcbs s idle;
             t \<leftarrow> region1_pt c;
             s \<leftarrow> Some (WriteRegister (W_PTBR1 t) s);
             Some (Ret p, WriteRegister W_TLB_FLUSH_1 s) } } }"

text \<open>\<open>e\<close> and \<open>e'\<close> are the environments of the creation of idle and of init.\<close>

definition KernelStart ::
  "hw \<Rightarrow> boot \<Rightarrow> env \<Rightarrow> env \<Rightarrow> u8 list list option \<Rightarrow> user_context \<Rightarrow> kernel \<Rightarrow> (user_context run \<times> kernel) option" where
  "KernelStart H b e e' cmd_args uctxt s = do {
     s \<leftarrow> trap_init H s;
     s \<leftarrow> syscalls_init H s;
     (rc, s) \<leftarrow> init_pcb_system H (b_queues b) (b_junk b) s;
     if rc \<noteq> 0 then Some (Halted, s)
     else do {
       s \<leftarrow> init_region0_pageTable H (b_bitmap b) (b_text_page b) (b_data_page b) (b_brk_page b) (b_pmem_size b) s;
       (r, s) \<leftarrow> start_idle H b e uctxt s;
       case r of Halted \<Rightarrow> Some (Halted, s)
       | Ret idle \<Rightarrow> do {
           (r, s) \<leftarrow> start_init H e' cmd_args idle uctxt s;
           case r of Halted \<Rightarrow> Some (Halted, s)
           | Ret p \<Rightarrow> do {
               s \<leftarrow> (if e_switch e' then do { (k, s) \<leftarrow> KCCopy H (K_KernelStart p idle) (Some p) s; Some s }
                     else Some s);
               (u, s) \<leftarrow> boot_end p idle s;
               Some (Ret u, s) } } } }"

end
