(* ===== verification/Sched_Props.thy ===== *)
theory Sched_Props
  imports Traps
begin

text \<open>
  What the scheduler does: which process runs next, in which address space and on which
  kernel stack, and what becomes of the one that ran; and the system calls that end in
  \<open>schedule\<close>.
\<close>

section \<open>The switch\<close>

text \<open>The tables a process needs to be switched to.\<close>

definition runnable :: "hw \<Rightarrow> 'a kstate_scheme \<Rightarrow> pcb \<Rightarrow> bool" where
  "runnable H s d \<longleftrightarrow> region1_pt d \<noteq> None
     \<and> (\<exists>u k. kernel_stack d = Some u \<and> page_tables s u = Some k \<and> kstack_pages H \<le> length k)
     \<and> unat (KSTACK_START_PAGE H) + kstack_pages H \<le> length (region0_pt s)"

text \<open>The Region 0 table with the kernel stack of \<open>d\<close> in its place.\<close>

definition stack_mapped :: "hw \<Rightarrow> 'a kstate_scheme \<Rightarrow> pcb \<Rightarrow> pte list" where
  "stack_mapped H s d = take (unat (KSTACK_START_PAGE H)) (region0_pt s)
     @ take (kstack_pages H) (the (page_tables s (the (kernel_stack d))))
     @ drop (unat (KSTACK_START_PAGE H) + kstack_pages H) (region0_pt s)"

text \<open>Everything a switch leaves alone.\<close>

definition same_rest :: "kernel \<Rightarrow> kernel \<Rightarrow> bool" where
  "same_rest s s' \<longleftrightarrow> frame_bitMap s' = frame_bitMap s \<and> page_tables s' = page_tables s \<and> pmem s' = pmem s
     \<and> vm_enabled s' = vm_enabled s \<and> kernel_brk s' = kernel_brk s \<and> idle_process s' = idle_process s
     \<and> kbufs s' = kbufs s \<and> kints s' = kints s \<and> sync_table s' = sync_table s
     \<and> global_sync_counter s' = global_sync_counter s \<and> id_used s' = id_used s \<and> sync_objs s' = sync_objs s
     \<and> pipes s' = pipes s \<and> locks s' = locks s \<and> cvars s' = cvars s
     \<and> syscall_handlers s' = syscall_handlers s \<and> trap_handlers s' = trap_handlers s \<and> switch_flag s' = switch_flag s"

lemma same_rest_refl [simp]: "same_rest s s"
  by (simp add: same_rest_def)

lemma same_rest_trans: "same_rest s s' \<Longrightarrow> same_rest s' s'' \<Longrightarrow> same_rest s s''"
  by (simp add: same_rest_def)

lemma same_rest_upd [simp]:
  "same_rest s (s'\<lparr>lists := h\<rparr>) = same_rest s s'" "same_rest s (s'\<lparr>pcbs := P\<rparr>) = same_rest s s'"
  "same_rest s (s'\<lparr>current_process := c\<rparr>) = same_rest s s'" "same_rest s (s'\<lparr>region0_pt := t\<rparr>) = same_rest s s'"
  "same_rest s (WriteRegister r s') = same_rest s s'"
  by (simp_all add: same_rest_def WriteRegister_def Let_def split: reg_write.splits)

lemma kernel_WriteRegister [simp]:
  "lists (WriteRegister r s) = lists s" "pcbs (WriteRegister r s) = pcbs s"
  "current_process (WriteRegister r s) = current_process s" "idle_process (WriteRegister r s) = idle_process s"
  "kbufs (WriteRegister r s) = kbufs s" "kints (WriteRegister r s) = kints s"
  by (simp_all add: WriteRegister_def Let_def split: reg_write.splits)

lemma ptbr1_WriteRegister [simp]:
  "ptbr1 (WriteRegister (W_PTBR1 p) s) = Some p" "ptbr1 (WriteRegister W_TLB_FLUSH_ALL s) = ptbr1 s"
  "ptbr1 (WriteRegister W_TLB_FLUSH_1 s) = ptbr1 s"
  by (simp_all add: WriteRegister_def Let_def)

lemma runnable_cong:
  assumes "page_tables s' = page_tables s" "region0_pt s' = region0_pt s"
    "region1_pt d' = region1_pt d" "kernel_stack d' = kernel_stack d"
  shows "runnable H s' d' = runnable H s d" "stack_mapped H s' d' = stack_mapped H s d"
  using assms by (simp_all add: runnable_def stack_mapped_def)

lemma switch_to_ok:
  fixes s :: kernel
  assumes "pcbs s q = Some d" "runnable H s d"
  shows "\<exists>s'. switch_to H (Some q) s = Some (kernel_context d, s') \<and> same_rest s s' \<and> lists s' = lists s
    \<and> pcbs s' = (pcbs s)(q \<mapsto> d\<lparr>state := PROCESS_RUNNING\<rparr>) \<and> current_process s' = Some q
    \<and> ptbr1 s' = region1_pt d \<and> region0_pt s' = stack_mapped H s d"
proof -
  obtain t u k where r: "region1_pt d = Some t" "kernel_stack d = Some u" "page_tables s u = Some k"
    "kstack_pages H \<le> length k" "unat (KSTACK_START_PAGE H) + kstack_pages H \<le> length (region0_pt s)"
    using assms(2) by (auto simp: runnable_def)
  then show ?thesis using assms(1)
    by (simp add: switch_to_def pcb_access map_kernel_stack_def Let_def stack_mapped_def)
qed

section \<open>Who runs next\<close>

text \<open>\<open>q\<close> is the head of the ready queue and \<open>rs\<close> the rest, or the queue is empty and \<open>q\<close> is idle.\<close>

definition next_up :: "kernel \<Rightarrow> ghost \<Rightarrow> pcb_ptr \<Rightarrow> eref list \<Rightarrow> bool" where
  "next_up s Q q rs \<longleftrightarrow> Q ReadyQ = Some (QueueNode q # rs)
     \<or> (Q ReadyQ = Some [] \<and> rs = [] \<and> idle_process s = Some q
        \<and> (\<exists>d. pcbs s q = Some d \<and> idle_state (state d)))"

lemma sched_inv_dispatch:
  assumes inv: "sched_inv h P Q" and q: "Q ReadyQ = Some (QueueNode q # rs)" and d: "P q = Some d"
    and h: "lists_ok h' (Q(ReadyQ \<mapsto> rs))" "\<forall>e. has_elem h' e = has_elem h e"
    and c: "state d' = PROCESS_RUNNING"
  shows "sched_inv h' (P(q \<mapsto> d')) (Q(ReadyQ \<mapsto> rs))"
proof -
  have ok: "lists_ok h Q" by (rule sched_invD(1) [OF inv])
  have st: "set rs = set (QueueNode q # rs) - {QueueNode q}" using lists_ok_distinct [OF ok q] by auto
  have i: "in_q (Q(ReadyQ \<mapsto> rs)) e l \<longleftrightarrow> in_q Q e l \<and> \<not> (e = QueueNode q \<and> l = ReadyQ)" for e l
    using in_q_remove [where Q = Q, OF q st] by blast
  have only: "l = ReadyQ" if "in_q Q (QueueNode q) l" for l
    using qs.in_q_unique [OF ok in_qI [where Q = Q, OF q] that] by simp
  show ?thesis
    by (rule sched_inv_change [OF inv h(1) _ _ d]) (use h(2) i only c in \<open>auto simp: idle_state_def\<close>)
qed

lemma schedule_ok:
  assumes ok: "pcb_ok s Q" and cur: "current_process s = Some p" "pcbs s p = Some c"
    and nx: "next_up s Q q rs" "pcbs s q = Some d" "p \<noteq> q" "runnable H s d"
  shows "\<exists>s'. schedule H True k u s = Some (Some (kernel_context d), s') \<and> pcb_ok s' (Q(ReadyQ \<mapsto> rs))
    \<and> same_rest s s' \<and> current_process s' = Some q
    \<and> pcbs s' = (pcbs s)(p \<mapsto> c\<lparr>user_context := u, kernel_context := k\<rparr>, q \<mapsto> d\<lparr>run_time := 0, state := PROCESS_RUNNING\<rparr>)
    \<and> ptbr1 s' = region1_pt d \<and> region0_pt s' = stack_mapped H s d"
proof -
  note inv = ok [unfolded pcb_ok_def]
  let ?c = "c\<lparr>user_context := u, kernel_context := k\<rparr>" and ?d = "d\<lparr>run_time := 0\<rparr>"
  let ?P = "(pcbs s)(p \<mapsto> ?c, q \<mapsto> ?d)" and ?d' = "d\<lparr>run_time := 0, state := PROCESS_RUNNING\<rparr>"
  have run: "\<exists>s'. schedule H True k u s = Some (Some (kernel_context d), s') \<and> lists s' = h'
      \<and> same_rest s s' \<and> current_process s' = Some q \<and> pcbs s' = (pcbs s)(p \<mapsto> ?c, q \<mapsto> ?d')
      \<and> ptbr1 s' = region1_pt d \<and> region0_pt s' = stack_mapped H s d"
    if n: "counts (lists s) ReadyQ = Some (int n)"
      and pick: "(if n = 0 then idle_process s = Some q \<and> h' = lists s
         else pop H (Some ReadyQ) (lists s) = Some (Some (Elem (QueueNode q)), h'))" for n h'
  proof -
    let ?s = "s\<lparr>lists := h', pcbs := ?P\<rparr>"
    have e: "kernel_context ?d = kernel_context d" "region1_pt ?d = region1_pt d" "stack_mapped H ?s ?d = stack_mapped H s d"
      "runnable H ?s ?d" using nx(4) by (simp_all add: runnable_def stack_mapped_def)
    obtain s' where s': "switch_to H (Some q) ?s = Some (kernel_context d, s')" "same_rest ?s s'" "lists s' = h'"
      "pcbs s' = (pcbs s)(p \<mapsto> ?c, q \<mapsto> ?d')" "current_process s' = Some q" "ptbr1 s' = region1_pt d"
      "region0_pt s' = stack_mapped H s d"
      using switch_to_ok [of ?s q ?d H] e by auto
    have "schedule H True k u s = Some (Some (kernel_context d), s')"
      using cur nx(2,3) n pick s'(1)
      by (auto simp: schedule_def pcb_access KCSwitch_def Let_def fun_upd_twist split: if_splits)
    then show ?thesis using s' by (auto simp: same_rest_def)
  qed
  have pinv: "sched_inv h ((pcbs s)(p \<mapsto> ?c, q \<mapsto> ?d')) Q'"
    if "sched_inv h ((pcbs s)(q \<mapsto> ?d')) Q'" for h Q'
    using sched_inv_same_state [OF that, of p c ?c] cur(2) nx(3) by (simp add: fun_upd_twist)
  consider (head) "Q ReadyQ = Some (QueueNode q # rs)"
    | (idle) "Q ReadyQ = Some []" "rs = []" "idle_process s = Some q" "idle_state (state d)"
    using nx(1,2) by (auto simp: next_up_def)
  then show ?thesis
  proof cases
    case head
    obtain h' where h': "pop H (Some ReadyQ) (lists s) = Some (Some (Elem (QueueNode q)), h')"
      "lists_ok h' (Q(ReadyQ \<mapsto> rs))" "\<forall>e. has_elem h' e = has_elem (lists s) e"
      using pop_ok [OF sched_invD(1) [OF inv] head, of H] by blast
    have cnt: "counts (lists s) ReadyQ = Some (int (Suc (length rs)))"
      using lists_ok_count [OF sched_invD(1) [OF inv] head] by simp
    have "sched_inv h' ((pcbs s)(q \<mapsto> ?d')) (Q(ReadyQ \<mapsto> rs))"
      by (rule sched_inv_dispatch [OF inv head nx(2) h'(2,3)]) simp
    then show ?thesis using run [OF cnt, of h'] h'(1) pinv by (auto simp: pcb_ok_def)
  next
    case idle
    have cnt: "counts (lists s) ReadyQ = Some (int 0)"
      using lists_ok_count [OF sched_invD(1) [OF inv] idle(1)] by simp
    have "sched_inv (lists s) ((pcbs s)(q \<mapsto> ?d')) Q"
      by (rule sched_inv_idle [OF inv nx(2) idle(4)]) (simp add: idle_state_def)
    moreover have "Q(ReadyQ \<mapsto> rs) = Q" using idle(1,2) by auto
    ultimately show ?thesis using run [OF cnt, of "lists s"] idle(3) pinv by (auto simp: pcb_ok_def)
  qed
qed

section \<open>Back to user mode\<close>

text \<open>Contexts whose handler has nothing left to do after \<open>schedule\<close>.\<close>

definition plain :: "kcont \<Rightarrow> bool" where
  "plain k \<longleftrightarrow> k = K_Clock \<or> k = K_Exit \<or> k = K_Delay \<or> k = K_LockAcquire"

lemma resume_plain:
  assumes "plain k" "current_process s = Some q" "pcbs s q = Some d" "region1_pt d = Some t"
  shows "resume H k u s = Some (user_context d, WriteRegister W_TLB_FLUSH_1 (WriteRegister (W_PTBR1 t) s))"
  using assms by (auto simp: plain_def resume_def schedule_end_def pcb_access)

lemma reschedule_ok:
  assumes ok: "pcb_ok s Q" and cur: "current_process s = Some p" "pcbs s p = Some c"
    and nx: "next_up s Q q rs" "pcbs s q = Some d" "p \<noteq> q" "runnable H s d" "plain (kernel_context d)"
  shows "\<exists>s'. complete H u0 (reschedule H True k u s) = Some (Ret (user_context d), s') \<and> pcb_ok s' (Q(ReadyQ \<mapsto> rs))
    \<and> same_rest s s' \<and> current_process s' = Some q
    \<and> pcbs s' = (pcbs s)(p \<mapsto> c\<lparr>user_context := u, kernel_context := k\<rparr>, q \<mapsto> d\<lparr>run_time := 0, state := PROCESS_RUNNING\<rparr>)
    \<and> ptbr1 s' = region1_pt d \<and> region0_pt s' = stack_mapped H s d"
proof -
  let ?d = "d\<lparr>run_time := 0, state := PROCESS_RUNNING\<rparr>"
  obtain s1 where s1: "schedule H True k u s = Some (Some (kernel_context d), s1)" "pcb_ok s1 (Q(ReadyQ \<mapsto> rs))"
    "same_rest s s1" "current_process s1 = Some q"
    "pcbs s1 = (pcbs s)(p \<mapsto> c\<lparr>user_context := u, kernel_context := k\<rparr>, q \<mapsto> ?d)"
    "ptbr1 s1 = region1_pt d" "region0_pt s1 = stack_mapped H s d"
    using schedule_ok [OF ok cur nx(1-4)] by blast
  obtain t where t: "region1_pt d = Some t" using nx(4) by (auto simp: runnable_def)
  let ?s = "WriteRegister W_TLB_FLUSH_1 (WriteRegister (W_PTBR1 t) s1)"
  have "resume H (kernel_context d) u0 s1 = Some (user_context ?d, ?s)"
    by (rule resume_plain [OF nx(5) s1(4)]) (simp_all add: s1(5) t)
  then have "complete H u0 (reschedule H True k u s) = Some (Ret (user_context d), ?s)"
    using s1(1) by (simp add: reschedule_def complete_def)
  then show ?thesis using s1 t by (intro exI [of _ ?s]) (simp add: pcb_ok_def)
qed

section \<open>A small kernel\<close>

definition kernel_of :: "sstate \<Rightarrow> kernel" where
  "kernel_of s = sstate.extend s (kernel.fields (replicate 256 None) (replicate 8 None) 1)"

lemma kernel_of_simps [simp]:
  "frame_bitMap (kernel_of s) = frame_bitMap s" "region0_pt (kernel_of s) = region0_pt s"
  "page_tables (kernel_of s) = page_tables s" "vm_enabled (kernel_of s) = vm_enabled s"
  "kernel_brk (kernel_of s) = kernel_brk s" "ptbr1 (kernel_of s) = ptbr1 s" "pmem (kernel_of s) = pmem s"
  "lists (kernel_of s) = lists s" "pcbs (kernel_of s) = pcbs s" "current_process (kernel_of s) = current_process s"
  "idle_process (kernel_of s) = idle_process s" "kbufs (kernel_of s) = kbufs s" "kints (kernel_of s) = kints s"
  "sync_table (kernel_of s) = sync_table s" "sync_objs (kernel_of s) = sync_objs s"
  "pipes (kernel_of s) = pipes s" "locks (kernel_of s) = locks s" "cvars (kernel_of s) = cvars s"
  "syscall_handlers (kernel_of s) = replicate 256 None" "trap_handlers (kernel_of s) = replicate 8 None"
  "switch_flag (kernel_of s) = 1"
  by (simp_all add: kernel_of_def sstate.defs kernel.defs)

text \<open>Process 1 runs, 2 is ready: it was preempted by the clock, 4 is idle.\<close>

definition two_lists :: "(lref \<times> eref list) list" where
  "two_lists = [(ReadyQ, [QueueNode 2]), (DelayQ, []), (BlockedQ, []), (ZombieQ, []), (Children 1, []),
     (Children 2, []), (Children 4, [])]"

definition two_pcbs :: "(pcb_ptr \<times> pcb) list" where
  "two_pcbs = [(1, blank_pcb\<lparr>pid := 1, state := PROCESS_RUNNING, run_time := 4\<rparr>),
     (2, blank_pcb\<lparr>pid := 2, state := PROCESS_READY, kernel_context := K_Clock, region1_pt := Some 10, kernel_stack := Some 11\<rparr>),
     (4, blank_pcb)]"

definition two_system :: kernel where
  "two_system = kernel_of (with_objects ((small_system family_nodes two_lists two_pcbs 1)
     \<lparr>page_tables := [10 \<mapsto> demo_table 8 [5, 6], 11 \<mapsto> demo_table 2 [7, 8]], idle_process := Some 4\<rparr>)
     [] Map.empty Map.empty Map.empty)"

definition demo_user :: "u32 \<Rightarrow> user_context" where
  "demo_user a = \<lparr>uc_code = 0, uc_addr = 0, uc_pc = 0, uc_sp = 0, regs = (\<lambda>_. 0)(0 := a)\<rparr>"

definition demo_env :: env where
  "demo_env = \<lparr>e_switch = True, e_pcb = \<lparr>m_pcb = Some 3, m_pt = Some 12, m_pid = 3, m_junk = blank_pcb, m_ljunk = zero_junk\<rparr>,
     e_stack = Some 13, e_stack_junk = replicate 2 zero_pte, e_kint = 4, e_kint_junk = 0, e_kbuf = Some 50,
     e_kbuf_junk = (\<lambda>_. 0), e_sync = \<lparr>m_object = None, m_sync = None, m_pipe_junk = empty_pipe,
       m_sync_junk = \<lparr>sync_type = PIPE, sync_id = 0, object = U_Pipe None\<rparr>, m_list_junk = zero_junk\<rparr>,
     e_fs = (\<lambda>_. None), e_argbuf = Some 51, e_uctxt = demo_user 0\<rparr>"

lemma two_system_ok: "pcb_ok two_system (map_of two_lists)"
proof -
  have "system_check family_nodes two_lists two_pcbs"
    by (simp add: system_check_def two_lists_def two_pcbs_def family_nodes_def blank_pcb_def idle_state_def)
  from system_check_ok [OF this] show ?thesis by (simp add: pcb_ok_def two_system_def)
qed

lemma two_system_simps [simp]:
  "current_process two_system = Some 1" "pcbs two_system = map_of two_pcbs" "idle_process two_system = Some 4"
  by (simp_all add: two_system_def)

lemma two_system_next:
  "next_up two_system (map_of two_lists) 2 []" "\<exists>d. pcbs two_system 2 = Some d \<and> runnable demo_hw two_system d \<and> plain (kernel_context d)"
  by (simp_all add: next_up_def two_lists_def two_pcbs_def two_system_def runnable_def plain_def kstack_pages_def
      ADDR_TO_PAGE_NUM_def KSTACK_START_PAGE_def demo_table_def)

end
