(* ===== verification/Sys_Props.thy ===== *)
theory Sys_Props
  imports Sched_Props
begin

text \<open>
  Properties of the clock and of the system calls that leave the processor to another process.
\<close>

section \<open>Parking the running process\<close>

lemma next_up_cong:
  "next_up s Q q rs \<Longrightarrow> Q' ReadyQ = Q ReadyQ \<Longrightarrow> idle_process s' = idle_process s \<Longrightarrow> pcbs s' q = pcbs s q
    \<Longrightarrow> next_up s' Q' q rs"
  by (simp add: next_up_def)

lemma park_ok:
  assumes ok: "pcb_ok s Q" and cur: "current_process s = Some p" "pcbs s p = Some c" "state c = PROCESS_DEFAULT"
    and l: "Q l = Some xs" "l \<noteq> ReadyQ" "state_queues (state (f c)) l"
    and nx: "next_up s Q q rs" "pcbs s q = Some d" "p \<noteq> q" "runnable H s d" "plain (kernel_context d)"
  shows "\<exists>s1 s'. queue_add l f (Some p) s = Some s1 \<and> complete H u0 (reschedule H True k u s1) = Some (Ret (user_context d), s')
    \<and> pcb_ok s' (Q(l \<mapsto> xs @ [QueueNode p], ReadyQ \<mapsto> rs)) \<and> same_rest s s' \<and> current_process s' = Some q
    \<and> pcbs s' = (pcbs s)(p \<mapsto> (f c)\<lparr>user_context := u, kernel_context := k\<rparr>, q \<mapsto> d\<lparr>run_time := 0, state := PROCESS_RUNNING\<rparr>)
    \<and> ptbr1 s' = region1_pt d \<and> region0_pt s' = stack_mapped H s d"
proof -
  obtain h where h: "queue_add l f (Some p) s = Some (s\<lparr>pcbs := (pcbs s)(p \<mapsto> f c), lists := h\<rparr>)"
    "sched_inv h ((pcbs s)(p \<mapsto> f c)) (Q(l \<mapsto> xs @ [QueueNode p]))"
    using queue_add_ok [where Q = Q and f = f, OF ok [unfolded pcb_ok_def] cur(2,3) l(1,3)] by blast
  let ?s = "s\<lparr>pcbs := (pcbs s)(p \<mapsto> f c), lists := h\<rparr>" and ?Q = "Q(l \<mapsto> xs @ [QueueNode p])"
  have s: "pcb_ok ?s ?Q" "current_process ?s = Some p" "pcbs ?s p = Some (f c)" "pcbs ?s q = Some d"
    "runnable H ?s d" "stack_mapped H ?s d = stack_mapped H s d" "same_rest s ?s"
    using h(2) cur(1) nx(2-4) by (simp_all add: pcb_ok_def runnable_def stack_mapped_def)
  have "next_up ?s ?Q q rs" by (rule next_up_cong [OF nx(1)]) (use l(2) nx(3) in auto)
  from reschedule_ok [OF s(1-3) this s(4) nx(3) s(5) nx(5), of u0 k u] obtain s' where
    "complete H u0 (reschedule H True k u ?s) = Some (Ret (user_context d), s')" "pcb_ok s' (?Q(ReadyQ \<mapsto> rs))"
    "same_rest ?s s'" "current_process s' = Some q"
    "pcbs s' = (pcbs ?s)(p \<mapsto> (f c)\<lparr>user_context := u, kernel_context := k\<rparr>, q \<mapsto> d\<lparr>run_time := 0, state := PROCESS_RUNNING\<rparr>)"
    "ptbr1 s' = region1_pt d" "region0_pt s' = stack_mapped H s d" unfolding s(6) by blast
  then show ?thesis using h(1) same_rest_trans [OF s(7)]
    by (intro exI [of _ ?s] exI [of _ s']) simp
qed

lemma pcb_ok_idle_upd:
  assumes "pcb_ok s Q" "pcbs s p = Some c" "idle_state (state c)" "idle_state (state c')"
  shows "pcb_ok (s\<lparr>pcbs := (pcbs s)(p \<mapsto> c')\<rparr>) Q"
  using sched_inv_idle [OF assms(1) [unfolded pcb_ok_def] assms(2-4)] by (simp add: pcb_ok_def)

section \<open>Scheduling\<close>

text \<open>
  C21: \<open>schedule\<close> gives the processor to the process at the head of the ready queue, or to idle
  when the queue is empty. The user context of the caller and the point where it stopped are
  saved in its control block, the chosen process leaves the queue, is running, starts a new
  time slice, and has its own page table and kernel stack installed; the handler then returns
  to the user context the chosen process was last saved with. Nothing else changes, and the
  queues stay consistent.
\<close>

theorem schedule_hands_over:
  assumes "pcb_ok s Q" "current_process s = Some p" "pcbs s p = Some c"
    "next_up s Q q rs" "pcbs s q = Some d" "p \<noteq> q" "runnable H s d" "plain (kernel_context d)"
  shows "\<exists>s'. complete H u0 (reschedule H True k u s) = Some (Ret (user_context d), s') \<and> pcb_ok s' (Q(ReadyQ \<mapsto> rs))
    \<and> same_rest s s' \<and> current_process s' = Some q
    \<and> pcbs s' = (pcbs s)(p \<mapsto> c\<lparr>user_context := u, kernel_context := k\<rparr>, q \<mapsto> d\<lparr>run_time := 0, state := PROCESS_RUNNING\<rparr>)
    \<and> ptbr1 s' = region1_pt d \<and> region0_pt s' = stack_mapped H s d"
  by (rule reschedule_ok [OF assms])

lemma schedule_hands_over_witness:
  "\<exists>s'. complete demo_hw (demo_user 0) (reschedule demo_hw True K_Delay (demo_user 7) two_system)
      = Some (Ret (user_context blank_pcb), s') \<and> current_process s' = Some 2 \<and> ptbr1 s' = Some 10"
proof -
  obtain d where d: "pcbs two_system 2 = Some d" "runnable demo_hw two_system d" "plain (kernel_context d)"
    using two_system_next(2) by blast
  have "pcbs two_system 1 = Some (blank_pcb\<lparr>pid := 1, state := PROCESS_RUNNING, run_time := 4\<rparr>)" by (simp add: two_pcbs_def)
  from schedule_hands_over [OF two_system_ok _ this two_system_next(1) d(1) _ d(2,3), of "demo_user 0" K_Delay "demo_user 7"] d(1)
  show ?thesis by (auto simp: two_pcbs_def)
qed

section \<open>Delay\<close>

text \<open>
  C23: \<open>Delay(n)\<close> refuses a negative \<open>n\<close> with \<open>ERROR\<close> and returns 0 at once for 0, in both cases
  without touching anything. For a positive \<open>n\<close> the caller goes to the end of the delay queue
  with \<open>n\<close> ticks to wait and a return value of 0 in its saved context, and the next process
  runs.
\<close>

theorem delay_blocks_and_switches:
  assumes "pcb_ok s Q" "current_process s = Some p" "pcbs s p = Some c" "idle_state (state c)" "Q DelayQ = Some ds"
    "next_up s Q q rs" "pcbs s q = Some d" "p \<noteq> q" "runnable H s d" "plain (kernel_context d)" "e_switch e"
  shows "if int_reg 0 u < 0 then SysDelay H e u s = Some (Return (set_reg 0 (word_of_int (ERROR H)) u), s)
    else if int_reg 0 u = 0 then SysDelay H e u s = Some (Return (set_reg 0 0 u), s)
    else \<exists>s'. complete H u (SysDelay H e u s) = Some (Ret (user_context d), s')
      \<and> pcb_ok s' (Q(DelayQ \<mapsto> ds @ [QueueNode p], ReadyQ \<mapsto> rs)) \<and> current_process s' = Some q
      \<and> pcbs s' p = Some (c\<lparr>state := PROCESS_DELAYED, delay_ticks := int_reg 0 u, user_context := set_reg 0 0 u,
           kernel_context := K_Delay\<rparr>)
      \<and> same_rest s s'"
proof -
  let ?c = "c\<lparr>state := PROCESS_DEFAULT\<rparr>" and ?f = "\<lambda>c. c\<lparr>state := PROCESS_DELAYED, delay_ticks := int_reg 0 u\<rparr>"
  let ?s = "s\<lparr>pcbs := (pcbs s)(p \<mapsto> ?c)\<rparr>"
  have s: "pcb_ok ?s Q" by (rule pcb_ok_idle_upd [OF assms(1,3,4)]) (simp add: idle_state_def)
  have nx: "next_up ?s Q q rs" by (rule next_up_cong [OF assms(6)]) (use assms(8) in auto)
  have r: "runnable H ?s d" "pcbs ?s q = Some d" using assms(7-9) by (simp_all add: runnable_def)
  obtain s1 s' where s1: "queue_add DelayQ ?f (Some p) ?s = Some s1"
    "complete H u (reschedule H True K_Delay (set_reg 0 0 u) s1) = Some (Ret (user_context d), s')"
    "pcb_ok s' (Q(DelayQ \<mapsto> ds @ [QueueNode p], ReadyQ \<mapsto> rs))" "same_rest ?s s'" "current_process s' = Some q"
    "pcbs s' = (pcbs ?s)(p \<mapsto> (?f ?c)\<lparr>user_context := set_reg 0 0 u, kernel_context := K_Delay\<rparr>,
        q \<mapsto> d\<lparr>run_time := 0, state := PROCESS_RUNNING\<rparr>)"
    using park_ok [where f = ?f, OF s _ _ _ assms(5) _ _ nx r(2) assms(8) r(1) assms(10), of ?c u K_Delay "set_reg 0 0 u"] assms(2)
    by auto
  have "int_reg 0 u > 0 \<Longrightarrow> SysDelay H e u s = reschedule H True K_Delay (set_reg 0 0 u) s1"
    using assms(2,3,11) s1(1) by (simp add: SysDelay_def pcb_access add_to_delay_queue_def Let_def)
  then show ?thesis
    using s1(2-6) assms(2,3,8) by (auto simp: SysDelay_def pcb_access return_value_def same_rest_def)
qed

lemma delay_blocks_and_switches_witness:
  "\<exists>s'. complete demo_hw (demo_user 3) (SysDelay demo_hw demo_env (demo_user 3) two_system)
      = Some (Ret (user_context blank_pcb), s') \<and> map_option delay_ticks (pcbs s' 1) = Some 3"
proof -
  obtain d where d: "pcbs two_system 2 = Some d" "runnable demo_hw two_system d" "plain (kernel_context d)"
    using two_system_next(2) by blast
  have c: "pcbs two_system 1 = Some (blank_pcb\<lparr>pid := 1, state := PROCESS_RUNNING, run_time := 4\<rparr>)" by (simp add: two_pcbs_def)
  have e: "int_reg 0 (demo_user 3) = 3" by (simp add: int_reg_def demo_user_def)
  from delay_blocks_and_switches [OF two_system_ok _ c _ _ two_system_next(1) d(1) _ d(2,3), of "[]" demo_env "demo_user 3"] d(1) e
  show ?thesis by (auto simp: two_pcbs_def two_lists_def idle_state_def demo_env_def)
qed

section \<open>The clock\<close>

lemma clock_prefix:
  assumes ok: "pcb_ok s Q" and cur: "current_process s = Some p" "pcbs s p = Some c" "idle_state (state c)"
    and qs: "Q DelayQ = Some (map QueueNode ps)" "Q ReadyQ = Some (map QueueNode rs)" and mx: "run_time c < INT_MAX"
  shows "\<exists>s1. clock_handler H e u s
        = (if run_time c + 1 > time_slice c \<and> (rs \<noteq> [] \<or> filter (due (pcbs s)) ps \<noteq> [])
           then reschedule H (e_switch e) K_Clock u
             (s1\<lparr>pcbs := (pcbs s1)(p \<mapsto> c\<lparr>run_time := run_time c + 1, state := PROCESS_DEFAULT\<rparr>)\<rparr>)
           else Some (Return u, s1))
    \<and> pcb_ok s1 (ticked Q (pcbs s) ps rs) \<and> same_rest s s1 \<and> current_process s1 = current_process s
    \<and> region0_pt s1 = region0_pt s \<and> pcbs s1 = (tick_all ps (pcbs s))(p \<mapsto> c\<lparr>run_time := run_time c + 1\<rparr>)"
proof -
  note si = ok [unfolded pcb_ok_def]
  let ?c = "c\<lparr>run_time := run_time c + 1\<rparr>" and ?Q = "ticked Q (pcbs s) ps rs"
  obtain h' where h': "update_delayed_processes H s = Some (s\<lparr>pcbs := tick_all ps (pcbs s), lists := h'\<rparr>)"
    "sched_inv h' (tick_all ps (pcbs s)) ?Q"
    using update_delayed_processes_ok [OF si qs, of H] by blast
  have "p \<notin> set ps"
    using sched_inv_idle_unqueued [OF si cur(2,3)] queuedI [where Q = Q, OF qs(1), of "QueueNode p"] by auto
  then have tp: "tick_all ps (pcbs s) p = Some c" using cur(2) by (simp add: tick_all_def)
  let ?s = "s\<lparr>pcbs := (tick_all ps (pcbs s))(p \<mapsto> ?c), lists := h'\<rparr>"
  have inv: "sched_inv h' (pcbs ?s) ?Q" using sched_inv_same_state [OF h'(2) tp, of ?c] by simp
  let ?rs = "rs @ filter (due (pcbs s)) ps"
  have cnt: "counts h' ReadyQ = Some (int (length ?rs))"
    using lists_ok_count [OF sched_invD(1) [OF inv], of ReadyQ "map QueueNode ?rs"] by simp
  have len: "int (length ?rs) = 0 \<longleftrightarrow> rs = [] \<and> filter (due (pcbs s)) ps = []"
    by (simp only: of_nat_eq_0_iff length_0_conv append_is_Nil_conv)
  have "clock_handler H e u s
        = (if run_time c + 1 > time_slice c \<and> (rs \<noteq> [] \<or> filter (due (pcbs s)) ps \<noteq> [])
           then reschedule H (e_switch e) K_Clock u (?s\<lparr>pcbs := (pcbs ?s)(p \<mapsto> ?c\<lparr>state := PROCESS_DEFAULT\<rparr>)\<rparr>)
           else Some (Return u, ?s))"
    using h'(1) tp cur(1) cnt len mx
    by (simp only: clock_handler_def pcb_access Let_def bind.bind_lunit split: if_splits) auto
  then show ?thesis using inv unfolding pcb_ok_def by (intro exI [of _ ?s] conjI) simp_all
qed

text \<open>
  As long as the running process has not used up its time slice, or nobody else is ready
  even after this tick, the clock interrupt returns to the same user context: the process
  keeps running and only its run time grows; the sleeping processes have advanced by one tick
  and the queues are consistent.
\<close>

lemma clock_keeps_running:
  assumes "pcb_ok s Q" "current_process s = Some p" "pcbs s p = Some c" "idle_state (state c)"
    "Q DelayQ = Some (map QueueNode ps)" "Q ReadyQ = Some (map QueueNode rs)"
    "run_time c < INT_MAX" "run_time c + 1 \<le> time_slice c \<or> rs = [] \<and> filter (due (pcbs s)) ps = []"
  shows "\<exists>s'. clock_handler H e u s = Some (Return u, s') \<and> current_process s' = Some p
    \<and> pcbs s' = (tick_all ps (pcbs s))(p \<mapsto> c\<lparr>run_time := run_time c + 1\<rparr>) \<and> pcb_ok s' (ticked Q (pcbs s) ps rs)"
proof -
  have nt: "\<not> (run_time c + 1 > time_slice c \<and> (rs \<noteq> [] \<or> filter (due (pcbs s)) ps \<noteq> []))" using assms(8) by auto
  show ?thesis using clock_prefix [where Q = Q, OF assms(1-7), of H e u] assms(2) unfolding if_not_P [OF nt] by auto
qed

text \<open>The small kernel, with process 1 at the start of its time slice.\<close>

definition fresh_pcb1 :: pcb where
  "fresh_pcb1 = blank_pcb\<lparr>pid := 1, state := PROCESS_RUNNING\<rparr>"

definition fresh_system :: kernel where
  "fresh_system = two_system\<lparr>pcbs := (map_of two_pcbs)(1 \<mapsto> fresh_pcb1)\<rparr>"

lemma fresh_system_ok:
  "pcb_ok fresh_system (map_of two_lists)" "current_process fresh_system = Some 1" "pcbs fresh_system 1 = Some fresh_pcb1"
  "idle_state (state fresh_pcb1)" "map_of two_lists DelayQ = Some (map QueueNode [])"
  "map_of two_lists ReadyQ = Some (map QueueNode [2])" "run_time fresh_pcb1 < INT_MAX" "run_time fresh_pcb1 + 1 \<le> time_slice fresh_pcb1"
proof -
  have "pcbs two_system 1 = Some (blank_pcb\<lparr>pid := 1, state := PROCESS_RUNNING, run_time := 4\<rparr>)" by (simp add: two_pcbs_def)
  then show "pcb_ok fresh_system (map_of two_lists)"
    using pcb_ok_idle_upd [OF two_system_ok, of 1 _ fresh_pcb1] by (simp add: idle_state_def fresh_pcb1_def fresh_system_def)
qed (simp_all add: fresh_system_def fresh_pcb1_def two_lists_def idle_state_def blank_pcb_def INT_MAX_def)

lemma clock_keeps_running_demo:
  "\<exists>s'. clock_handler demo_hw demo_env (demo_user 0) fresh_system = Some (Return (demo_user 0), s') \<and> current_process s' = Some 1"
  using clock_keeps_running [OF fresh_system_ok(1-7) disjI1 [OF fresh_system_ok(8)], of demo_hw demo_env "demo_user 0"]
  by blast

text \<open>
  A process other than idle that the clock interrupt takes the processor from ends in state
  default and in no queue of the kernel.
\<close>

lemma clock_preempts:
  assumes "pcb_ok s Q" "current_process s = Some p" "pcbs s p = Some c" "idle_state (state c)"
    "Q DelayQ = Some (map QueueNode ps)" "Q ReadyQ = Some (map QueueNode (q # rs))" "run_time c + 1 > time_slice c"
    "pcbs s q = Some d" "runnable H s d" "plain (kernel_context d)" "e_switch e" "idle_process s \<noteq> Some p"
    "run_time c < INT_MAX"
  shows "\<exists>s' Q' c'. complete H u (clock_handler H e u s) = Some (Ret (user_context d), s') \<and> pcb_ok s' Q'
    \<and> current_process s' = Some q \<and> pcbs s' p = Some c' \<and> state c' = PROCESS_DEFAULT
    \<and> QueueNode p \<notin> queued Q' \<and> idle_process s' \<noteq> Some p"
proof -
  note si = assms(1) [unfolded pcb_ok_def]
  let ?c = "c\<lparr>run_time := run_time c + 1\<rparr>" and ?Q = "ticked Q (pcbs s) ps (q # rs)"
  let ?z = "?c\<lparr>state := PROCESS_DEFAULT\<rparr>"
  obtain s1 where s1: "clock_handler H e u s
        = (if run_time c + 1 > time_slice c \<and> (q # rs \<noteq> [] \<or> filter (due (pcbs s)) ps \<noteq> [])
           then reschedule H (e_switch e) K_Clock u (s1\<lparr>pcbs := (pcbs s1)(p \<mapsto> ?z)\<rparr>) else Some (Return u, s1))"
    "pcb_ok s1 ?Q" "same_rest s s1" "current_process s1 = current_process s" "region0_pt s1 = region0_pt s"
    "pcbs s1 = (tick_all ps (pcbs s))(p \<mapsto> ?c)"
    using clock_prefix [where Q = Q, OF assms(1-6,13), of H e u] by (elim exE conjE) (rule that)
  define s2 where "s2 = s1\<lparr>pcbs := (pcbs s1)(p \<mapsto> ?z)\<rparr>"
  have run: "clock_handler H e u s = reschedule H True K_Clock u s2"
    using s1(1) assms(7,11) by (simp add: s2_def)
  note ok1 = s1(2)
  have p1: "pcbs s1 p = Some ?c" by (simp add: s1(6))
  have ok2: "pcb_ok s2 ?Q" unfolding s2_def
    by (rule pcb_ok_idle_upd [OF ok1 p1]) (use assms(4) in \<open>simp_all add: idle_state_def\<close>)
  have qin: "in_q Q (QueueNode q) ReadyQ" using assms(6) by (auto simp: in_q_def)
  obtain d0 where "pcbs s q = Some d0" "state_queues (state d0) ReadyQ" using sched_invD(3) [OF si qin] by blast
  then have qst: "state d = PROCESS_READY" using assms(8) by (cases "state d") auto
  have pq: "p \<noteq> q" using assms(3,4,8) qst by (auto simp: idle_state_def)
  have "q \<notin> set ps"
    using qs.in_q_unique [OF sched_invD(1) [OF si] qin, of DelayQ] assms(5) by (auto simp: in_q_def)
  then have q2: "pcbs s2 q = Some d" using assms(8) pq by (simp add: s2_def s1(6) tick_all_def)
  have s2: "current_process s2 = Some p" "pcbs s2 p = Some ?z" "idle_process s2 = idle_process s"
    "page_tables s2 = page_tables s" "region0_pt s2 = region0_pt s" using assms(2) s1(3-5) by (simp_all add: s2_def same_rest_def)
  have r2: "runnable H s2 d" using assms(9) s2(4,5) by (simp add: runnable_def)
  let ?rs = "map QueueNode (rs @ filter (due (pcbs s)) ps)"
  have nx: "next_up s2 ?Q q ?rs" by (simp add: next_up_def)
  obtain s' where s': "complete H u (reschedule H True K_Clock u s2) = Some (Ret (user_context d), s')"
    "pcb_ok s' (?Q(ReadyQ \<mapsto> ?rs))" "same_rest s2 s'" "current_process s' = Some q"
    "pcbs s' = (pcbs s2)(p \<mapsto> ?z\<lparr>user_context := u, kernel_context := K_Clock\<rparr>, q \<mapsto> d\<lparr>run_time := 0, state := PROCESS_RUNNING\<rparr>)"
    using reschedule_ok [where Q = "ticked Q (pcbs s) ps (q # rs)", OF ok2 s2(1,2) nx q2 pq r2 assms(10), of u K_Clock u] by blast
  have pp: "pcbs s' p = Some (?z\<lparr>user_context := u, kernel_context := K_Clock\<rparr>)" using s'(5) pq by simp
  have "QueueNode p \<notin> queued (?Q(ReadyQ \<mapsto> ?rs))"
    by (rule sched_inv_idle_unqueued [OF s'(2) [unfolded pcb_ok_def] pp]) (simp add: idle_state_def)
  then show ?thesis using s' run pp s2(3) assms(12)
    by (intro exI [of _ s'] exI [of _ "?Q(ReadyQ \<mapsto> ?rs)"] exI) (auto simp: same_rest_def)
qed

end
