(* ===== verification/Bytes.thy ===== *)
theory Bytes
  imports Memory
begin

text \<open>
  Runs of bytes in virtual memory that may cross pages: what a store leaves behind and what a
  load finds, in terms of the physical places the addresses translate to.
\<close>

text \<open>Every one of the \<open>n\<close> addresses from \<open>a\<close> translates, the \<open>k\<close>-th one to \<open>loc k\<close>.\<close>

definition placed :: "hw \<Rightarrow> 3 word \<Rightarrow> u32 \<Rightarrow> nat \<Rightarrow> (nat \<Rightarrow> nat \<times> nat) \<Rightarrow> 'a mem_scheme \<Rightarrow> bool" where
  "placed H need a n loc s \<longleftrightarrow> (\<forall>k < n. translate H need (a + of_nat k) s = Some (loc k))"

lemma placed_pmem [simp]: "placed H need a n loc (s\<lparr>pmem := m\<rparr>) = placed H need a n loc s"
  by (simp add: placed_def)

lemma placed_Suc:
  "placed H need a (Suc n) loc s \<longleftrightarrow> translate H need a s = Some (loc 0) \<and> placed H need (a + 1) n (loc \<circ> Suc) s"
  by (auto simp: placed_def less_Suc_eq_0_disj add.assoc)

text \<open>The bytes at the places \<open>loc 0, .., loc (n - 1)\<close>.\<close>

definition bytes_at :: "(nat \<Rightarrow> nat \<Rightarrow> u8) \<Rightarrow> (nat \<Rightarrow> nat \<times> nat) \<Rightarrow> nat \<Rightarrow> u8 list" where
  "bytes_at m loc n = map (\<lambda>k. m (fst (loc k)) (snd (loc k))) [0..<n]"

lemma bytes_at_0 [simp]: "bytes_at m loc 0 = []"
  by (simp add: bytes_at_def)

lemma bytes_at_Suc: "bytes_at m loc (Suc n) = m (fst (loc 0)) (snd (loc 0)) # bytes_at m (loc \<circ> Suc) n"
  by (simp add: bytes_at_def map_upt_Suc del: upt_Suc)

lemma bytes_at_length [simp]: "length (bytes_at m loc n) = n"
  by (simp add: bytes_at_def)

lemma bytes_at_cong:
  "(\<And>k. k < n \<Longrightarrow> m' (fst (loc k)) (snd (loc k)) = m (fst (loc k)) (snd (loc k))) \<Longrightarrow> bytes_at m' loc n = bytes_at m loc n"
  by (simp add: bytes_at_def)

lemma load_bytes_placed:
  "placed H (PROT_READ H) a n loc s \<Longrightarrow> load_bytes H a n s = Some (bytes_at (pmem s) loc n)"
proof (induction n arbitrary: a loc)
  case (Suc n)
  have "translate H (PROT_READ H) a s = Some (loc 0)" using Suc.prems by (simp only: placed_Suc)
  then have l: "load8 H a s = Some (pmem s (fst (loc 0)) (snd (loc 0)))"
    by (simp add: load8_def case_prod_beta)
  have "load_bytes H (a + 1) n s = Some (bytes_at (pmem s) (loc \<circ> Suc) n)"
    by (rule Suc.IH) (use Suc.prems in \<open>simp only: placed_Suc\<close>)
  then show ?case using l unfolding bytes_at_Suc by simp
qed simp

lemma store_bytes_placed:
  assumes "placed H (PROT_WRITE H) a (length bs) loc s" "inj_on loc {..<length bs}"
  shows "\<exists>m. store_bytes H a bs s = Some (s\<lparr>pmem := m\<rparr>) \<and> bytes_at m loc (length bs) = bs
    \<and> (\<forall>f i. (f, i) \<notin> loc ` {..<length bs} \<longrightarrow> m f i = pmem s f i)"
  using assms
proof (induction bs arbitrary: a loc s)
  case Nil
  then show ?case by (intro exI [of _ "pmem s"]) simp
next
  case (Cons b bs)
  obtain f i where fi: "loc 0 = (f, i)" by (cases "loc 0")
  let ?s = "s\<lparr>pmem := (pmem s)(f := (pmem s f)(i := b))\<rparr>"
  have st: "store8 H a b s = Some ?s" using Cons.prems(1) fi by (simp add: placed_Suc store8_def)
  have inj: "inj_on (loc \<circ> Suc) {..<length bs}" using Cons.prems(2) by (auto simp: inj_on_def)
  have pl: "placed H (PROT_WRITE H) (a + 1) (length bs) (loc \<circ> Suc) ?s" using Cons.prems(1) unfolding placed_pmem by (simp only: list.size add_Suc_right add_0_right placed_Suc)
  obtain m where m: "store_bytes H (a + 1) bs ?s = Some (?s\<lparr>pmem := m\<rparr>)" "bytes_at m (loc \<circ> Suc) (length bs) = bs"
    "\<forall>g j. (g, j) \<notin> (loc \<circ> Suc) ` {..<length bs} \<longrightarrow> m g j = pmem ?s g j"
    using Cons.IH [OF pl inj] by (elim exE conjE) (rule that)
  have "(f, i) \<notin> (loc \<circ> Suc) ` {..<length bs}"
  proof
    assume "(f, i) \<in> (loc \<circ> Suc) ` {..<length bs}"
    then obtain k where "k < length bs" "loc (Suc k) = loc 0" using fi by auto
    then show False using Cons.prems(2) by (auto simp: inj_on_def)
  qed
  then have "m f i = b" using m(3) by simp
  then have "bytes_at m loc (length (b # bs)) = b # bs" using m(2) fi by (simp add: bytes_at_Suc)
  moreover have "m g j = pmem s g j" if "(g, j) \<notin> loc ` {..<length (b # bs)}" for g j
  proof -
    have "(g, j) \<notin> (loc \<circ> Suc) ` {..<length bs}" using that by auto
    moreover have "(g, j) \<noteq> (f, i)" using that fi by (metis imageI lessThan_iff length_Cons zero_less_Suc)
    ultimately show ?thesis using m(3) by auto
  qed
  ultimately show ?case using st m(1) by (intro exI [of _ m]) simp
qed

text \<open>A store through addresses that can also be read is read back.\<close>

lemma load_store_placed:
  assumes "placed H (PROT_WRITE H) a (length bs) loc s" "placed H (PROT_READ H) a (length bs) loc s"
    "inj_on loc {..<length bs}"
  shows "\<exists>m. store_bytes H a bs s = Some (s\<lparr>pmem := m\<rparr>) \<and> load_bytes H a (length bs) (s\<lparr>pmem := m\<rparr>) = Some bs
    \<and> (\<forall>f i. (f, i) \<notin> loc ` {..<length bs} \<longrightarrow> m f i = pmem s f i)"
proof -
  obtain m where "store_bytes H a bs s = Some (s\<lparr>pmem := m\<rparr>)" "bytes_at m loc (length bs) = bs"
    "\<forall>f i. (f, i) \<notin> loc ` {..<length bs} \<longrightarrow> m f i = pmem s f i"
    using store_bytes_placed [OF assms(1,3)] by blast
  then show ?thesis using load_bytes_placed [of H a "length bs" loc "s\<lparr>pmem := m\<rparr>"] assms(2) by auto
qed

section \<open>A window of memory\<close>

text \<open>
  \<open>n\<close> addresses from \<open>a\<close> that can be read and written and have places of their own: what the
  code does there is what it does to a list of \<open>n\<close> bytes.
\<close>

definition window :: "hw \<Rightarrow> u32 \<Rightarrow> nat \<Rightarrow> (nat \<Rightarrow> nat \<times> nat) \<Rightarrow> 'a mem_scheme \<Rightarrow> bool" where
  "window H a n loc s \<longleftrightarrow> placed H (PROT_WRITE H) a n loc s \<and> placed H (PROT_READ H) a n loc s \<and> inj_on loc {..<n}"

definition view :: "(nat \<Rightarrow> nat \<times> nat) \<Rightarrow> nat \<Rightarrow> 'a mem_scheme \<Rightarrow> u8 list" where
  "view loc n s = bytes_at (pmem s) loc n"

lemma window_pmem [simp]: "window H a n loc (s\<lparr>pmem := m\<rparr>) = window H a n loc s"
  by (simp add: window_def)

lemma view_length [simp]: "length (view loc n s) = n"
  by (simp add: view_def)

lemma placed_part: "placed H need a n loc s \<Longrightarrow> i + k \<le> n \<Longrightarrow> placed H need (a + of_nat i) k (\<lambda>j. loc (i + j)) s"
  by (simp add: placed_def add.assoc flip: of_nat_add)

lemma bytes_at_part: "i + k \<le> n \<Longrightarrow> bytes_at m (\<lambda>j. loc (i + j)) k = take k (drop i (bytes_at m loc n))"
  by (rule nth_equalityI) (simp_all add: bytes_at_def)

lemma load_window:
  assumes "window H a n loc s" "i + k \<le> n"
  shows "load_bytes H (a + of_nat i) k s = Some (take k (drop i (view loc n s)))"
proof -
  have r: "placed H (PROT_READ H) a n loc s" using assms(1) unfolding window_def by blast
  show ?thesis using load_bytes_placed [OF placed_part [OF r assms(2)]] unfolding bytes_at_part [OF assms(2)] view_def .
qed

lemma store_window:
  assumes "window H a n loc s" "i + length bs \<le> n"
  shows "\<exists>m. store_bytes H (a + of_nat i) bs s = Some (s\<lparr>pmem := m\<rparr>)
    \<and> view loc n (s\<lparr>pmem := m\<rparr>) = take i (view loc n s) @ bs @ drop (i + length bs) (view loc n s)
    \<and> (\<forall>f k. (f, k) \<notin> loc ` {..<n} \<longrightarrow> m f k = pmem s f k)"
proof -
  let ?loc = "\<lambda>j. loc (i + j)" and ?v = "view loc n s"
  have w: "placed H (PROT_WRITE H) (a + of_nat i) (length bs) ?loc s"
    by (rule placed_part [OF _ assms(2)]) (use assms(1) in \<open>unfold window_def, blast\<close>)
  have inj: "inj_on loc {..<n}" using assms(1) by (simp add: window_def)
  have "inj_on ?loc {..<length bs}"
  proof (rule inj_onI)
    fix x y assume "x \<in> {..<length bs}" "y \<in> {..<length bs}" "loc (i + x) = loc (i + y)"
    then have "i + x = i + y" using assms(2) by (intro inj_onD [OF inj]) simp_all
    then show "x = y" by simp
  qed
  from store_bytes_placed [OF w this] obtain m where m: "store_bytes H (a + of_nat i) bs s = Some (s\<lparr>pmem := m\<rparr>)"
    "bytes_at m ?loc (length bs) = bs" "\<forall>f k. (f, k) \<notin> ?loc ` {..<length bs} \<longrightarrow> m f k = pmem s f k"
    by (elim exE conjE) (rule that)
  have old: "m (fst (loc j)) (snd (loc j)) = pmem s (fst (loc j)) (snd (loc j))"
    if "j < n" "\<not> (i \<le> j \<and> j < i + length bs)" for j
  proof -
    have "loc j \<notin> ?loc ` {..<length bs}"
    proof
      assume "loc j \<in> ?loc ` {..<length bs}"
      then obtain l where "l < length bs" "loc j = loc (i + l)" by auto
      then have "j = i + l" using inj that(1) assms(2) by (simp add: inj_on_def)
      with that(2) \<open>l < length bs\<close> show False by simp
    qed
    then show ?thesis using m(3) by simp
  qed
  have new: "m (fst (loc j)) (snd (loc j)) = bs ! (j - i)" if "i \<le> j" "j < i + length bs" for j
  proof -
    have "bytes_at m ?loc (length bs) ! (j - i) = m (fst (loc j)) (snd (loc j))"
    proof -
      have "j - i < length bs" using that by linarith
      then have "bytes_at m ?loc (length bs) ! (j - i) = m (fst (loc (i + (j - i)))) (snd (loc (i + (j - i))))"
        by (simp add: bytes_at_def)
      then show ?thesis using that(1) by simp
    qed
    then show ?thesis unfolding m(2) by simp
  qed
  have "view loc n (s\<lparr>pmem := m\<rparr>) = take i ?v @ bs @ drop (i + length bs) ?v"
  proof (rule nth_equalityI)
    show "length (view loc n (s\<lparr>pmem := m\<rparr>)) = length (take i ?v @ bs @ drop (i + length bs) ?v)" using assms(2) by simp
    fix j assume "j < length (view loc n (s\<lparr>pmem := m\<rparr>))"
    then have j: "j < n" by simp
    have "view loc n (s\<lparr>pmem := m\<rparr>) ! j = m (fst (loc j)) (snd (loc j))" using j by (simp add: view_def bytes_at_def)
    moreover have "?v ! j = pmem s (fst (loc j)) (snd (loc j))" using j by (simp add: view_def bytes_at_def)
    ultimately show "view loc n (s\<lparr>pmem := m\<rparr>) ! j = (take i ?v @ bs @ drop (i + length bs) ?v) ! j"
      using old [OF j] new [of j] assms(2) j by (auto simp: nth_append not_less)
  qed
  moreover have "m f k = pmem s f k" if "(f, k) \<notin> loc ` {..<n}" for f k
  proof -
    have "?loc ` {..<length bs} \<subseteq> loc ` {..<n}" using assms(2) by auto
    then show ?thesis using m(3) that by blast
  qed
  ultimately show ?thesis using m(1) by blast
qed

lemma load_int_window:
  assumes "window H a n loc s" "hw_ok H" "drop i (view loc n s) = enc_int H v @ rest"
  shows "load_int H (a + of_nat i) s = Some v"
proof -
  have l: "n - i = 4 + length rest" using arg_cong [OF assms(3), of length] hw_okD(9) [OF assms(2), of v] by simp
  then have "i + 4 \<le> n" by simp
  then have "load_bytes H (a + of_nat i) 4 s = Some (enc_int H v)"
    using load_window [OF assms(1), of i 4] assms(3) hw_okD(9) [OF assms(2), of v] by simp
  then show ?thesis using hw_okD(10) [OF assms(2)] by (simp add: load_int_def)
qed

end
