(* ===== verification/Sync_Calls.thy ===== *)
theory Sync_Calls
  imports Sched_Props Bytes Pipe_Props
begin

text \<open>
  The system calls on synchronisation objects as the user sees them: what comes back in
  register 0, and who runs afterwards.
\<close>

section \<open>Arguments\<close>

lemma nat_int_reg:
  assumes "0 \<le> int_reg i u"
  shows "size_of (int_reg i u) = nat (int_reg i u)"
proof -
  have "sint (regs u i) = uint (regs u i)" using assms by (simp add: int_reg_def sint_nonneg)
  then show ?thesis by (simp add: size_of_def int_reg_def)
qed

lemma placed_kstate [simp]:
  "placed H need a n loc (s\<lparr>lists := h, pcbs := P\<rparr>) = placed H need a n loc s"
  "placed H need a n loc (s\<lparr>pcbs := P, lists := h\<rparr>) = placed H need a n loc s"
  "placed H need a n loc (s\<lparr>kbufs := K\<rparr>) = placed H need a n loc s"
  by (simp_all add: placed_def translate_def pt_get_def split: pt_base.split)

lemma get_sync_cong:
  "GetCheckSync H i T (s\<lparr>kbufs := K\<rparr>) = GetCheckSync H i T s" "sync_object n (s\<lparr>kbufs := K\<rparr>) = sync_object n s"
  "GetCheckSync H i T (s\<lparr>ptbr1 := q, page_tables := t\<rparr>) = GetCheckSync H i T s"
  "sync_object n (s\<lparr>ptbr1 := q, page_tables := t\<rparr>) = sync_object n s"
  by (simp_all add: GetCheckSync_def sync_object_def)

text \<open>The facts of the smaller states in the whole kernel.\<close>

lemma kernel_of_repr [simp]:
  "pcb_ok (kernel_of s) Q = pcb_ok s Q" "runs (kernel_of s) q = runs s q"
  "lock_repr (kernel_of s) Q l a = lock_repr s Q l a" "cvar_repr (kernel_of s) Q c ws = cvar_repr s Q c ws"
  "names_lock H (kernel_of s) i l = names_lock H s i l" "names_cvar H (kernel_of s) i c = names_cvar H s i c"
  "names_pipe H (kernel_of s) i p = names_pipe H s i p" "psys H (kernel_of s) Q p pp rs ws = psys H s Q p pp rs ws"
proof -
  obtain ow vs where a: "a = (ow, vs)" by (cases a)
  show "lock_repr (kernel_of s) Q l a = lock_repr s Q l a" by (simp add: a lock_repr_def pcb_ok_def)
qed (simp_all add: pcb_ok_def runs_def cvar_repr_def names_lock_def names_cvar_def names_pipe_def
      psys_def GetCheckSync_def sync_object_def)

section \<open>Locks\<close>

text \<open>
  C35: \<open>Acquire\<close> of a free lock makes the caller its owner and returns 0. When the lock is
  taken, the caller is put on the list of the waiters and marked blocked, but the call
  returns all the same, with 30 in register 0, and the caller goes on running: the handler
  compares the result with another constant and never calls \<open>schedule\<close>.
\<close>

theorem lock_acquire_does_not_wait:
  assumes "lock_repr s Q l (ow, ws)" "names_lock H s (int_reg 0 u) l" "runs s q" "hw_ok H"
  shows "\<exists>s' Q' c'. SysLockAcquire H e u s = Some (Return (set_reg 0 (if ow = None then 0 else 30) u), s')
    \<and> current_process s' = Some q \<and> pcbs s' q = Some c'
    \<and> (if ow = None then lock_repr s' Q' l (Some q, []) \<and> idle_state (state c')
       else lock_repr s' Q' l (ow, ws @ [q]) \<and> state c' = PROCESS_BLOCKED)"
proof -
  obtain s' Q' c c' where s': "SyncLockAcquire H (int_reg 0 u) s = Some (if ow = None then SUCCESS H else PCB_BLOCKED, s')"
    "lock_repr s' Q' l (spec_acquire q (ow, ws))" "pcbs s q = Some c" "pcbs s' = (pcbs s)(q \<mapsto> c')"
    "state c' = (if ow = None then state c else PROCESS_BLOCKED)" "current_process s' = current_process s"
    using acquire_ok [OF assms(1-3)] hw_okD(1,2) [OF assms(4)] by auto
  have e: "SysLockAcquire H e u s = Some (Return (set_reg 0 (if ow = None then 0 else 30) u), s')"
    using s'(1) hw_okD(2) [OF assms(4)]
    by (simp add: SysLockAcquire_def return_value_def enum_state_def PCB_BLOCKED_def)
  show ?thesis using e s' assms(3)
    by (intro exI [of _ s'] exI [of _ Q'] exI [of _ c']) (cases ow, auto simp: runs_def dest: lock_reprD(4) [OF assms(1)])
qed

lemma lock_acquire_does_not_wait_witness:
  "\<exists>s'. SysLockAcquire demo_hw demo_env (demo_user 1) (kernel_of locked_system) = Some (Return (set_reg 0 30 (demo_user 1)), s')
     \<and> current_process s' = Some 1 \<and> map_option state (pcbs s' 1) = Some PROCESS_BLOCKED"
proof -
  have i: "int_reg 0 (demo_user 1) = 1" by (simp add: int_reg_def demo_user_def)
  show ?thesis
    using lock_acquire_does_not_wait [of "kernel_of locked_system" _ 30 "Some 1" "[]" demo_hw "demo_user 1" 1 demo_env]
      locked_system_ok i by fastforce
qed

section \<open>Condition variables\<close>

text \<open>
  C37: Through the system calls a condition variable cannot be waited on: \<open>CvarWait\<close> reads the
  identifier of the lock from the register of the variable, \<open>GetCheckSync\<close> lets the variable
  pass for a lock, and the handler follows the wrong member of the union. And a \<open>Broadcast\<close>
  that wakes somebody has no defined result.
\<close>

theorem cvar_calls_undefined:
  assumes "cvar_repr s Q c ws" "Q ReadyQ = Some (map QueueNode ys)" "names_cvar H s (int_reg 0 u) c" "hw_ok H"
  shows "SysCvarWait H e u s = None
    \<and> SysBroadcast H e u s = (if ws = [] then Some (Return (set_reg 0 0 u), s) else None)"
proof -
  obtain n where n: "\<And>T. GetCheckSync H (int_reg 0 u) T s = Some (SUCCESS H, Some n)"
    "sync_object (Some n) s = Some (U_Cvar (Some c))"
    using assms(3) by (auto simp: names_cvar_def GetCheckSync_def)
  obtain s' where s': "broadcast_loop H c s = Some s'" using broadcast_loop_ok [OF assms(1,2)] by blast
  have cnt: "counts (lists s) (CvarWaiters c) = Some (int (length ws))" by (rule cvar_count [OF assms(1)])
  have "SysCvarWait H e u s = None"
    using n hw_okD(1,2) [OF assms(4)] by (simp add: SysCvarWait_def SyncCvarWait_def Let_def)
  moreover have "SysBroadcast H e u s = (if ws = [] then Some (Return (set_reg 0 0 u), s) else None)"
    using n hw_okD(1,2) [OF assms(4)] cvar_reprD(2) [OF assms(1)] cnt s'
    by (simp add: SysBroadcast_def SyncCvarBroadcast_def return_value_def)
  ultimately show ?thesis ..
qed

lemma cvar_calls_undefined_witness:
  "SysCvarWait demo_hw demo_env (demo_user 2) (kernel_of locked_system) = None"
proof -
  have i: "int_reg 0 (demo_user 2) = 2" by (simp add: int_reg_def demo_user_def)
  have "map_of object_lists ReadyQ = Some (map QueueNode [3])" by (simp add: object_lists_def family_lists_def)
  from cvar_calls_undefined [where Q = "map_of object_lists" and s = "kernel_of locked_system" and c = 40 and ws = "[]",
      OF _ this, of demo_hw "demo_user 2" demo_env]
  show ?thesis using locked_system_ok(2,4) i by simp
qed

section \<open>Pipes\<close>

text \<open>
  C36: \<open>Read\<close> on an empty pipe returns to the caller at once with its registers as they were.
  The caller is on the list of the readers and marked blocked, but nobody else is scheduled;
  the kernel buffer is copied to the user unfilled and freed, while the control block still
  points to it: the next writer will deliver its bytes into freed memory.
\<close>

theorem pipe_read_does_not_wait:
  assumes "psys H s Q p pp rs ws" "contents H pp = []" "open_for_read pp" "names_pipe H s (int_reg 0 u) p"
    "runs s q" "e_kbuf e = Some b" "kbufs s b = None" "0 \<le> int_reg 2 u" "hw_ok H"
    "placed H (PROT_WRITE H) (regs u 1) (nat (int_reg 2 u)) loc s" "inj_on loc {..<nat (int_reg 2 u)}"
  shows "\<exists>s' Q' c'. SysPipeRead H e u s = Some (Return u, s') \<and> current_process s' = Some q
    \<and> pcb_ok s' Q' \<and> Q' (PipeReaders p) = Some (map QueueNode (rs @ [q]))
    \<and> pcbs s' q = Some c' \<and> state c' = PROCESS_BLOCKED \<and> pipe_buffer c' = Some b \<and> kbufs s' b = None"
proof -
  define n where "n = nat (int_reg 2 u)"
  obtain c where c: "current_process s = Some q" "pcbs s q = Some c" "idle_state (state c)"
    using assms(5) by (auto simp: runs_def)
  define bs where "bs = map (e_kbuf_junk e) [0..<n]"
  define s0 where "s0 = s\<lparr>kbufs := (kbufs s)(b \<mapsto> bs)\<rparr>"
  have al: "alloc_kbuf e (int_reg 2 u) s = s0"
    using assms(6) nat_int_reg [OF assms(8)] by (simp add: alloc_kbuf_def s0_def bs_def n_def)
  have nb: "bufp (pcbs s) x \<noteq> Some b" if "x \<in> set rs \<union> set ws" for x
    using psysD(7) [OF assms(1) that] assms(7) by (auto simp: waiting_io_def bufp_def)
  have ps: "psys H s0 Q p pp rs ws" unfolding psys_def
  proof (intro conjI ballI)
    fix x assume "x \<in> set rs \<union> set ws"
    then show "waiting_io (pcbs s0) (kbufs s0) x"
      using psysD(7) [OF assms(1)] nb by (fastforce simp: waiting_io_def s0_def bufp_def)
  qed (use psysD [OF assms(1)] in \<open>simp_all add: s0_def pcb_ok_def\<close>)
  have cl: "caller_ok s0 q c b bs (int_reg 2 u) rs ws"
    using c nb assms(8) by (simp add: caller_ok_def s0_def bs_def n_def)
  have nm: "names_pipe H s0 (int_reg 0 u) p"
    using assms(4) unfolding names_pipe_def s0_def get_sync_cong .
  let ?c = "c\<lparr>waiting_pipe_id := int_reg 0 u, pipe_buffer := Some b, pipe_len := int_reg 2 u, state := PROCESS_BLOCKED\<rparr>"
  obtain s1 Q' h P where s1: "SyncReadPipe H (int_reg 0 u) (Some b) (int_reg 2 u) s0 = Some (PCB_BLOCKED, s1)"
    "psys H s1 Q' p pp (rs @ [q]) ws" "pcbs s1 = (pcbs s0)(q \<mapsto> ?c)" "kbufs s1 = kbufs s0" "s1 = s0\<lparr>lists := h, pcbs := P\<rparr>"
    using read_blocks [OF ps assms(2) cl nm assms(3)] hw_okD(1,2) [OF assms(9)] by auto
  have pl: "placed H (PROT_WRITE H) (regs u 1) (length bs) loc s1"
    using assms(10) by (simp add: s1(5) s0_def bs_def n_def)
  have "inj_on loc {..<length bs}" using assms(11) by (simp add: bs_def n_def)
  from store_bytes_placed [OF pl this]
  obtain m where m: "store_bytes H (regs u 1) bs s1 = Some (s1\<lparr>pmem := m\<rparr>)" by (elim exE conjE) (rule that)
  let ?s = "s1\<lparr>pmem := m, kbufs := (kbufs s1)(b := None)\<rparr>"
  have kb: "kbufs s1 b = Some bs" by (simp add: s1(4) s0_def)
  have "pipe_read_end H (regs u 1) (Some b) (int_reg 2 u) s1 = Some ?s"
    using kb m nat_int_reg [OF assms(8)]
    by (simp add: pipe_read_end_def kbuf_bytes_def free_kbuf_def bs_def n_def)
  then have "SysPipeRead H e u s = Some (Return u, ?s)"
    using s1(1) al assms(6) hw_okD(1) [OF assms(9)]
    by (simp add: SysPipeRead_def Let_def enum_state_def PCB_BLOCKED_def)
  moreover have "current_process s1 = Some q" using c(1) by (simp add: s1(5) s0_def)
  moreover have "pcb_ok ?s Q'" using psysD(1) [OF s1(2)] by (simp add: pcb_ok_def)
  ultimately show ?thesis using psysD(5) [OF s1(2)] s1(3)
    by (intro exI [of _ ?s] exI [of _ Q'] exI [of _ ?c]) simp
qed

text \<open>A pipe nobody waits for, and a process with two pages of its own.\<close>

definition pipe_kernel :: kernel where
  "pipe_kernel = (kernel_of (pipe_system False False []))\<lparr>ptbr1 := Some 10, page_tables := [10 \<mapsto> demo_table 8 [5, 6]]\<rparr>"

definition demo_args :: "u32 \<Rightarrow> u32 \<Rightarrow> u32 \<Rightarrow> user_context" where
  "demo_args a b c = \<lparr>uc_code = 0, uc_addr = 0, uc_pc = 0, uc_sp = 0, regs = (\<lambda>_. 0)(0 := a, 1 := b, 2 := c)\<rparr>"

lemma demo_args_simps [simp]:
  "regs (demo_args a b c) 0 = a" "regs (demo_args a b c) (Suc 0) = b" "regs (demo_args a b c) 2 = c"
  "int_reg 0 (demo_args a b c) = sint a" "int_reg 2 (demo_args a b c) = sint c"
  by (simp_all add: demo_args_def int_reg_def)

lemma pipe_kernel_ok:
  "psys demo_hw pipe_kernel (map_of (pipe_lists False False)) 20 (demo_pipe []) [] []"
  "names_pipe demo_hw pipe_kernel 0 20" "runs pipe_kernel 1" "kbufs pipe_kernel 50 = None"
  "placed demo_hw (PROT_WRITE demo_hw) 130 3 (\<lambda>k. (5, 2 + k)) pipe_kernel"
proof -
  note ps = pipe_system_ok [of "[]" False False, simplified]
  have "psys demo_hw (kernel_of (pipe_system False False [])) (map_of (pipe_lists False False)) 20 (demo_pipe []) [] []"
    using ps(1) by simp
  then show "psys demo_hw pipe_kernel (map_of (pipe_lists False False)) 20 (demo_pipe []) [] []"
    by (simp add: psys_def pipe_kernel_def pcb_ok_def)
  have "names_pipe demo_hw (kernel_of (pipe_system False False [])) 0 20" using ps(2) by simp
  then show "names_pipe demo_hw pipe_kernel 0 20"
    unfolding names_pipe_def pipe_kernel_def get_sync_cong .
  show "runs pipe_kernel 1" "kbufs pipe_kernel 50 = None"
    by (simp_all add: runs_def pipe_kernel_def pipe_system_def pipe_pcbs_def caller_pcb_def idle_state_def)
  show "placed demo_hw (PROT_WRITE demo_hw) 130 3 (\<lambda>k. (5, 2 + k)) pipe_kernel"
    unfolding placed_def
  proof (intro allI impI)
    fix k :: nat assume "k < 3"
    then have "k \<in> set [0, 1, 2]" by auto
    then show "translate demo_hw (PROT_WRITE demo_hw) (130 + of_nat k) pipe_kernel = Some (5, 2 + k)"
      by (auto simp: translate_def pt_get_def arr_get_def ADDR_TO_PAGE_NUM_def pipe_kernel_def demo_table_def rw_pte_def
          take_bit_eq_mod)
  qed
qed

lemma pipe_read_does_not_wait_witness:
  "\<exists>s'. SysPipeRead demo_hw demo_env (demo_args 0 130 3) pipe_kernel = Some (Return (demo_args 0 130 3), s')
     \<and> current_process s' = Some 1 \<and> map_option state (pcbs s' 1) = Some PROCESS_BLOCKED \<and> kbufs s' 50 = None"
proof -
  have c: "contents demo_hw (demo_pipe []) = []" by (rule demo_pipe_ok) simp
  have i: "inj_on (\<lambda>k::nat. (5::nat, 2 + k)) {..<3}" by (simp add: inj_on_def)
  have e: "e_kbuf demo_env = Some 50" by (simp add: demo_env_def)
  show ?thesis
    using pipe_read_does_not_wait [OF pipe_kernel_ok(1) c _ _ pipe_kernel_ok(3) e pipe_kernel_ok(4), of "demo_args 0 130 3" "\<lambda>k. (5, 2 + k)"]
      pipe_kernel_ok(2,5) i by fastforce
qed

end
