(* ===== verification/Brk_Props.thy ===== *)
theory Brk_Props
  imports Sched_Props
begin

text \<open>
  New pages in a page table, and the system call \<open>Brk\<close>.
\<close>

section \<open>Pages that get frames\<close>

text \<open>
  From table \<open>t\<close> and used frames \<open>U\<close> to \<open>t'\<close> and \<open>U'\<close>: the pages of \<open>N\<close> have got pairwise
  different frames that were free, readable and writable; nothing else has changed.
\<close>

definition newly_mapped :: "hw \<Rightarrow> nat set \<Rightarrow> pte list \<Rightarrow> pte list \<Rightarrow> nat set \<Rightarrow> nat set \<Rightarrow> bool" where
  "newly_mapped H N t t' U U' \<longleftrightarrow> length t' = length t \<and> (\<forall>j < length t. j \<notin> N \<longrightarrow> t' ! j = t ! j)
     \<and> (\<exists>g. inj_on g N \<and> g ` N \<inter> U = {} \<and> U' = U \<union> g ` N \<and> (\<forall>j \<in> N. j < length t \<and> t' ! j = rw_pte H (g j)))"

lemma newly_mapped_none [simp]: "newly_mapped H {} t t U U"
  by (simp add: newly_mapped_def)

lemma newly_mapped_step:
  assumes "newly_mapped H N (t[i := rw_pte H f]) t' (insert f U) U'" "i \<notin> N" "i < length t" "f \<notin> U"
  shows "newly_mapped H (insert i N) t t' U U'"
proof -
  obtain g where g: "inj_on g N" "g ` N \<inter> insert f U = {}" "U' = insert f U \<union> g ` N"
    "\<forall>j \<in> N. j < length t \<and> t' ! j = rw_pte H (g j)"
    using assms(1) unfolding newly_mapped_def length_list_update by (elim exE conjE) (rule that)
  let ?g = "g(i := f)"
  have same: "?g ` N = g ` N" using assms(2) by auto
  have im: "?g ` insert i N = insert f (g ` N)" unfolding image_insert same by simp
  have "inj_on ?g N" using g(1) assms(2) by (simp add: inj_on_def)
  then have "inj_on ?g (insert i N)" using assms(2) g(2) same by simp
  moreover have "?g ` insert i N \<inter> U = {}" "U' = U \<union> ?g ` insert i N" unfolding im using g(2,3) assms(4) by auto
  moreover have "\<forall>j \<in> insert i N. j < length t \<and> t' ! j = rw_pte H (?g j)"
    using g(4) assms(1-3) by (auto simp: newly_mapped_def)
  moreover have "length t' = length t" "\<forall>j < length t. j \<notin> insert i N \<longrightarrow> t' ! j = t ! j"
    using assms(1) by (auto simp: newly_mapped_def)
  ultimately show ?thesis unfolding newly_mapped_def by blast
qed

lemma pt_get_Table: "page_tables s p = Some t \<Longrightarrow> i < length t \<Longrightarrow> pt_get (Table p) (int i) s = Some (t ! i)"
  by (simp add: pt_get_def)

text \<open>An allocation for page \<open>i\<close> of table \<open>p\<close>, as the loops of \<open>Brk\<close> and of the loader make it.\<close>

lemma map_new_page:
  fixes s :: "'a mem_scheme"
  assumes "frames_inv H s" "used_frames H s \<noteq> {..<NUM_VPN H}" "page_tables s p = Some t" "i < length t" "ERROR H < 0"
  shows "\<exists>f s1. allocate_frame H s = Some (int f, s1) \<and> int f \<noteq> ERROR H \<and> f \<notin> used_frames H s \<and> f < NUM_VPN H
    \<and> pt_set (Table p) (int i) \<lparr>valid = True, prot = or (PROT_READ H) (PROT_WRITE H), pfn = word_of_int (int f)\<rparr> s1
      = Some (s\<lparr>frame_bitMap := (frame_bitMap s)[f := 1], page_tables := (page_tables s)(p \<mapsto> t[i := rw_pte H f])\<rparr>)
    \<and> used_frames H (s\<lparr>frame_bitMap := (frame_bitMap s)[f := 1], page_tables := (page_tables s)(p \<mapsto> t[i := rw_pte H f])\<rparr>)
      = insert f (used_frames H s)"
proof -
  obtain f where f: "allocate_frame H s = Some (int f, s\<lparr>frame_bitMap := (frame_bitMap s)[f := 1]\<rparr>)" "f < NUM_VPN H"
    "f \<notin> used_frames H s" using allocate_frame_free [OF assms(1,2)] by blast
  have "used_frames H (s\<lparr>frame_bitMap := (frame_bitMap s)[f := 1]\<rparr>) = insert f (used_frames H s)"
    using used_frames_set [OF assms(1) f(2), of 1] by simp
  moreover have "\<lparr>valid = True, prot = or (PROT_READ H) (PROT_WRITE H), pfn = word_of_int (int f)\<rparr> = rw_pte H f"
    by (simp add: rw_pte_def)
  ultimately show ?thesis using f assms(3-5)
    by (intro exI [of _ f] exI [of _ "s\<lparr>frame_bitMap := (frame_bitMap s)[f := 1]\<rparr>"])
       (simp add: pt_set_def used_frames_def)
qed

lemma frames_left:
  assumes "card (used_frames H s) < NUM_VPN H"
  shows "used_frames H s \<noteq> {..<NUM_VPN H}"
  using assms by (metis card_lessThan less_irrefl)

section \<open>Growing\<close>

definition unmapped :: "pte list \<Rightarrow> nat \<Rightarrow> nat \<Rightarrow> nat set" where
  "unmapped t i n = {j. i \<le> j \<and> j < n \<and> \<not> valid (t ! j)}"

lemma unmapped_finite [simp]: "finite (unmapped t i n)"
  by (simp add: unmapped_def)

lemma unmapped_next:
  "i < n \<Longrightarrow> unmapped t i n = (if valid (t ! i) then unmapped t (Suc i) n else insert i (unmapped t (Suc i) n))"
  by (auto simp: unmapped_def Suc_le_eq le_less)

lemma unmapped_upd: "unmapped (t[i := e]) (Suc i) n = unmapped t (Suc i) n"
  by (auto simp: unmapped_def)

lemma brk_grow_ok:
  fixes s :: "'a mem_scheme"
  assumes "frames_inv H s" "ERROR H < 0" "page_tables s p = Some t" "unat n \<le> length t"
    "card (used_frames H s) + card (unmapped t (unat i) (unat n)) \<le> NUM_VPN H"
  shows "\<exists>s' bm t'. brk_grow H (Some p) i n s = Some (True, s')
    \<and> s' = s\<lparr>frame_bitMap := bm, page_tables := (page_tables s)(p \<mapsto> t')\<rparr>
    \<and> newly_mapped H (unmapped t (unat i) (unat n)) t t' (used_frames H s) (used_frames H s')"
  using assms
proof (induction "unat n - unat i" arbitrary: i s t)
  case 0
  then have ni: "\<not> i < n" and e: "unmapped t (unat i) (unat n) = {}" by (auto simp: word_less_nat_alt unmapped_def)
  moreover have "brk_grow H (Some p) i n s = Some (True, s)"
    using ni by (subst brk_grow.simps) (simp only: if_False)
  moreover have "s = s\<lparr>frame_bitMap := frame_bitMap s, page_tables := (page_tables s)(p \<mapsto> t)\<rparr>"
    using 0(4) by (simp add: fun_upd_idem)
  moreover have "newly_mapped H (unmapped t (unat i) (unat n)) t t (used_frames H s) (used_frames H s)" unfolding e by simp
  ultimately show ?case by (intro exI [of _ s] exI [of _ "frame_bitMap s"] exI [of _ t] conjI)
next
  case (Suc k)
  have lt: "i < n" using Suc.hyps(2) by (simp add: word_less_nat_alt)
  then have ln: "unat i < unat n" by (simp add: word_less_nat_alt)
  have si: "unat (i + 1) = Suc (unat i)" by (rule unat_suc_below [OF lt])
  have k: "k = unat n - unat (i + 1)" using Suc.hyps(2) si by simp
  have il: "unat i < length t" using ln Suc.prems(4) by simp
  have get: "pt_get (Table p) (uint i) s = Some (t ! unat i)" unfolding uint_nat_eq by (rule pt_get_Table [OF Suc.prems(3) il])
  note un = unmapped_next [OF ln, of t]
  show ?case
  proof (cases "valid (t ! unat i)")
    case True
    then have e: "unmapped t (unat (i + 1)) (unat n) = unmapped t (unat i) (unat n)" using un si by simp
    have "brk_grow H (Some p) i n s = brk_grow H (Some p) (i + 1) n s"
      using lt get True by (simp add: brk_grow.simps [of H _ i n s])
    then show ?thesis using Suc.hyps(1) [OF k Suc.prems(1-4)] Suc.prems(5) e by simp
  next
    case False
    then have e: "unmapped t (unat i) (unat n) = insert (unat i) (unmapped t (unat (i + 1)) (unat n))" using un si by simp
    have ni: "unat i \<notin> unmapped t (unat (i + 1)) (unat n)" by (simp add: unmapped_def si)
    have c: "card (used_frames H s) + Suc (card (unmapped t (unat (i + 1)) (unat n))) \<le> NUM_VPN H"
      using Suc.prems(5) e ni by simp
    then have "used_frames H s \<noteq> {..<NUM_VPN H}" by (intro frames_left) simp
    then obtain f s1 where f: "allocate_frame H s = Some (int f, s1)" "int f \<noteq> ERROR H" "f \<notin> used_frames H s" "f < NUM_VPN H"
      "pt_set (Table p) (int (unat i)) \<lparr>valid = True, prot = or (PROT_READ H) (PROT_WRITE H), pfn = word_of_int (int f)\<rparr> s1
        = Some (s\<lparr>frame_bitMap := (frame_bitMap s)[f := 1], page_tables := (page_tables s)(p \<mapsto> t[unat i := rw_pte H f])\<rparr>)"
      "used_frames H (s\<lparr>frame_bitMap := (frame_bitMap s)[f := 1], page_tables := (page_tables s)(p \<mapsto> t[unat i := rw_pte H f])\<rparr>)
        = insert f (used_frames H s)"
      using map_new_page [OF Suc.prems(1) _ Suc.prems(3) il Suc.prems(2)] by blast
    define s2 where "s2 = s\<lparr>frame_bitMap := (frame_bitMap s)[f := 1], page_tables := (page_tables s)(p \<mapsto> t[unat i := rw_pte H f])\<rparr>"
    have st: "brk_grow H (Some p) i n s = brk_grow H (Some p) (i + 1) n s2"
      using lt get False f(1,2) f(5) [folded uint_nat_eq] by (simp add: brk_grow.simps [of H _ i n s] s2_def)
    have u2: "used_frames H s2 = insert f (used_frames H s)" using f(6) by (simp add: s2_def)
    have i2: "frames_inv H s2" using Suc.prems(1) by (simp add: frames_inv_def s2_def)
    have e2: "unmapped (t[unat i := rw_pte H f]) (unat (i + 1)) (unat n) = unmapped t (unat (i + 1)) (unat n)"
      by (simp add: si unmapped_upd)
    have "card (used_frames H s2) + card (unmapped (t[unat i := rw_pte H f]) (unat (i + 1)) (unat n)) \<le> NUM_VPN H"
      using c f(3) by (simp add: u2 e2 fp.finite_used)
    then obtain s' bm t' where r: "brk_grow H (Some p) (i + 1) n s2 = Some (True, s')"
      "s' = s2\<lparr>frame_bitMap := bm, page_tables := (page_tables s2)(p \<mapsto> t')\<rparr>"
      "newly_mapped H (unmapped t (unat (i + 1)) (unat n)) (t[unat i := rw_pte H f]) t' (used_frames H s2) (used_frames H s')"
      using Suc.hyps(1) [OF k i2 Suc.prems(2), of "t[unat i := rw_pte H f]"] Suc.prems(4) unfolding e2 by (auto simp: s2_def)
    have "newly_mapped H (unmapped t (unat i) (unat n)) t t' (used_frames H s) (used_frames H s')"
      unfolding e by (rule newly_mapped_step [OF r(3) [unfolded u2] ni il f(3)])
    then show ?thesis using st r(1,2) by (intro exI [of _ s'] exI [of _ bm] exI [of _ t']) (simp add: s2_def)
  qed
qed

section \<open>The system call\<close>

text \<open>The branches of \<open>Brk\<close>, by the pages of the new break, the old one and the stack pointer.\<close>

lemma SysBrk_run:
  assumes "current_process s = Some q" "pcbs s q = Some c" "region1_pt c = Some p"
    "new = drop_bit (PAGESHIFT H) (UP_TO_PAGE H (regs u 0)) - word_of_nat (MAX_PT_LEN H)"
    "old = drop_bit (PAGESHIFT H) (brk c)" "lim = drop_bit (PAGESHIFT H) (DOWN_TO_PAGE H (uc_sp (user_context c)))"
  shows "SysBrk H e u s = (if lim \<le> new then return_value (ERROR H) u s
     else if new = old then return_value 0 u s
     else if old < new then do {
       (done, s) \<leftarrow> brk_grow H (Some p) old new s;
       if done then return_value 0 u s else return_value (ERROR H) u s }
     else do { s \<leftarrow> brk_shrink H (Some p) (old - 1) new s; return_value 0 u s })"
  using assms(1-3) unfolding assms(4-6) SysBrk_def Let_def by (simp add: pcb_access)

text \<open>The loop for a lower break does nothing.\<close>

lemma brk_shrink_nothing:
  assumes "new < old"
  shows "brk_shrink H p (old - 1) new s = Some s"
proof -
  have "unat (old - 1) = unat old - 1" using assms by (intro unat_minus_one) auto
  then have "\<not> old - 1 < new" using assms by (simp add: word_less_nat_alt)
  then show ?thesis by (subst brk_shrink.simps) simp
qed

lemma newly_mapped_valid:
  assumes "newly_mapped H (unmapped t i n) t t' U U'" "n \<le> length t" "j < n" "i \<le> j"
  shows "valid (t' ! j)"
proof (cases "j \<in> unmapped t i n")
  case True
  then show ?thesis using assms(1) by (auto simp: newly_mapped_def rw_pte_def)
next
  case False
  then have "valid (t ! j)" using assms(3,4) by (simp add: unmapped_def)
  then show ?thesis using assms False by (simp add: newly_mapped_def)
qed

text \<open>
  C34: \<open>Brk\<close> compares the page of the requested break, counted from the start of Region 1, with
  the absolute page of the saved stack pointer. It answers \<open>ERROR\<close> exactly when the first is not
  below the second; so while the stack pointer is above the first page of Region 1 it refuses no
  break in Region 1, not even one above the stack. A break on or below the page of the recorded
  one returns 0 and changes nothing, so that no memory is ever given back. A higher one returns 0
  after every page up to it has been mapped, the pages that were not yet mapped to pairwise
  different free frames; the pages that were keep their frames, and the recorded break is still
  the old one. This is for a break up to the end of the table and with enough free frames.
\<close>

theorem brk_only_grows:
  assumes "hw_ok H" "current_process s = Some q" "pcbs s q = Some c" "region1_pt c = Some p" "page_tables s p = Some t"
    "frames_inv H s" "new = drop_bit (PAGESHIFT H) (UP_TO_PAGE H (regs u 0)) - word_of_nat (MAX_PT_LEN H)"
    "old = drop_bit (PAGESHIFT H) (brk c)" "lim = drop_bit (PAGESHIFT H) (DOWN_TO_PAGE H (uc_sp (user_context c)))"
    "unat new \<le> length t" "card (used_frames H s) + card (unmapped t (unat old) (unat new)) \<le> NUM_VPN H"
  shows "(length t = MAX_PT_LEN H \<and> MAX_PT_LEN H < unat lim \<longrightarrow> \<not> lim \<le> new) \<and>
    (if lim \<le> new then SysBrk H e u s = Some (Return (set_reg 0 (-1) u), s)
    else if new \<le> old then SysBrk H e u s = Some (Return (set_reg 0 0 u), s)
    else \<exists>s' bm t'. SysBrk H e u s = Some (Return (set_reg 0 0 u), s')
      \<and> s' = s\<lparr>frame_bitMap := bm, page_tables := (page_tables s)(p \<mapsto> t')\<rparr>
      \<and> newly_mapped H (unmapped t (unat old) (unat new)) t t' (used_frames H s) (used_frames H s')
      \<and> (\<forall>j < unat new. unat old \<le> j \<longrightarrow> valid (t' ! j)))"
proof (rule conjI)
  show "length t = MAX_PT_LEN H \<and> MAX_PT_LEN H < unat lim \<longrightarrow> \<not> lim \<le> new"
    using assms(10) by (simp add: word_le_nat_alt)
  have err: "ERROR H = -1" using hw_okD(1) [OF assms(1)] .
  note sys = SysBrk_run [OF assms(2-4,7-9), of e]
  show "if lim \<le> new then SysBrk H e u s = Some (Return (set_reg 0 (-1) u), s)
    else if new \<le> old then SysBrk H e u s = Some (Return (set_reg 0 0 u), s)
    else \<exists>s' bm t'. SysBrk H e u s = Some (Return (set_reg 0 0 u), s')
      \<and> s' = s\<lparr>frame_bitMap := bm, page_tables := (page_tables s)(p \<mapsto> t')\<rparr>
      \<and> newly_mapped H (unmapped t (unat old) (unat new)) t t' (used_frames H s) (used_frames H s')
      \<and> (\<forall>j < unat new. unat old \<le> j \<longrightarrow> valid (t' ! j))"
  proof (cases "lim \<le> new")
    case True
    then show ?thesis using sys err by (simp add: return_value_def)
  next
    case lim: False
    show ?thesis
    proof (cases "old < new")
      case True
      obtain s' bm t' where g: "brk_grow H (Some p) old new s = Some (True, s')"
        "s' = s\<lparr>frame_bitMap := bm, page_tables := (page_tables s)(p \<mapsto> t')\<rparr>"
        "newly_mapped H (unmapped t (unat old) (unat new)) t t' (used_frames H s) (used_frames H s')"
        using brk_grow_ok [OF assms(6) _ assms(5,10,11)] err by auto
      have "valid (t' ! j)" if "j < unat new" "unat old \<le> j" for j
        by (rule newly_mapped_valid [OF g(3) assms(10) that])
      moreover have "SysBrk H e u s = Some (Return (set_reg 0 0 u), s')"
        using sys lim True g(1) by (auto simp: return_value_def)
      ultimately show ?thesis using g(2,3) lim True by auto
    next
      case False
      have "brk_shrink H (Some p) (old - 1) new s = Some s" if "new \<noteq> old"
        by (rule brk_shrink_nothing) (use that False in simp)
      then show ?thesis using sys lim False by (auto simp: return_value_def)
    qed
  qed
qed

text \<open>
  A process with two pages, its break at page 2 and its stack pointer at 250, in the last page of
  Region 1 (pages 8 to 15): a break of 256, above the stack, is granted.
\<close>

definition brk_pcb :: pcb where
  "brk_pcb = blank_pcb\<lparr>pid := 1, state := PROCESS_RUNNING, brk := 32, region1_pt := Some 10,
     user_context := (demo_user 0)\<lparr>uc_sp := 250\<rparr>\<rparr>"

definition brk_kernel :: kernel where
  "brk_kernel = two_system\<lparr>frame_bitMap := replicate 9 1 @ replicate 7 0, pcbs := [1 \<mapsto> brk_pcb]\<rparr>"

lemma brk_kernel_ok:
  "current_process brk_kernel = Some 1" "pcbs brk_kernel 1 = Some brk_pcb" "region1_pt brk_pcb = Some 10"
  "page_tables brk_kernel 10 = Some (demo_table 8 [5, 6])" "frames_inv demo_hw brk_kernel"
  "card (used_frames demo_hw brk_kernel) + card (unmapped (demo_table 8 [5, 6]) 2 8) \<le> 16"
proof -
  have "frame_bitMap brk_kernel ! n = 0 \<longleftrightarrow> \<not> n < 9" if "n < 16" for n
    using that by (auto simp: brk_kernel_def nth_append)
  then have u: "used_frames demo_hw brk_kernel = {..<9}" by (auto simp: used_frames_def)
  have "unmapped (demo_table 8 [5, 6]) 2 8 \<subseteq> {2..<8}" by (auto simp: unmapped_def)
  then have "card (unmapped (demo_table 8 [5, 6]) 2 8) \<le> card {2..<8::nat}" by (intro card_mono) simp_all
  also have "card {2..<8::nat} = 6" by simp
  finally have "card (unmapped (demo_table 8 [5, 6]) 2 8) \<le> 6" .
  then show "card (used_frames demo_hw brk_kernel) + card (unmapped (demo_table 8 [5, 6]) 2 8) \<le> 16" using u by simp
qed (simp_all add: brk_kernel_def brk_pcb_def two_system_def frames_inv_def)

lemma brk_only_grows_witness:
  "\<exists>s' bm t'. SysBrk demo_hw demo_env (demo_user 256) brk_kernel = Some (Return (set_reg 0 0 (demo_user 256)), s')
     \<and> page_tables s' 10 = Some t' \<and> (\<forall>j < 8. 2 \<le> j \<longrightarrow> valid (t' ! j))"
proof -
  have r: "regs (demo_user 256) 0 = 256" "brk brk_pcb = 32" "uc_sp (user_context brk_pcb) = 250"
    by (simp_all add: demo_user_def brk_pcb_def)
  from brk_only_grows [OF demo_hw_ok brk_kernel_ok(1-5) refl refl refl, of "demo_user 256" demo_env] brk_kernel_ok(6)
  show ?thesis by (simp add: r demo_table_def) fastforce
qed

end
