(* ===== verification/Trap_Props.thy ===== *)
theory Trap_Props
  imports Brk_Props
begin

text \<open>
  The tables \<open>trap_init\<close> and \<open>syscalls_init\<close> build, and what a trap does through them.
\<close>

section \<open>The tables\<close>

definition call_index :: "hw \<Rightarrow> syscall \<Rightarrow> int" where
  "call_index H c = xor (YALNIX H c) (YALNIX_PREFIX H)"

text \<open>Different numbers, all within the table once the prefix is removed.\<close>

definition codes_ok :: "hw \<Rightarrow> bool" where
  "codes_ok H \<longleftrightarrow> inj (YALNIX H) \<and> (\<forall>c. 0 \<le> call_index H c \<and> call_index H c < 256)"

lemma xor_prefix_eq: "xor a p = xor b p \<longleftrightarrow> a = (b :: int)"
proof
  assume "xor a p = xor b p"
  then have "xor (xor a p) p = xor (xor b p) p" by simp
  then show "a = b" by (simp add: xor.assoc)
qed simp

lemma call_index_eq:
  assumes "codes_ok H"
  shows "nat (call_index H c) = nat (call_index H d) \<longleftrightarrow> c = d"
proof
  assume "nat (call_index H c) = nat (call_index H d)"
  then have "call_index H c = call_index H d" using assms by (simp add: codes_ok_def nat_eq_iff2)
  then have "YALNIX H c = YALNIX H d" by (simp only: xor_prefix_eq call_index_def)
  then show "c = d" using assms by (simp add: codes_ok_def inj_eq)
qed simp

lemma set_handlers_ok:
  assumes "codes_ok H" "length (syscall_handlers s) = 256" "distinct (map fst chs)"
  shows "\<exists>t. set_handlers H chs s = Some (s\<lparr>syscall_handlers := t\<rparr>) \<and> length t = 256
    \<and> (\<forall>c h. (c, h) \<in> set chs \<longrightarrow> t ! nat (call_index H c) = Some h)
    \<and> (\<forall>i. i \<notin> (\<lambda>c. nat (call_index H c)) ` fst ` set chs \<longrightarrow> t ! i = syscall_handlers s ! i)"
  using assms(2,3)
proof (induction chs arbitrary: s)
  case Nil
  then show ?case by (intro exI [of _ "syscall_handlers s"]) simp
next
  case (Cons ch chs)
  obtain c h where ch: "ch = (c, h)" by (cases ch)
  let ?t = "(syscall_handlers s)[nat (call_index H c) := Some h]"
  have i: "0 \<le> call_index H c" "call_index H c < 256" using assms(1) by (simp_all add: codes_ok_def)
  then have "arr_set (syscall_handlers s) (call_index H c) (Some h) = Some ?t"
    unfolding arr_set_def Cons.prems(1) by simp
  then have set: "set_handler H c h s = Some (s\<lparr>syscall_handlers := ?t\<rparr>)"
    unfolding set_handler_def call_index_def [symmetric] by simp
  obtain t where t: "set_handlers H chs (s\<lparr>syscall_handlers := ?t\<rparr>) = Some (s\<lparr>syscall_handlers := t\<rparr>)" "length t = 256"
    "\<forall>c h. (c, h) \<in> set chs \<longrightarrow> t ! nat (call_index H c) = Some h"
    "\<forall>i. i \<notin> (\<lambda>c. nat (call_index H c)) ` fst ` set chs \<longrightarrow> t ! i = ?t ! i"
    using Cons.IH [of "s\<lparr>syscall_handlers := ?t\<rparr>"] Cons.prems by auto
  have "nat (call_index H c) \<notin> (\<lambda>c. nat (call_index H c)) ` fst ` set chs"
    using Cons.prems(2) call_index_eq [OF assms(1)] by (auto simp: ch)
  then have hd: "t ! nat (call_index H c) = Some h" using t(4) i Cons.prems(1) by simp
  have "set_handlers H (ch # chs) s = Some (s\<lparr>syscall_handlers := t\<rparr>)" using set t(1) by (simp add: ch)
  moreover have "t ! nat (call_index H d) = Some k" if "(d, k) \<in> set (ch # chs)" for d k
    using that hd t(3) by (auto simp: ch)
  moreover have "t ! j = syscall_handlers s ! j" if "j \<notin> (\<lambda>c. nat (call_index H c)) ` fst ` set (ch # chs)" for j
    using that t(4) by (simp add: ch)
  ultimately show ?case using t(2) by (intro exI [of _ t] conjI allI impI) blast+
qed

lemma set_trap_handler_ok:
  assumes "TRAP H t < length (trap_handlers s)"
  shows "set_trap_handler H t h s = Some (s\<lparr>trap_handlers := (trap_handlers s)[TRAP H t := Some h]\<rparr>)"
  using assms by (simp add: set_trap_handler_def)

lemma trap_handlers_WriteRegister [simp]:
  "trap_handlers (WriteRegister r s) = trap_handlers s" "syscall_handlers (WriteRegister r s) = syscall_handlers s"
  by (simp_all add: WriteRegister_def Let_def split: reg_write.splits)

fun handler_of_trap :: "trap \<Rightarrow> trap_handler" where
  "handler_of_trap TRAP_KERNEL = T_kernel"
| "handler_of_trap TRAP_CLOCK = T_clock"
| "handler_of_trap TRAP_ILLEGAL = T_illegal"
| "handler_of_trap TRAP_MEMORY = T_memory"
| "handler_of_trap TRAP_MATH = T_math"
| "handler_of_trap TRAP_TTY_RECEIVE = T_receive"
| "handler_of_trap TRAP_TTY_TRANSMIT = T_transmit"

lemma trap_init_ok:
  assumes "inj (TRAP H)" "\<forall>t. TRAP H t < length (trap_handlers s)"
  shows "\<exists>s'. trap_init H s = Some s' \<and> syscall_handlers s' = syscall_handlers s
    \<and> length (trap_handlers s') = length (trap_handlers s) \<and> (\<forall>t. trap_handlers s' ! TRAP H t = Some (handler_of_trap t))"
proof -
  have eq: "TRAP H a = TRAP H b \<longleftrightarrow> a = b" for a b using assms(1) by (simp add: inj_eq)
  obtain s' where s': "trap_init H s = Some s'" "syscall_handlers s' = syscall_handlers s"
    "trap_handlers s' = (trap_handlers s)[TRAP H TRAP_KERNEL := Some T_kernel, TRAP H TRAP_CLOCK := Some T_clock,
       TRAP H TRAP_ILLEGAL := Some T_illegal, TRAP H TRAP_MEMORY := Some T_memory, TRAP H TRAP_MATH := Some T_math,
       TRAP H TRAP_TTY_RECEIVE := Some T_receive, TRAP H TRAP_TTY_TRANSMIT := Some T_transmit]"
    using assms(2) by (simp add: trap_init_def set_trap_handler_ok)
  have "trap_handlers s' ! TRAP H t = Some (handler_of_trap t)" for t
    unfolding s'(3) using assms(2) by (cases t) (simp_all add: nth_list_update eq)
  then show ?thesis using s' by (intro exI [of _ s']) simp
qed

section \<open>Dispatch\<close>

text \<open>
  C33: From the moment the two tables are set up, a trap runs the handler written for it and a
  system call the handler of its number; a number that belongs to none of the calls of the
  table is answered with \<open>ERROR\<close>, and nothing else happens. This holds as long as nobody
  writes to the tables.
\<close>

theorem traps_and_calls_dispatched:
  assumes "inj (TRAP H)" "\<forall>t. TRAP H t < length (trap_handlers s)" "codes_ok H" "syscall_handlers s = replicate 256 None"
  shows "\<exists>s1 s2. trap_init H s = Some s1 \<and> syscalls_init H s1 = Some s2
    \<and> (\<forall>k e u t. trap_handlers k = trap_handlers s2 \<longrightarrow>
        take_trap H e (TRAP H t) u k = complete H (e_uctxt e) (call_trap_handler (handler_of_trap t) H e u k))
    \<and> (\<forall>k e u. syscall_handlers k = syscall_handlers s2 \<longrightarrow>
        (\<forall>(c, h) \<in> set syscall_table. uc_code u = YALNIX H c \<longrightarrow> kernel_handler H e u k = call_handler h H e u k)
        \<and> ((\<forall>c \<in> fst ` set syscall_table. uc_code u \<noteq> YALNIX H c) \<longrightarrow>
            kernel_handler H e u k = Some (Return (set_reg 0 (word_of_int (ERROR H)) u), k)))"
proof -
  obtain s1 where s1: "trap_init H s = Some s1" "syscall_handlers s1 = syscall_handlers s"
    "length (trap_handlers s1) = length (trap_handlers s)" "\<forall>t. trap_handlers s1 ! TRAP H t = Some (handler_of_trap t)"
    using trap_init_ok [OF assms(1,2)] by blast
  obtain t where t: "set_handlers H syscall_table s1 = Some (s1\<lparr>syscall_handlers := t\<rparr>)" "length t = 256"
    "\<forall>c h. (c, h) \<in> set syscall_table \<longrightarrow> t ! nat (call_index H c) = Some h"
    "\<forall>i. i \<notin> (\<lambda>c. nat (call_index H c)) ` fst ` set syscall_table \<longrightarrow> t ! i = syscall_handlers s1 ! i"
    using set_handlers_ok [OF assms(3), of s1 syscall_table] assms(4) s1(2)
    by (auto simp: syscall_table_def)
  have trap: "take_trap H e (TRAP H tr) u k = complete H (e_uctxt e) (call_trap_handler (handler_of_trap tr) H e u k)"
    if "trap_handlers k = trap_handlers s1" for k e u tr
    using that s1(3,4) assms(2) by (simp add: take_trap_def)
  have call: "kernel_handler H e u k = call_handler h H e u k"
    if "syscall_handlers k = t" "(c, h) \<in> set syscall_table" "uc_code u = YALNIX H c" for k e u c h
  proof -
    have "0 \<le> call_index H c" "call_index H c < 256" using assms(3) by (simp_all add: codes_ok_def)
    then show ?thesis using that t(2,3) by (simp add: kernel_handler_def arr_get_def call_index_def [symmetric])
  qed
  have other: "kernel_handler H e u k = Some (Return (set_reg 0 (word_of_int (ERROR H)) u), k)"
    if k: "syscall_handlers k = t" and u: "\<forall>c \<in> fst ` set syscall_table. uc_code u \<noteq> YALNIX H c" for k e u
  proof -
    define i where "i = xor (uc_code u) (YALNIX_PREFIX H)"
    show ?thesis
    proof (cases "0 \<le> i \<and> i < 256")
    case True
    have "nat i \<notin> (\<lambda>c. nat (call_index H c)) ` fst ` set syscall_table"
    proof
      assume "nat i \<in> (\<lambda>c. nat (call_index H c)) ` fst ` set syscall_table"
      then obtain c where c: "c \<in> fst ` set syscall_table" "nat i = nat (call_index H c)" by auto
      then have "i = call_index H c" using True assms(3) by (simp add: codes_ok_def nat_eq_iff2)
      then show False using u c(1) by (simp only: xor_prefix_eq call_index_def i_def)
    qed
    then have "t ! nat i = syscall_handlers s1 ! nat i" using t(4) by blast
    also have "\<dots> = None" unfolding s1(2) assms(4) by (rule nth_replicate) (use True in linarith)
    finally have "arr_get t i = Some None" using True t(2) by (simp add: arr_get_def)
    then show ?thesis using True k unfolding kernel_handler_def Let_def i_def [symmetric] by (simp add: return_value_def)
  next
    case False
    show ?thesis unfolding kernel_handler_def Let_def i_def [symmetric] if_not_P [OF False] return_value_def by simp
    qed
  qed
  show ?thesis
    by (intro exI [of _ s1] exI [of _ "s1\<lparr>syscall_handlers := t\<rparr>"] conjI allI impI s1(1) trap)
       (use t(1) call other in \<open>auto simp: syscalls_init_def\<close>)
qed

lemma demo_codes_ok: "codes_ok demo_hw" "inj (TRAP demo_hw)" "TRAP demo_hw t < 8"
proof -
  have "demo_code c = demo_code d \<Longrightarrow> c = d" for c d by (cases c; cases d) (simp_all add: demo_code_def)
  then have "inj (YALNIX demo_hw)" by (simp add: inj_def)
  moreover have "0 \<le> call_index demo_hw c \<and> call_index demo_hw c < 256" for c by (cases c) (simp_all add: demo_code_def call_index_def)
  ultimately show "codes_ok demo_hw" by (simp add: codes_ok_def)
  have "demo_trap a = demo_trap b \<Longrightarrow> a = b" for a b by (cases a; cases b) (simp_all add: demo_trap_def)
  then show "inj (TRAP demo_hw)" by (simp add: inj_def)
  show "TRAP demo_hw t < 8" by (cases t) (simp_all add: demo_trap_def)
qed

lemma traps_and_calls_dispatched_witness:
  "\<exists>s1 s2. trap_init demo_hw two_system = Some s1 \<and> syscalls_init demo_hw s1 = Some s2
     \<and> (\<forall>e. kernel_handler demo_hw e ((demo_user 3)\<lparr>uc_code := 263\<rparr>) s2 = SysDelay demo_hw e ((demo_user 3)\<lparr>uc_code := 263\<rparr>) s2)"
proof -
  have t: "trap_handlers two_system = replicate 8 None" "syscall_handlers two_system = replicate 256 None"
    by (simp_all add: two_system_def)
  have "\<forall>t. TRAP demo_hw t < length (trap_handlers two_system)" using demo_codes_ok(3) t(1) by simp
  from traps_and_calls_dispatched [OF demo_codes_ok(2) this demo_codes_ok(1) t(2)]
  obtain s1 s2 where s: "trap_init demo_hw two_system = Some s1" "syscalls_init demo_hw s1 = Some s2"
    "\<forall>e u. \<forall>(c, h) \<in> set syscall_table. uc_code u = YALNIX demo_hw c \<longrightarrow> kernel_handler demo_hw e u s2 = call_handler h demo_hw e u s2"
    by blast
  have "(YALNIX_DELAY, H_Delay) \<in> set syscall_table" by (simp add: syscall_table_def)
  then have "kernel_handler demo_hw e ((demo_user 3)\<lparr>uc_code := 263\<rparr>) s2 = SysDelay demo_hw e ((demo_user 3)\<lparr>uc_code := 263\<rparr>) s2" for e
    using bspec [OF spec [OF spec [OF s(3), of e], of "(demo_user 3)\<lparr>uc_code := 263\<rparr>"], of "(YALNIX_DELAY, H_Delay)"]
    by (simp add: demo_code_def)
  then show ?thesis using s(1,2) by blast
qed

section \<open>Memory traps\<close>

lemma sint_small: "unat (a :: u32) < 2 ^ 31 \<Longrightarrow> sint a = int (unat a)"
proof -
  assume "unat a < 2 ^ 31"
  then have "int (unat a) < int (2 ^ 31)" by (simp only: of_nat_less_iff)
  then have "int (unat a) < 2 ^ 31" by simp
  moreover have "- (2 ^ 31) \<le> uint a" by (rule order_trans [OF _ uint_ge_0]) simp
  ultimately have "signed_take_bit 31 (uint a) = uint a" by (intro signed_take_bit_int_eq_self) simp_all
  then show "sint a = int (unat a)" by (simp add: sint_uint)
qed

lemma print_pte_ok:
  assumes "unat (a :: u32) < MAX_PT_LEN H * 2 ^ PAGESHIFT H" "unat a < 2 ^ 31"
    "\<forall>j < MAX_PT_LEN H. pt_get b (int j) s \<noteq> None"
  shows "print_pte H b (sint a div 2 ^ PAGESHIFT H) s = Some ()"
proof -
  define j where "j = unat a div 2 ^ PAGESHIFT H"
  have j: "sint a div 2 ^ PAGESHIFT H = int j" unfolding sint_small [OF assms(2)] j_def by (simp add: zdiv_int)
  have "j < MAX_PT_LEN H" unfolding j_def using assms(1) by (simp add: less_mult_imp_div_less)
  then obtain e where "pt_get b (int j) s = Some e" using assms(3) by blast
  then show ?thesis by (simp add: print_pte_def j)
qed

text \<open>
  A memory trap is only printed. Whatever the address, the handler returns to the very
  same user context and the kernel state is the same: the process is neither terminated nor
  is its stack grown, so that it takes the same trap again and again.
\<close>

lemma memory_trap_ignored:
  assumes "unat (VMEM_REGION_SIZE H) = MAX_PT_LEN H * 2 ^ PAGESHIFT H" "unat (VMEM_REGION_SIZE H) < 2 ^ 31"
    "VMEM_REGION_SIZE H \<noteq> 0" "VMEM_1_BASE H = VMEM_REGION_SIZE H" "length (region0_pt s) = MAX_PT_LEN H"
    "current_process s = Some q" "pcbs s q = Some c" "region1_pt c = Some p" "page_tables s p = Some t" "length t = MAX_PT_LEN H"
  shows "memory_handler H e u s = Some (Return u, s)"
proof -
  define a where "a = uc_addr u"
  define r where "r = a div VMEM_REGION_SIZE H"
  have dv: "unat r = unat a div unat (VMEM_REGION_SIZE H)" unfolding r_def by (rule unat_div_distrib)
  have nz: "unat (VMEM_REGION_SIZE H) \<noteq> 0" using assms(3) by (simp add: unat_eq_zero)
  have zero: "print_pte H Region0 (sint a div 2 ^ PAGESHIFT H) s = Some ()" if "r = 0"
  proof (rule print_pte_ok)
    have "unat a div unat (VMEM_REGION_SIZE H) = 0" using dv that by simp
    then have lt: "unat a < unat (VMEM_REGION_SIZE H)" using nz by (simp add: div_eq_0_iff)
    then show "unat a < MAX_PT_LEN H * 2 ^ PAGESHIFT H" "unat a < 2 ^ 31" using assms(1,2) by simp_all
    show "\<forall>j < MAX_PT_LEN H. pt_get Region0 (int j) s \<noteq> None" using assms(5) by (simp add: pt_get_Region0)
  qed
  have one: "print_pte H (Table p) (sint (a - VMEM_1_BASE H) div 2 ^ PAGESHIFT H) s = Some ()" if "r = 1"
  proof (rule print_pte_ok)
    have d: "unat a div unat (VMEM_REGION_SIZE H) = 1" using dv that by simp
    then have ge: "unat (VMEM_REGION_SIZE H) \<le> unat a" using nz by (metis div_less not_le zero_neq_one)
    have "unat (a - VMEM_1_BASE H) = unat a - unat (VMEM_REGION_SIZE H)"
      using ge assms(4) by (simp add: unat_sub word_le_nat_alt)
    also have "\<dots> < unat (VMEM_REGION_SIZE H)"
    proof -
      have "unat a mod unat (VMEM_REGION_SIZE H) < unat (VMEM_REGION_SIZE H)" using nz by simp
      moreover have "1 * unat (VMEM_REGION_SIZE H) + unat a mod unat (VMEM_REGION_SIZE H) = unat a"
        using div_mult_mod_eq [of "unat a" "unat (VMEM_REGION_SIZE H)"] unfolding d .
      ultimately show ?thesis by linarith
    qed
    finally have lt: "unat (a - VMEM_1_BASE H) < unat (VMEM_REGION_SIZE H)" .
    then show "unat (a - VMEM_1_BASE H) < MAX_PT_LEN H * 2 ^ PAGESHIFT H" "unat (a - VMEM_1_BASE H) < 2 ^ 31"
      using assms(1,2) by simp_all
    show "\<forall>j < MAX_PT_LEN H. pt_get (Table p) (int j) s \<noteq> None" using assms(9,10) by (simp add: pt_get_Table)
  qed
  show ?thesis
    unfolding memory_handler_def Let_def a_def [symmetric] r_def [symmetric]
    using zero one assms(3,6-8) by (simp add: pcb_access)
qed

lemma memory_trap_ignored_demo:
  "memory_handler demo_hw demo_env ((demo_user 0)\<lparr>uc_addr := 250\<rparr>) brk_kernel = Some (Return ((demo_user 0)\<lparr>uc_addr := 250\<rparr>), brk_kernel)"
  by (rule memory_trap_ignored [OF _ _ _ _ _ brk_kernel_ok(1-4)])
     (simp_all add: brk_kernel_def two_system_def demo_table_def)

end
