(* ===== verification/Fork_Props.thy ===== *)
theory Fork_Props
  imports Brk_Props
begin

text \<open>
  \<open>Fork\<close> copies the memory of the parent: the temporary mapping, the copy of one page and the
  loop over the page table.
\<close>

section \<open>The layout of the address space\<close>

text \<open>
  Region 1 follows Region 0 and both have as many pages as \<open>CopyPageTable\<close> assumes; the kernel
  stack starts on page \<open>kb\<close> of Region 0, with a page below it for the temporary mapping.
\<close>

definition regions_ok :: "hw \<Rightarrow> nat \<Rightarrow> bool" where
  "regions_ok H kb \<longleftrightarrow> hw_ok H \<and> unat (VMEM_1_BASE H) = NUM_PAGES_REGION1 H * 2 ^ PAGESHIFT H
     \<and> unat (VMEM_1_LIMIT H) = 2 * NUM_PAGES_REGION1 H * 2 ^ PAGESHIFT H
     \<and> unat (KERNEL_STACK_BASE H) = kb * 2 ^ PAGESHIFT H \<and> 0 < kb \<and> kb \<le> NUM_PAGES_REGION1 H"

lemma demo_regions: "regions_ok demo_hw 6" "NUM_PAGES_REGION1 demo_hw = 8"
proof -
  show n: "NUM_PAGES_REGION1 demo_hw = 8" by (simp add: NUM_PAGES_REGION1_def)
  show "regions_ok demo_hw 6" unfolding regions_ok_def n by simp
qed

lemma page_of_addr:
  assumes "unat (x :: u32) = q * 2 ^ n + k" "k < 2 ^ n"
  shows "uint (drop_bit n x) = int q" "unat (take_bit n x) = k"
proof -
  have "unat (drop_bit n x) = q" unfolding unat_drop_bit_eq assms(1) using assms(2) by (simp add: drop_bit_eq_div)
  then show "uint (drop_bit n x) = int q" unfolding uint_nat_eq by simp
  show "unat (take_bit n x) = k" unfolding unsigned_take_bit_eq assms(1) using assms(2) by (simp add: take_bit_eq_mod)
qed

text \<open>Byte \<open>k\<close> of page \<open>i\<close> of Region 1.\<close>

lemma translate_region1:
  assumes H: "regions_ok H kb" and a: "unat a = (i + NUM_PAGES_REGION1 H) * 2 ^ PAGESHIFT H" and i: "i < NUM_PAGES_REGION1 H"
    and k: "k < 2 ^ PAGESHIFT H"
    and p: "ptbr1 s = Some p" "page_tables s p = Some t" "i < length t" "valid (t ! i)" "and (prot (t ! i)) need = need"
  shows "translate H need (a + of_nat k) s = Some (unat (pfn (t ! i)), k)"
proof -
  let ?N = "NUM_PAGES_REGION1 H" and ?P = "2 ^ PAGESHIFT H :: nat" and ?x = "a + of_nat k"
  have lim: "unat (VMEM_1_LIMIT H) = (?N + ?N) * ?P" "unat (VMEM_1_BASE H) = ?N * ?P" using H by (simp_all add: regions_ok_def)
  have "Suc i * ?P \<le> ?N * ?P" using i by (intro mult_le_mono1) simp
  then have ik: "i * ?P + k < ?N * ?P" using k by simp
  then have "unat a + k < unat (VMEM_1_LIMIT H)" unfolding a lim by (simp add: add_mult_distrib)
  then have x: "unat ?x = (i + ?N) * ?P + k" using unat_plus_small [of a k] unat_limit [of "VMEM_1_LIMIT H"] a by simp
  have ge: "\<not> ?x < VMEM_1_BASE H" and lt: "?x < VMEM_1_LIMIT H"
    using x lim ik by (simp_all add: word_less_nat_alt add_mult_distrib)
  have "unat (?x - VMEM_1_BASE H) = unat ?x - unat (VMEM_1_BASE H)" using ge by (intro unat_sub) simp
  then have r: "unat (?x - VMEM_1_BASE H) = i * ?P + k" using x lim by (simp add: add_mult_distrib)
  have "pt_get (Table p) (uint (drop_bit (PAGESHIFT H) (?x - VMEM_1_BASE H))) s = Some (t ! i)"
    unfolding page_of_addr(1) [OF r k] by (rule pt_get_Table [OF p(2,3)])
  then show ?thesis
    using ge lt p(1,4,5) page_of_addr(2) [OF x k] by (simp add: translate_def ADDR_TO_PAGE_NUM_def)
qed

text \<open>Byte \<open>k\<close> of the temporary mapping.\<close>

lemma temp_mapping_page:
  assumes "regions_ok H kb"
  shows "unat (TEMP_MAPPING_VADDR H) = (kb - 1) * 2 ^ PAGESHIFT H"
    "uint (ADDR_TO_PAGE_NUM H (TEMP_MAPPING_VADDR H)) = int (kb - 1)"
proof -
  let ?P = "2 ^ PAGESHIFT H :: nat"
  have h: "unat (KERNEL_STACK_BASE H) = kb * ?P" "0 < kb" "PAGESIZE H = 2 ^ PAGESHIFT H" "PAGESHIFT H < 32"
    using assms by (auto simp: regions_ok_def dest: hw_okD(3,4))
  have "?P < 2 ^ 32" using h(4) by (rule power_strict_increasing) simp
  then have ps: "unat (PAGESIZE H) = ?P" unfolding h(3) by (rule unat_power_small)
  have "?P \<le> kb * ?P" using h(2) by simp
  then have "unat (TEMP_MAPPING_VADDR H) = kb * ?P - ?P"
    unfolding TEMP_MAPPING_VADDR_def using h(1) ps by (subst unat_sub) (simp_all add: word_le_nat_alt)
  then show t: "unat (TEMP_MAPPING_VADDR H) = (kb - 1) * ?P" by (simp add: diff_mult_distrib)
  have "unat (TEMP_MAPPING_VADDR H) = (kb - 1) * ?P + 0" using t by simp
  from page_of_addr(1) [OF this] show "uint (ADDR_TO_PAGE_NUM H (TEMP_MAPPING_VADDR H)) = int (kb - 1)"
    by (simp add: ADDR_TO_PAGE_NUM_def)
qed

lemma translate_region0_eq:
  assumes H: "regions_ok H kb" and a: "unat a = j * 2 ^ PAGESHIFT H" and j: "j < NUM_PAGES_REGION1 H" "j < length (region0_pt s)"
    and k: "k < 2 ^ PAGESHIFT H"
  shows "translate H need (a + of_nat k) s = (if valid (region0_pt s ! j) \<and> and (prot (region0_pt s ! j)) need = need
    then Some (unat (pfn (region0_pt s ! j)), k) else None)"
proof -
  let ?P = "2 ^ PAGESHIFT H :: nat" and ?x = "a + of_nat k"
  have base: "unat (VMEM_1_BASE H) = NUM_PAGES_REGION1 H * ?P" using H by (simp add: regions_ok_def)
  have "Suc j * ?P \<le> NUM_PAGES_REGION1 H * ?P" using j(1) by (intro mult_le_mono1) simp
  then have lt: "j * ?P + k < unat (VMEM_1_BASE H)" using k base by simp
  have "unat ?x = unat a + k" by (rule unat_plus_small) (use lt a unat_limit [of "VMEM_1_BASE H"] in simp)
  then have x: "unat ?x = j * ?P + k" using a by simp
  have "?x < VMEM_1_BASE H" using x lt by (simp add: word_less_nat_alt)
  moreover have "pt_get Region0 (uint (drop_bit (PAGESHIFT H) ?x)) s = Some (region0_pt s ! j)"
    unfolding page_of_addr(1) [OF x k] using pt_get_Region0 [of j s] j(2) by simp
  ultimately show ?thesis using page_of_addr(2) [OF x k] by (auto simp: translate_def ADDR_TO_PAGE_NUM_def guard_def)
qed

lemma translate_region0:
  assumes "regions_ok H kb" "unat a = j * 2 ^ PAGESHIFT H" "j < NUM_PAGES_REGION1 H" "j < length (region0_pt s)"
    "k < 2 ^ PAGESHIFT H" "valid (region0_pt s ! j)" "and (prot (region0_pt s ! j)) need = need"
  shows "translate H need (a + of_nat k) s = Some (unat (pfn (region0_pt s ! j)), k)"
  using translate_region0_eq [OF assms(1-5)] assms(6,7) by simp

lemma translate_temp:
  assumes H: "regions_ok H kb" and k: "k < 2 ^ PAGESHIFT H" and l: "kb \<le> length (region0_pt s)"
    and e: "region0_pt s ! (kb - 1) = rw_pte H f" and f: "f < 2 ^ 24"
  shows "translate H (PROT_WRITE H) (TEMP_MAPPING_VADDR H + of_nat k) s = Some (f, k)"
proof -
  have kb: "kb - 1 < NUM_PAGES_REGION1 H" "kb - 1 < length (region0_pt s)" using H l by (auto simp: regions_ok_def)
  have "and (prot (rw_pte H f)) (PROT_WRITE H) = PROT_WRITE H" by (auto simp: rw_pte_def bit_eq_iff bit_simps)
  moreover have "valid (rw_pte H f)" by (simp add: rw_pte_def)
  ultimately have "translate H (PROT_WRITE H) (TEMP_MAPPING_VADDR H + of_nat k) s = Some (unat (pfn (rw_pte H f)), k)"
    using translate_region0 [OF H temp_mapping_page(1) [OF H] kb k] unfolding e by blast
  moreover have "unat (pfn (rw_pte H f)) = f" using f by (simp add: rw_pte_def unsigned_of_nat take_bit_nat_eq_self)
  ultimately show ?thesis by simp
qed

section \<open>One page\<close>

text \<open>The contents of memory after page frame \<open>g\<close> has been copied into frame \<open>f\<close>.\<close>

definition copied_into :: "hw \<Rightarrow> nat \<Rightarrow> nat \<Rightarrow> (nat \<Rightarrow> nat \<Rightarrow> u8) \<Rightarrow> nat \<Rightarrow> nat \<Rightarrow> u8" where
  "copied_into H f g m = m(f := (\<lambda>k. if k < 2 ^ PAGESHIFT H then m g k else m f k))"

lemma WriteRegister_flush: "WriteRegister (W_TLB_FLUSH a) s = s\<lparr>reg_log := reg_log s @ [W_TLB_FLUSH a]\<rparr>"
  by (simp add: WriteRegister_def Let_def)

text \<open>What the temporary mapping leaves in the Region 0 table.\<close>

abbreviation unmapped_temp :: "hw \<Rightarrow> nat \<Rightarrow> nat \<Rightarrow> pte list \<Rightarrow> pte list" where
  "unmapped_temp H kb f t \<equiv> t[kb - 1 := (rw_pte H f)\<lparr>valid := False\<rparr>]"

lemma copy_page_run:
  assumes H: "regions_ok H kb" and r0: "kb \<le> length (region0_pt s)" and f: "f < 2 ^ 24" "f \<noteq> g"
    and src: "\<And>k. k < 2 ^ PAGESHIFT H \<Longrightarrow>
       translate H (PROT_READ H) (a + of_nat k) (s\<lparr>region0_pt := (region0_pt s)[kb - 1 := rw_pte H f]\<rparr>) = Some (g, k)"
  shows "copy_page_to H (int f) a s = Some (s\<lparr>region0_pt := unmapped_temp H kb f (region0_pt s),
    pmem := copied_into H f g (pmem s), reg_log := reg_log s @ [W_TLB_FLUSH (TEMP_MAPPING_VADDR H)]\<rparr>)"
proof -
  let ?P = "2 ^ PAGESHIFT H :: nat" and ?d = "TEMP_MAPPING_VADDR H"
  let ?e = "\<lparr>valid = True, prot = or (PROT_READ H) (PROT_WRITE H), pfn = word_of_int (int f)\<rparr>"
  let ?t0 = "(region0_pt s)[kb - 1 := rw_pte H f]"
  have hw: "PAGESHIFT H < 32" "PAGESIZE H = 2 ^ PAGESHIFT H" using H by (auto simp: regions_ok_def dest: hw_okD(3,4))
  have "?P < 2 ^ 32" using hw(1) by (rule power_strict_increasing) simp
  then have ps: "unat (PAGESIZE H) = ?P" unfolding hw(2) by (rule unat_power_small)
  have e: "?e = rw_pte H f" by (simp add: rw_pte_def)
  have kl: "kb - 1 < length (region0_pt s)" using r0 H by (auto simp: regions_ok_def)
  obtain s1 where s1: "setup_temp_mapping H (int f) s = Some s1"
    "s1 = s\<lparr>region0_pt := ?t0, reg_log := reg_log s @ [W_TLB_FLUSH ?d]\<rparr>"
    unfolding setup_temp_mapping_def temp_mapping_page(2) [OF H] Let_def e
    using pt_set_Region0 [OF kl] by (simp add: WriteRegister_flush)
  have tr: "translate H need x s1 = translate H need x (s\<lparr>region0_pt := ?t0\<rparr>)" for need x
    unfolding s1(2) by (simp add: translate_def pt_get_def split: pt_base.split)
  have pm: "pmem s1 = pmem s" unfolding s1(2) by simp
  have "memcpy H ?d a ?P s1 = Some (s1\<lparr>pmem := (pmem s1)
      (f := (\<lambda>k. if 0 \<le> k \<and> k < 0 + ?P then pmem s1 g k else pmem s1 f k))\<rparr>)"
  proof (rule memcpy_run)
    fix k assume k: "k < ?P"
    show "translate H (PROT_WRITE H) (?d + of_nat k) s1 = Some (f, 0 + k)"
      unfolding tr using translate_temp [OF H k, of "s\<lparr>region0_pt := ?t0\<rparr>" f] r0 kl f(1) by simp
    show "translate H (PROT_READ H) (a + of_nat k) s1 = Some (g, 0 + k)" unfolding tr using src [OF k] by simp
  qed (rule f(2))
  then have mc: "memcpy H ?d a ?P s1 = Some (s1\<lparr>pmem := copied_into H f g (pmem s)\<rparr>)"
    unfolding copied_into_def pm by (simp only: add_0 le0 simp_thms)
  let ?s2 = "s1\<lparr>pmem := copied_into H f g (pmem s)\<rparr>"
  have g: "pt_get Region0 (int (kb - 1)) ?s2 = Some (rw_pte H f)" using pt_get_Region0 [of "kb - 1" ?s2] kl unfolding s1(2) by simp
  have st: "pt_set Region0 (int (kb - 1)) x ?s2 = Some (?s2\<lparr>region0_pt := ?t0[kb - 1 := x]\<rparr>)" for x
    using pt_set_Region0 [of "kb - 1" ?s2] kl unfolding s1(2) by simp
  have "remove_temp_mapping H ?s2 = Some (?s2\<lparr>region0_pt := ?t0[kb - 1 := (rw_pte H f)\<lparr>valid := False\<rparr>]\<rparr>)"
    unfolding remove_temp_mapping_def temp_mapping_page(2) [OF H] Let_def g using st by simp
  then have "copy_page_to H (int f) a s = Some (?s2\<lparr>region0_pt := ?t0[kb - 1 := (rw_pte H f)\<lparr>valid := False\<rparr>]\<rparr>)"
    using s1(1) mc unfolding copy_page_to_def ps by simp
  then show ?thesis unfolding s1(2) by simp
qed

lemma copy_page_ok:
  assumes H: "regions_ok H kb" and r0: "kb \<le> length (region0_pt s)"
    and i: "i < NUM_PAGES_REGION1 H" "ptbr1 s = Some p" "page_tables s p = Some t" "i < length t" "valid (t ! i)"
      "and (prot (t ! i)) (PROT_READ H) = PROT_READ H"
    and f: "f < 2 ^ 24" "f \<noteq> unat (pfn (t ! i))"
  shows "copy_page_to H (int f) (push_bit (PAGESHIFT H) (of_nat i + of_nat (NUM_PAGES_REGION1 H))) s
    = Some (s\<lparr>region0_pt := unmapped_temp H kb f (region0_pt s), pmem := copied_into H f (unat (pfn (t ! i))) (pmem s),
        reg_log := reg_log s @ [W_TLB_FLUSH (TEMP_MAPPING_VADDR H)]\<rparr>)"
proof (rule copy_page_run [OF H r0 f])
  fix k :: nat assume k: "k < 2 ^ PAGESHIFT H"
  let ?N = "NUM_PAGES_REGION1 H" and ?P = "2 ^ PAGESHIFT H :: nat"
  let ?a = "push_bit (PAGESHIFT H) (of_nat i + of_nat ?N) :: u32" and ?s = "s\<lparr>region0_pt := (region0_pt s)[kb - 1 := rw_pte H f]\<rparr>"
  have "(i + ?N) * ?P \<le> (?N + ?N) * ?P" using i(1) by (intro mult_le_mono1) simp
  also have "\<dots> = unat (VMEM_1_LIMIT H)" using H by (simp add: regions_ok_def)
  also have "\<dots> < 2 ^ 32" by (rule unat_limit)
  finally have small: "(i + ?N) * ?P < 2 ^ 32" .
  have "?a = word_of_nat ((i + ?N) * ?P)" by (simp add: push_bit_eq_mult)
  then have a: "unat ?a = (i + ?N) * ?P" using unat_of_nat_small [OF small] by simp
  show "translate H (PROT_READ H) (?a + of_nat k) ?s = Some (unat (pfn (t ! i)), k)"
    by (rule translate_region1 [OF H a i(1) k]) (use i(2-6) in simp_all)
qed

section \<open>The whole table\<close>

text \<open>
  From the child's table \<open>u\<close>, the used frames \<open>U\<close> and the memory \<open>m\<close> to \<open>u'\<close>, \<open>U'\<close> and \<open>m'\<close>:
  the pages of \<open>M\<close> have the parent's protection, pairwise different frames that were free
  before, and the contents of the parent's pages; nothing else has changed.
\<close>

definition pages_copied ::
  "hw \<Rightarrow> nat set \<Rightarrow> pte list \<Rightarrow> pte list \<Rightarrow> pte list \<Rightarrow> nat set \<Rightarrow> nat set \<Rightarrow>
   (nat \<Rightarrow> nat \<Rightarrow> u8) \<Rightarrow> (nat \<Rightarrow> nat \<Rightarrow> u8) \<Rightarrow> bool" where
  "pages_copied H M t u u' U U' m m' \<longleftrightarrow> length u' = length u \<and> (\<forall>k < length u. k \<notin> M \<longrightarrow> u' ! k = u ! k)
     \<and> (\<exists>g. inj_on g M \<and> g ` M \<inter> U = {} \<and> U' = U \<union> g ` M \<and> (\<forall>f. f \<notin> g ` M \<longrightarrow> m' f = m f)
        \<and> (\<forall>k \<in> M. u' ! k = \<lparr>valid = True, prot = prot (t ! k), pfn = word_of_nat (g k)\<rparr>
             \<and> (\<forall>x < 2 ^ PAGESHIFT H. m' (g k) x = m (unat (pfn (t ! k))) x)))"

lemma pages_copied_none [simp]: "pages_copied H {} t u u U U m m"
  by (simp add: pages_copied_def)

lemma pages_copied_step:
  assumes c: "pages_copied H M t (u[i := e]) u' (insert f U) U' (copied_into H f (unat (pfn (t ! i))) m) m'"
    and i: "i \<notin> M" "i < length u" "f \<notin> U" "\<forall>k \<in> insert i M. unat (pfn (t ! k)) \<in> U"
    and e: "e = \<lparr>valid = True, prot = prot (t ! i), pfn = word_of_nat f\<rparr>"
  shows "pages_copied H (insert i M) t u u' U U' m m'"
proof -
  let ?m = "copied_into H f (unat (pfn (t ! i))) m"
  obtain g where g: "inj_on g M" "g ` M \<inter> insert f U = {}" "U' = insert f U \<union> g ` M" "\<forall>h. h \<notin> g ` M \<longrightarrow> m' h = ?m h"
    "\<forall>k \<in> M. u' ! k = \<lparr>valid = True, prot = prot (t ! k), pfn = word_of_nat (g k)\<rparr>
      \<and> (\<forall>x < 2 ^ PAGESHIFT H. m' (g k) x = ?m (unat (pfn (t ! k))) x)"
    and u: "length u' = length u" "\<forall>k < length u. k \<notin> M \<longrightarrow> u' ! k = u[i := e] ! k"
    using c unfolding pages_copied_def length_list_update by (elim exE conjE) (rule that)
  let ?g = "g(i := f)"
  have same: "?g ` M = g ` M" using i(1) by auto
  have im: "?g ` insert i M = insert f (g ` M)" unfolding image_insert same by simp
  have "inj_on ?g M" using g(1) i(1) by (simp add: inj_on_def)
  then have "inj_on ?g (insert i M)" using i(1) g(2) same by simp
  moreover have "?g ` insert i M \<inter> U = {}" "U' = U \<union> ?g ` insert i M" unfolding im using g(2,3) i(3) by auto
  moreover have "\<forall>h. h \<notin> ?g ` insert i M \<longrightarrow> m' h = m h" unfolding im using g(4) by (simp add: copied_into_def)
  moreover have "u' ! k = \<lparr>valid = True, prot = prot (t ! k), pfn = word_of_nat (?g k)\<rparr>
      \<and> (\<forall>x < 2 ^ PAGESHIFT H. m' (?g k) x = m (unat (pfn (t ! k))) x)" if k: "k \<in> insert i M" for k
  proof (cases "k = i")
    case True
    have "f \<notin> g ` M" using g(2) by auto
    then have "m' f = ?m f" using g(4) by blast
    then show ?thesis using True u(2) i(1,2) e by (simp add: copied_into_def)
  next
    case False
    then have "k \<in> M" using k by simp
    moreover have "unat (pfn (t ! k)) \<noteq> f" using i(3,4) k by auto
    ultimately show ?thesis using g(5) False by (simp add: copied_into_def)
  qed
  moreover have "\<forall>k < length u. k \<notin> insert i M \<longrightarrow> u' ! k = u ! k" using u(2) by auto
  ultimately show ?thesis unfolding pages_copied_def using u(1) by blast
qed

text \<open>Everything that is neither a page table of a process nor a frame nor memory; in the Region 0 table only the
  entry of the temporary mapping differs.\<close>

definition same_objects :: "nat \<Rightarrow> 'a kstate_scheme \<Rightarrow> 'a kstate_scheme \<Rightarrow> bool" where
  "same_objects kb s s' \<longleftrightarrow> vm_enabled s' = vm_enabled s \<and> kernel_brk s' = kernel_brk s \<and> ptbr1 s' = ptbr1 s
     \<and> length (region0_pt s') = length (region0_pt s) \<and> (\<forall>j. j \<noteq> kb - 1 \<longrightarrow> region0_pt s' ! j = region0_pt s ! j)
     \<and> length (frame_bitMap s') = length (frame_bitMap s)
     \<and> lists s' = lists s \<and> pcbs s' = pcbs s \<and> current_process s' = current_process s \<and> idle_process s' = idle_process s
     \<and> kbufs s' = kbufs s \<and> kints s' = kints s \<and> kstate.more s' = kstate.more s"

lemma same_objects_refl [simp]: "same_objects kb s s"
  by (simp add: same_objects_def)

lemma same_objects_trans: "same_objects kb s s' \<Longrightarrow> same_objects kb s' s'' \<Longrightarrow> same_objects kb s s''"
  by (simp add: same_objects_def)

definition mapped :: "pte list \<Rightarrow> nat \<Rightarrow> nat \<Rightarrow> nat set" where
  "mapped t i n = {j. i \<le> j \<and> j < n \<and> valid (t ! j)}"

lemma mapped_finite [simp]: "finite (mapped t i n)"
  by (simp add: mapped_def)

lemma mapped_next:
  "i < n \<Longrightarrow> mapped t i n = (if valid (t ! i) then insert i (mapped t (Suc i) n) else mapped t (Suc i) n)"
  by (auto simp: mapped_def Suc_le_eq le_less)

lemma copy_table_step:
  fixes s :: "'a kstate_scheme"
  assumes H: "regions_ok H kb" and r0: "kb \<le> length (region0_pt s)" and inv: "frames_inv H s"
    and p: "ptbr1 s = Some p" "page_tables s p = Some t" "page_tables s q = Some u" "p \<noteq> q"
    and j: "j < NUM_PAGES_REGION1 H" "j < length t" "j < length u"
    and e: "valid (t ! j)" "and (prot (t ! j)) (PROT_READ H) = PROT_READ H" "unat (pfn (t ! j)) \<in> used_frames H s"
    and room: "card (used_frames H s) < NUM_VPN H"
  shows "\<exists>f s1. copy_table_loop H (Some p) (Some q) (int j) (Suc n) s = copy_table_loop H (Some p) (Some q) (int (Suc j)) n s1
    \<and> f \<notin> used_frames H s \<and> used_frames H s1 = insert f (used_frames H s) \<and> frames_inv H s1 \<and> same_objects kb s s1
    \<and> page_tables s1 = (page_tables s)(q \<mapsto> u[j := \<lparr>valid = True, prot = prot (t ! j), pfn = word_of_nat f\<rparr>])
    \<and> pmem s1 = copied_into H f (unat (pfn (t ! j))) (pmem s)"
proof -
  obtain f where f: "allocate_frame H s = Some (int f, s\<lparr>frame_bitMap := (frame_bitMap s)[f := 1]\<rparr>)" "f < NUM_VPN H"
    "f \<notin> used_frames H s" using allocate_frame_free [OF inv frames_left [OF room]] by blast
  let ?x = "(u ! j)\<lparr>pfn := word_of_nat f\<rparr>"
  let ?s = "s\<lparr>frame_bitMap := (frame_bitMap s)[f := 1], page_tables := (page_tables s)(q \<mapsto> u[j := ?x])\<rparr>"
  have "NUM_VPN H \<le> 2 ^ 24" using H by (auto simp: regions_ok_def dest: hw_okD(7))
  then have f24: "f < 2 ^ 24" using f(2) by simp
  have ne: "f \<noteq> unat (pfn (t ! j))" using f(3) e(3) by auto
  define t0 where "t0 = unmapped_temp H kb f (region0_pt s)"
  define l where "l = reg_log s @ [W_TLB_FLUSH (TEMP_MAPPING_VADDR H)]"
  have cp: "copy_page_to H (int f) (push_bit (PAGESHIFT H) (of_nat j + of_nat (NUM_PAGES_REGION1 H))) ?s
      = Some (?s\<lparr>region0_pt := t0, pmem := copied_into H f (unat (pfn (t ! j))) (pmem s), reg_log := l\<rparr>)"
    "length t0 = length (region0_pt s)" "\<forall>j. j \<noteq> kb - 1 \<longrightarrow> t0 ! j = region0_pt s ! j"
    using copy_page_ok [OF H, of ?s j p t f] r0 p j(1,2) e(1,2) f24 ne by (simp_all add: t0_def l_def)
  let ?s2 = "?s\<lparr>region0_pt := t0, pmem := copied_into H f (unat (pfn (t ! j))) (pmem s), reg_log := l\<rparr>"
  let ?y = "\<lparr>valid = True, prot = prot (t ! j), pfn = word_of_nat f\<rparr>"
  let ?s1 = "?s2\<lparr>page_tables := (page_tables s)(q \<mapsto> u[j := ?y])\<rparr>"
  have y: "?x\<lparr>prot := prot (t ! j), valid := True\<rparr> = ?y" by (cases "u ! j") simp
  have g1: "pt_get (Table p) (int j) s = Some (t ! j)" by (rule pt_get_Table [OF p(2) j(2)])
  have g2: "pt_get (Table q) (int j) (s\<lparr>frame_bitMap := b\<rparr>) = Some (u ! j)" for b using pt_get_Table [of "s\<lparr>frame_bitMap := b\<rparr>" q u j] p(3) j(3) by simp
  have g3: "pt_get (Table p) (int j) ?s2 = Some (t ! j)" using pt_get_Table [of ?s2 p t j] p j(2) by simp
  have g4: "pt_get (Table q) (int j) ?s2 = Some ?x" using pt_get_Table [of ?s2 q "u[j := ?x]" j] j(3) by simp
  have st: "pt_set (Table q) (int j) ?x (s\<lparr>frame_bitMap := (frame_bitMap s)[f := 1]\<rparr>) = Some ?s"
    using p(3) j(3) by (simp add: pt_set_def)
  have st2: "pt_set (Table q) (int j) ?y ?s2 = Some ?s1" using j(3) by (simp add: pt_set_def)
  have run: "copy_table_loop H (Some p) (Some q) (int j) (Suc n) s = copy_table_loop H (Some p) (Some q) (int (Suc j)) n ?s1"
    using g1 e(1) f(1) g2 st cp(1) g3 g4 st2 by (simp add: y add.commute)
  have "used_frames H ?s1 = used_frames H (s\<lparr>frame_bitMap := (frame_bitMap s)[f := 1]\<rparr>)" by (simp add: used_frames_def)
  then have u1: "used_frames H ?s1 = insert f (used_frames H s)" using used_frames_set [OF inv f(2), of 1] by simp
  show ?thesis
    by (intro exI [of _ f] exI [of _ ?s1] conjI)
       (use run u1 f(3) inv cp(2,3) in \<open>simp_all add: frames_inv_def same_objects_def\<close>)
qed

lemma copy_table_ok:
  fixes s :: "'a kstate_scheme"
  assumes H: "regions_ok H kb" and "kb \<le> length (region0_pt s)" "frames_inv H s"
    "ptbr1 s = Some p" "page_tables s p = Some t" "page_tables s q = Some u" "p \<noteq> q"
    "j + n \<le> NUM_PAGES_REGION1 H" "j + n \<le> length t" "j + n \<le> length u"
    "\<forall>k \<in> mapped t j (j + n). and (prot (t ! k)) (PROT_READ H) = PROT_READ H \<and> unat (pfn (t ! k)) \<in> used_frames H s"
    "card (used_frames H s) + card (mapped t j (j + n)) \<le> NUM_VPN H"
  shows "\<exists>s' u'. copy_table_loop H (Some p) (Some q) (int j) n s = Some s' \<and> same_objects kb s s'
    \<and> page_tables s' = (page_tables s)(q \<mapsto> u')
    \<and> pages_copied H (mapped t j (j + n)) t u u' (used_frames H s) (used_frames H s') (pmem s) (pmem s')"
  using assms(2-)
proof (induction n arbitrary: j s u)
  case 0
  have "mapped t j (j + 0) = {}" by (simp add: mapped_def)
  then show ?case using 0(5) by (intro exI [of _ s] exI [of _ u]) (simp add: fun_upd_idem)
next
  case (Suc n)
  let ?N = "NUM_PAGES_REGION1 H"
  have J: "j < ?N" "j < length t" "j < length u" "j < j + Suc n" using Suc.prems(7-9) by simp_all
  have S: "Suc j + n = j + Suc n" by simp
  note mp = mapped_next [OF J(4), of t]
  show ?case
  proof (cases "valid (t ! j)")
    case False
    then have m: "mapped t j (j + Suc n) = mapped t (Suc j) (Suc j + n)" using mp by simp
    have "pt_get (Table p) (int j) s = Some (t ! j)" by (rule pt_get_Table [OF Suc.prems(4) J(2)])
    then have st: "copy_table_loop H (Some p) (Some q) (int j) (Suc n) s = copy_table_loop H (Some p) (Some q) (int (Suc j)) n s"
      using False by (simp add: add.commute)
    show ?thesis unfolding st m
      by (rule Suc.IH) (use Suc.prems m in \<open>simp_all del: add_Suc\<close>)
  next
    case True
    define M where "M = mapped t (Suc j) (Suc j + n)"
    have m: "mapped t j (j + Suc n) = insert j M" using mp True by (simp add: M_def)
    have jM: "j \<notin> M" by (simp add: M_def mapped_def)
    have fin: "finite M" by (simp add: M_def)
    have e: "and (prot (t ! j)) (PROT_READ H) = PROT_READ H" "unat (pfn (t ! j)) \<in> used_frames H s"
      using Suc.prems(10) unfolding m by simp_all
    have room: "card (used_frames H s) + Suc (card M) \<le> NUM_VPN H" using Suc.prems(11) jM fin unfolding m by simp
    then have room': "card (used_frames H s) < NUM_VPN H" by simp
    obtain f s1 where s1: "copy_table_loop H (Some p) (Some q) (int j) (Suc n) s = copy_table_loop H (Some p) (Some q) (int (Suc j)) n s1"
      "f \<notin> used_frames H s" "used_frames H s1 = insert f (used_frames H s)" "frames_inv H s1" "same_objects kb s s1"
      "page_tables s1 = (page_tables s)(q \<mapsto> u[j := \<lparr>valid = True, prot = prot (t ! j), pfn = word_of_nat f\<rparr>])"
      "pmem s1 = copied_into H f (unat (pfn (t ! j))) (pmem s)"
      using copy_table_step [OF H Suc.prems(1-6) J(1-3) True e room'] by blast
    let ?u = "u[j := \<lparr>valid = True, prot = prot (t ! j), pfn = word_of_nat f\<rparr>]"
    have "\<exists>s' u'. copy_table_loop H (Some p) (Some q) (int (Suc j)) n s1 = Some s' \<and> same_objects kb s1 s'
      \<and> page_tables s' = (page_tables s1)(q \<mapsto> u')
      \<and> pages_copied H (mapped t (Suc j) (Suc j + n)) t ?u u' (used_frames H s1) (used_frames H s') (pmem s1) (pmem s')"
    proof (rule Suc.IH)
      show "\<forall>k \<in> mapped t (Suc j) (Suc j + n). and (prot (t ! k)) (PROT_READ H) = PROT_READ H \<and> unat (pfn (t ! k)) \<in> used_frames H s1"
        using Suc.prems(10) unfolding m s1(3) M_def by simp
      show "card (used_frames H s1) + card (mapped t (Suc j) (Suc j + n)) \<le> NUM_VPN H"
        using room s1(2) by (simp add: s1(3) M_def [symmetric] fp.finite_used del: add_Suc)
    qed (use Suc.prems s1(4-6) in \<open>simp_all add: same_objects_def\<close>)
    then obtain s' u' where s': "copy_table_loop H (Some p) (Some q) (int (Suc j)) n s1 = Some s'" "same_objects kb s1 s'"
      "page_tables s' = (page_tables s1)(q \<mapsto> u')"
      "pages_copied H M t ?u u' (insert f (used_frames H s)) (used_frames H s') (copied_into H f (unat (pfn (t ! j))) (pmem s)) (pmem s')"
      unfolding s1(3,7) M_def by blast
    have "pages_copied H (insert j M) t u u' (used_frames H s) (used_frames H s') (pmem s) (pmem s')"
      by (rule pages_copied_step [OF s'(4) jM J(3) s1(2) _ refl]) (use Suc.prems(10) [unfolded m] in blast)
    then show ?thesis using s1(1,6) s'(1,3) same_objects_trans [OF s1(5) s'(2)] unfolding m
      by (intro exI [of _ s'] exI [of _ u']) simp
  qed
qed

section \<open>The address space of the child\<close>

lemma copy_address_space:
  fixes s :: "'a kstate_scheme"
  assumes "regions_ok H kb" "kb \<le> length (region0_pt s)" "frames_inv H s"
    "pcbs s pa = Some c" "pcbs s ch = Some d" "region1_pt c = Some p" "region1_pt d = Some q" "p \<noteq> q"
    "ptbr1 s = Some p" "page_tables s p = Some t" "page_tables s q = Some u"
    "length t = NUM_PAGES_REGION1 H" "length u = NUM_PAGES_REGION1 H" "A = {k. k < length t \<and> valid (t ! k)}"
    "\<forall>k \<in> A. and (prot (t ! k)) (PROT_READ H) = PROT_READ H \<and> unat (pfn (t ! k)) \<in> used_frames H s"
    "card (used_frames H s) + card A \<le> NUM_VPN H"
  shows "\<exists>s' u'. CopyPageTable H (Some pa) (Some ch) s = Some s' \<and> same_objects kb s s' \<and> page_tables s' = (page_tables s)(q \<mapsto> u')
    \<and> pages_copied H A t u u' (used_frames H s) (used_frames H s') (pmem s) (pmem s')"
proof -
  let ?n = "NUM_PAGES_REGION1 H"
  have m: "mapped t 0 (0 + ?n) = A" using assms(12,14) by (simp add: mapped_def)
  obtain s' u' where s': "copy_table_loop H (Some p) (Some q) (int 0) ?n s = Some s'" "same_objects kb s s'"
    "page_tables s' = (page_tables s)(q \<mapsto> u')" "pages_copied H A t u u' (used_frames H s) (used_frames H s') (pmem s) (pmem s')"
    using copy_table_ok [OF assms(1-3,9-11,8), of 0 ?n] assms(12,13,15,16) unfolding m by auto
  moreover have "CopyPageTable H (Some pa) (Some ch) s = Some s'"
    using assms(4-7) s'(1) by (simp add: CopyPageTable_def pcb_access)
  ultimately show ?thesis by blast
qed

end
