(* ===== verification/Creation.thy ===== *)
theory Creation
  imports Process
begin

text \<open>
  Where the process invariant comes from: \<open>init_pcb_system\<close> establishes it for a kernel
  without processes, \<open>create_pcb\<close> keeps it and adds a process that is linked nowhere.
\<close>

section \<open>The queues at boot\<close>

lemma create_queue_ok:
  assumes "lists_ok (lists s) Q" "l \<notin> dom Q" "ok l"
  shows "\<exists>h. create_queue ok j l s = Some (Some l, s\<lparr>lists := h\<rparr>) \<and> lists_ok h (Q(l \<mapsto> []))"
  using create_list_ok [OF assms(1,2), of j] assms(3) by (auto simp: create_queue_def)

definition empty_queues :: ghost where
  "empty_queues = [ReadyQ \<mapsto> [], DelayQ \<mapsto> [], BlockedQ \<mapsto> [], ZombieQ \<mapsto> []]"

lemma empty_queues_in_q [simp]: "\<not> in_q empty_queues e l"
  by (auto simp: in_q_def empty_queues_def split: if_splits)

lemma empty_queues_ok:
  assumes "lists_ok h empty_queues"
  shows "sched_inv h Map.empty empty_queues" "family_ok Map.empty empty_queues"
  using assms by (auto simp: sched_inv_def family_ok_def) (auto simp: empty_queues_def split: if_splits)

lemma init_pcb_system_ok:
  assumes "ok ReadyQ" "ok DelayQ" "ok BlockedQ" "ok ZombieQ"
  shows "\<exists>h. init_pcb_system H ok j s = Some (0, s\<lparr>lists := h\<rparr>) \<and> lists_ok h empty_queues"
proof -
  obtain h1 where h1: "create_queue ok j ReadyQ s = Some (Some ReadyQ, s\<lparr>lists := h1\<rparr>)"
    "lists_ok h1 [ReadyQ \<mapsto> []]"
    using create_queue_ok [where Q = Map.empty and l = ReadyQ and ok = ok and j = j and s = s] assms(1) by auto
  obtain h2 where h2: "create_queue ok j DelayQ (s\<lparr>lists := h1\<rparr>) = Some (Some DelayQ, s\<lparr>lists := h2\<rparr>)"
    "lists_ok h2 [ReadyQ \<mapsto> [], DelayQ \<mapsto> []]"
    using create_queue_ok [where Q = "[ReadyQ \<mapsto> []]" and l = DelayQ and ok = ok and j = j and s = "s\<lparr>lists := h1\<rparr>"] h1(2) assms(2) by auto
  obtain h3 where h3: "create_queue ok j BlockedQ (s\<lparr>lists := h2\<rparr>) = Some (Some BlockedQ, s\<lparr>lists := h3\<rparr>)"
    "lists_ok h3 [ReadyQ \<mapsto> [], DelayQ \<mapsto> [], BlockedQ \<mapsto> []]"
    using create_queue_ok [where Q = "[ReadyQ \<mapsto> [], DelayQ \<mapsto> []]" and l = BlockedQ and ok = ok and j = j and s = "s\<lparr>lists := h2\<rparr>"] h2(2) assms(3) by auto
  obtain h4 where h4: "create_queue ok j ZombieQ (s\<lparr>lists := h3\<rparr>) = Some (Some ZombieQ, s\<lparr>lists := h4\<rparr>)"
    "lists_ok h4 [ReadyQ \<mapsto> [], DelayQ \<mapsto> [], BlockedQ \<mapsto> [], ZombieQ \<mapsto> []]"
    using create_queue_ok [where Q = "[ReadyQ \<mapsto> [], DelayQ \<mapsto> [], BlockedQ \<mapsto> []]" and l = ZombieQ and ok = ok and j = j and s = "s\<lparr>lists := h3\<rparr>"] h3(2) assms(4) by auto
  show ?thesis
    using h1(1) h2(1) h3(1) h4 by (intro exI [of _ h4]) (simp add: init_pcb_system_def empty_queues_def)
qed

section \<open>A new process\<close>

text \<open>No list mentions an address at which there is no process.\<close>

lemma unused_address:
  assumes inv: "sched_inv h P Q" and fam: "family_ok P Q" and p: "P p = None"
  shows "QueueNode p \<notin> queued Q" "ChildNode p \<notin> queued Q" "Children p \<notin> dom Q"
proof -
  show "QueueNode p \<notin> queued Q"
    using sched_invD(3) [OF inv, of p] p by (auto simp: queued_in_q)
  show "Children p \<notin> dom Q" using family_okD(3) [OF fam] p by fastforce
  show "ChildNode p \<notin> queued Q"
  proof
    assume "ChildNode p \<in> queued Q"
    then obtain l where l: "in_q Q (ChildNode p) l" by (auto simp: queued_in_q)
    then obtain q where "l = Children q" using sched_invD(5) [OF inv l] by (cases l) auto
    then show False using family_okD(1) [OF fam, of p q] l p by auto
  qed
qed

lemma in_q_new_list: "Q l = None \<Longrightarrow> in_q (Q(l \<mapsto> [])) e l' = in_q Q e l'"
  by (auto simp: in_q_def)

lemma sched_inv_new:
  assumes inv: "sched_inv h P Q" and fam: "family_ok P Q" and p: "P p = None"
    and h': "lists_ok h' (Q(Children p \<mapsto> []))" "has_elem h' (QueueNode p)" "has_elem h' (ChildNode p)"
      "\<And>e. has_elem h e \<Longrightarrow> has_elem h' e"
    and c: "idle_state (state c)" "parent c = None"
  shows "sched_inv h' (P(p \<mapsto> c)) (Q(Children p \<mapsto> []))" "family_ok (P(p \<mapsto> c)) (Q(Children p \<mapsto> []))"
proof -
  have new: "Q (Children p) = None" using unused_address(3) [OF inv fam p] by (simp add: domIff)
  note iq = in_q_new_list [where Q = Q, OF new]
  show "sched_inv h' (P(p \<mapsto> c)) (Q(Children p \<mapsto> []))"
    unfolding sched_inv_def iq
  proof (intro conjI allI impI)
    show "lists_ok h' (Q(Children p \<mapsto> []))" by (rule h'(1))
    show "{ReadyQ, DelayQ, BlockedQ, ZombieQ} \<subseteq> dom (Q(Children p \<mapsto> []))" using sched_invD(2) [OF inv] by auto
    show "\<exists>x. (P(p \<mapsto> c)) q = Some x \<and> state_queues (state x) l" if "in_q Q (QueueNode q) l" for q l
      using sched_invD(3) [OF inv that] p by auto
    show "\<exists>l. in_q Q (QueueNode q) l" if "(P(p \<mapsto> c)) q = Some x \<and> \<not> idle_state (state x)" for q x
      using that c(1) sched_invD(4) [OF inv, of q x] by (auto split: if_splits)
    show "kind_ok e l" if "in_q Q e l" for e l by (rule sched_invD(5) [OF inv that])
    show "has_elem h' (QueueNode q)" "has_elem h' (ChildNode q)" "Children q \<in> dom (Q(Children p \<mapsto> []))"
      if "(P(p \<mapsto> c)) q = Some x" for q x
      using that h'(2-4) sched_invD(6-8) [OF inv, of q x] by (auto split: if_splits)
  qed
  have "\<not> in_q Q (ChildNode p) (Children q)" for q
    using unused_address(2) [OF inv fam p] by (auto simp: queued_in_q)
  then show "family_ok (P(p \<mapsto> c)) (Q(Children p \<mapsto> []))"
    using fam c(2) p unfolding family_ok_def iq by auto
qed

text \<open>The page table \<open>calloc\<close> returned, with all entries invalid, when it found memory.\<close>

definition fresh_table :: "hw \<Rightarrow> pcb_env \<Rightarrow> (pt_ptr \<rightharpoonup> pte list) \<Rightarrow> (pt_ptr \<rightharpoonup> pte list)" where
  "fresh_table H a T = (case m_pt a of None \<Rightarrow> T | Some t \<Rightarrow> T(t \<mapsto> replicate (MAX_PT_LEN H) zero_pte))"

lemma create_pcb_ok:
  assumes inv: "pcb_ok s Q" and fam: "family_ok (pcbs s) Q" and p: "m_pcb a = Some p" "pcbs s p = None"
  shows "\<exists>h. create_pcb H a s = Some (Some p, s\<lparr>lists := h, pcbs := (pcbs s)(p \<mapsto> fresh_pcb a),
        page_tables := fresh_table H a (page_tables s)\<rparr>)
    \<and> sched_inv h ((pcbs s)(p \<mapsto> fresh_pcb a)) (Q(Children p \<mapsto> []))
    \<and> family_ok ((pcbs s)(p \<mapsto> fresh_pcb a)) (Q(Children p \<mapsto> []))"
proof -
  note si = inv [unfolded pcb_ok_def]
  note un = unused_address [OF si fam p(2)]
  let ?h0 = "alloc_list (Children p) (m_ljunk a) (lists s)"
  have "lists_ok ?h0 Q" by (rule lists_ok_alloc_list [OF sched_invD(1) [OF si]]) (use un(3) in \<open>simp add: domIff\<close>)
  then have "lists_ok (alloc_elem (QueueNode p) (m_ljunk a) (alloc_elem (ChildNode p) (m_ljunk a) (lists s))) Q"
    using sched_invD(1) [OF si] un by (intro lists_ok_alloc_elem) auto
  from list_init_ok [OF this un(3), of "m_ljunk a"] obtain h where
    h: "list_init (Children p) (alloc_list (Children p) (m_ljunk a)
          (alloc_elem (QueueNode p) (m_ljunk a) (alloc_elem (ChildNode p) (m_ljunk a) (lists s)))) = Some h"
    "lists_ok h (Q(Children p \<mapsto> []))"
    "\<forall>e. has_elem h e = has_elem (alloc_elem (QueueNode p) (m_ljunk a) (alloc_elem (ChildNode p) (m_ljunk a) (lists s))) e"
    by (elim exE conjE) (rule that)
  have comm: "alloc_elem (QueueNode p) (m_ljunk a) (alloc_elem (ChildNode p) (m_ljunk a) (alloc_list (Children p) (m_ljunk a) (lists s)))
     = alloc_list (Children p) (m_ljunk a) (alloc_elem (QueueNode p) (m_ljunk a) (alloc_elem (ChildNode p) (m_ljunk a) (lists s)))"
    by (simp add: alloc_elem_def alloc_list_def fun_upd_twist)
  have "create_pcb H a s = Some (Some p, s\<lparr>lists := h, pcbs := (pcbs s)(p \<mapsto> fresh_pcb a),
        page_tables := fresh_table H a (page_tables s)\<rparr>)"
    using h(1) p(1) by (simp add: create_pcb_def comm fresh_table_def split: option.split)
  moreover have el: "has_elem h (QueueNode p)" "has_elem h (ChildNode p)" "\<And>e. has_elem (lists s) e \<Longrightarrow> has_elem h e"
    using h(3) by simp_all
  have "idle_state (state (fresh_pcb a))" "parent (fresh_pcb a) = None" by (simp_all add: fresh_pcb_def idle_state_def)
  note sched_inv_new [OF si fam p(2) h(2) el this]
  ultimately show ?thesis by blast
qed

lemma map_add_first: "k \<notin> fst ` set xs \<Longrightarrow> m(k \<mapsto> v) ++ map_of xs = m ++ map_of ((k, v) # xs)"
  by (rule ext) (auto simp: map_add_def map_of_eq_None_iff [symmetric] split: option.split)

text \<open>Several blocks, one after the other.\<close>

fun create_all :: "hw \<Rightarrow> pcb_env list \<Rightarrow> 'a kstate_scheme \<Rightarrow> 'a kstate_scheme option" where
  "create_all H [] s = Some s"
| "create_all H (a # as) s = do { (_, s) \<leftarrow> create_pcb H a s; create_all H as s }"

lemma create_all_ok:
  assumes "pcb_ok s Q" "family_ok (pcbs s) Q" "map m_pcb as = map Some ps" "distinct ps"
    "set ps \<inter> dom (pcbs s) = {}"
  shows "\<exists>s'. create_all H as s = Some s' \<and> pcb_ok s' (Q ++ map_of (map (\<lambda>p. (Children p, [])) ps))
    \<and> family_ok (pcbs s') (Q ++ map_of (map (\<lambda>p. (Children p, [])) ps))
    \<and> pcbs s' = pcbs s ++ map_of (zip ps (map fresh_pcb as))"
  using assms
proof (induction as arbitrary: s Q ps)
  case (Cons a as)
  obtain p qs where ps: "ps = p # qs" "m_pcb a = Some p" "map m_pcb as = map Some qs"
    using Cons.prems(3) by auto
  have p: "pcbs s p = None" "p \<notin> set qs" "distinct qs" "set qs \<inter> dom (pcbs s) = {}"
    using Cons.prems(4,5) ps(1) by auto
  obtain s1 where s1: "create_pcb H a s = Some (Some p, s1)" "pcb_ok s1 (Q(Children p \<mapsto> []))"
    "family_ok (pcbs s1) (Q(Children p \<mapsto> []))" "pcbs s1 = (pcbs s)(p \<mapsto> fresh_pcb a)"
    using create_pcb_ok [OF Cons.prems(1,2) ps(2) p(1), of H] by (auto simp: pcb_ok_def)
  have d: "set qs \<inter> dom (pcbs s1) = {}" using p(2,4) by (auto simp: s1(4))
  have k: "p \<notin> fst ` set (zip qs (map fresh_pcb as))" "Children p \<notin> fst ` set (map (\<lambda>p. (Children p, [])) qs)"
    using p(2) by (auto dest: set_zip_leftD)
  have "\<exists>s'. create_all H as s1 = Some s' \<and> pcb_ok s' (Q ++ map_of (map (\<lambda>p. (Children p, [])) ps))
    \<and> family_ok (pcbs s') (Q ++ map_of (map (\<lambda>p. (Children p, [])) ps))
    \<and> pcbs s' = pcbs s ++ map_of (zip ps (map fresh_pcb (a # as)))"
    using Cons.IH [OF s1(2,3) ps(3) p(3) d] by (simp only: ps(1) list.map zip_Cons_Cons s1(4) map_add_first [OF k(1)] map_add_first [OF k(2)])
  then show ?case using s1(1) by simp
qed simp

section \<open>Properties\<close>

text \<open>
  C12: The kernel starts in a consistent state: when there is memory for the four queues,
  \<open>init_pcb_system\<close> succeeds, and after it and any number of calls of \<open>create_pcb\<close>, each at
  an address that is not in use, the process invariant holds: the queues are empty, every
  process is in its initial state, belongs to no queue and has no parent and no children,
  and every list can be linked into at once.
\<close>

theorem process_invariant_established:
  fixes s :: "'a kstate_scheme"
  assumes "pcbs s = Map.empty" "\<forall>l \<in> {ReadyQ, DelayQ, BlockedQ, ZombieQ}. ok l"
    "map m_pcb as = map Some ps" "distinct ps"
  shows "\<exists>s1 s2 Q. init_pcb_system H ok j s = Some (0, s1) \<and> create_all H as s1 = Some s2
    \<and> pcb_ok s2 Q \<and> family_ok (pcbs s2) Q
    \<and> dom Q = {ReadyQ, DelayQ, BlockedQ, ZombieQ} \<union> Children ` set ps \<and> (\<forall>l \<in> dom Q. Q l = Some [])
    \<and> dom (pcbs s2) = set ps \<and> (\<forall>i < length ps. pcbs s2 (ps ! i) = Some (fresh_pcb (as ! i)))"
proof -
  obtain h where h: "init_pcb_system H ok j s = Some (0, s\<lparr>lists := h\<rparr>)" "lists_ok h empty_queues"
    using init_pcb_system_ok [of ok H j s] assms(2) by auto
  let ?s1 = "s\<lparr>lists := h\<rparr>" and ?Q = "empty_queues ++ map_of (map (\<lambda>p. (Children p, [])) ps)"
  have len: "length as = length ps" using assms(3) by (rule map_eq_imp_length_eq)
  obtain s2 where s2: "create_all H as ?s1 = Some s2" "pcb_ok s2 ?Q" "family_ok (pcbs s2) ?Q"
    "pcbs s2 = map_of (zip ps (map fresh_pcb as))"
    using create_all_ok [of ?s1 empty_queues as ps H] empty_queues_ok [OF h(2)] assms(1,3,4)
    by (auto simp: pcb_ok_def)
  have kids: "map_of (map (\<lambda>p. (Children p, [])) ps) l = (if l \<in> Children ` set ps then Some [] else None)" for l
    by (induction ps) auto
  have Q: "?Q = (\<lambda>l. if l \<in> {ReadyQ, DelayQ, BlockedQ, ZombieQ} \<union> Children ` set ps then Some [] else None)"
    by (rule ext) (auto simp: map_add_def kids empty_queues_def)
  have dom: "dom ?Q = {ReadyQ, DelayQ, BlockedQ, ZombieQ} \<union> Children ` set ps" "\<forall>l \<in> dom ?Q. ?Q l = Some []"
    unfolding Q by (auto split: if_splits)
  have new: "\<forall>i < length ps. pcbs s2 (ps ! i) = Some (fresh_pcb (as ! i))"
    using map_of_zip_nth [of ps "map fresh_pcb as"] assms(4) len by (simp add: s2(4))
  have "dom (pcbs s2) = set ps" by (simp add: s2(4) dom_map_of_zip len)
  then show ?thesis
    by (intro exI [of _ ?s1] exI [of _ s2] exI [of _ ?Q] conjI h(1) s2(1-3) dom new)
qed

definition boot_envs :: "pcb_env list" where
  "boot_envs = [\<lparr>m_pcb = Some 1, m_pt = Some 10, m_pid = 0, m_junk = blank_pcb, m_ljunk = zero_junk\<rparr>,
     \<lparr>m_pcb = Some 2, m_pt = Some 11, m_pid = 1, m_junk = blank_pcb, m_ljunk = zero_junk\<rparr>]"

lemma process_invariant_established_witness:
  "\<exists>s1 s2 Q. init_pcb_system demo_hw (\<lambda>_. True) zero_junk (small_system [] [] [] 0) = Some (0, s1)
     \<and> create_all demo_hw boot_envs s1 = Some s2 \<and> pcb_ok s2 Q \<and> family_ok (pcbs s2) Q \<and> dom (pcbs s2) = set [1, 2]"
proof -
  have "pcbs (small_system [] [] [] 0) = Map.empty" "map m_pcb boot_envs = map Some [1, 2]" "distinct [1, 2 :: nat]"
    by (simp_all add: boot_envs_def)
  from process_invariant_established [OF this(1) _ this(2,3), of "\<lambda>_. True" demo_hw zero_junk]
  obtain s1 s2 Q where "init_pcb_system demo_hw (\<lambda>_. True) zero_junk (small_system [] [] [] 0) = Some (0, s1)"
    "create_all demo_hw boot_envs s1 = Some s2" "pcb_ok s2 Q" "family_ok (pcbs s2) Q" "dom (pcbs s2) = set [1, 2]"
    by (elim meta_impE exE conjE) (rule ballI, rule TrueI, rule that)
  then show ?thesis by blast
qed

end
