(* ===== verification/Fork_Sys.thy ===== *)
theory Fork_Sys
  imports Fork_Props Creation
begin

text \<open>
  \<open>Fork\<close> as a whole: the child's control block, its address space, its kernel stack and its
  place in the ready queue.
\<close>

section \<open>A kernel stack of its own\<close>

text \<open>\<open>InitializeKernelStack\<close> with virtual memory on: one new frame per page.\<close>

lemma kstack_alloc_step:
  fixes s :: "'a mem_scheme"
  assumes inv: "frames_inv H s" "ERROR H < 0" "NUM_VPN H \<le> 2 ^ 24" and p: "page_tables s p = Some t" "i < length t"
    and room: "card (used_frames H s) < NUM_VPN H"
  shows "\<exists>f bm. kstack_alloc_loop H p (int i) (Suc n) s
      = kstack_alloc_loop H p (int (Suc i)) n (s\<lparr>page_tables := (page_tables s)(p \<mapsto> t[i := rw_pte H f]), frame_bitMap := bm\<rparr>)
    \<and> f \<notin> used_frames H s \<and> length bm = length (frame_bitMap s)
    \<and> (\<forall>x. used_frames H (s\<lparr>page_tables := x, frame_bitMap := bm\<rparr>) = insert f (used_frames H s))"
proof -
  obtain f where f: "allocate_frame H s = Some (int f, s\<lparr>frame_bitMap := (frame_bitMap s)[f := 1]\<rparr>)" "f < NUM_VPN H"
    "f \<notin> used_frames H s" using allocate_frame_free [OF inv(1) frames_left [OF room]] by blast
  let ?s = "s\<lparr>frame_bitMap := (frame_bitMap s)[f := 1]\<rparr>"
  have f24: "f < 2 ^ 24" "f < length (frame_bitMap s)" using f(2) inv(1,3) by (simp_all add: frames_inv_def)
  have "uint (word_of_nat f :: 24 word) = int f" using f24(1) by (simp add: unsigned_of_nat uint_nat_eq take_bit_nat_eq_self)
  moreover have "(t ! i)\<lparr>valid := True, prot := or (PROT_READ H) (PROT_WRITE H), pfn := word_of_nat f\<rparr> = rw_pte H f"
    by (cases "t ! i") (simp add: rw_pte_def)
  ultimately have "map_page (Table p) (int i) (int f) (or (PROT_READ H) (PROT_WRITE H)) ?s
      = Some (s\<lparr>page_tables := (page_tables s)(p \<mapsto> t[i := rw_pte H f]), frame_bitMap := (frame_bitMap s)[f := 1]\<rparr>)"
    using p f24(2) by (simp add: map_page_def Let_def pt_get_def pt_set_def set_frame_def)
  then have "kstack_alloc_loop H p (int i) (Suc n) s = kstack_alloc_loop H p (int (Suc i)) n
      (s\<lparr>page_tables := (page_tables s)(p \<mapsto> t[i := rw_pte H f]), frame_bitMap := (frame_bitMap s)[f := 1]\<rparr>)"
    using f(1) inv(2) by (simp add: add.commute)
  moreover have "used_frames H (s\<lparr>page_tables := x, frame_bitMap := (frame_bitMap s)[f := 1]\<rparr>) = insert f (used_frames H s)" for x
    using used_frames_set [OF inv(1) f(2), of 1] by (simp add: used_frames_def)
  ultimately show ?thesis using f(3) by (intro exI [of _ f] exI [of _ "(frame_bitMap s)[f := 1]"]) simp
qed

lemma kstack_alloc_ok:
  fixes s :: "'a mem_scheme"
  assumes "frames_inv H s" "ERROR H < 0" "NUM_VPN H \<le> 2 ^ 24" "page_tables s p = Some t" "i + n \<le> length t"
    "card (used_frames H s) + n \<le> NUM_VPN H"
  shows "\<exists>t' bm. kstack_alloc_loop H p (int i) n s
      = Some (Ret (), s\<lparr>page_tables := (page_tables s)(p \<mapsto> t'), frame_bitMap := bm\<rparr>)
    \<and> length bm = length (frame_bitMap s)
    \<and> newly_mapped H {i..<i + n} t t' (used_frames H s)
        (used_frames H (s\<lparr>page_tables := (page_tables s)(p \<mapsto> t'), frame_bitMap := bm\<rparr>))"
  using assms
proof (induction n arbitrary: i s t)
  case 0
  have s: "s\<lparr>page_tables := (page_tables s)(p \<mapsto> t), frame_bitMap := frame_bitMap s\<rparr> = s" using 0(4) by (simp add: fun_upd_idem)
  show ?case by (rule exI [of _ t], rule exI [of _ "frame_bitMap s"], unfold s) simp
next
  case (Suc n)
  have il: "i < length t" and room: "card (used_frames H s) < NUM_VPN H" using Suc.prems(5,6) by simp_all
  obtain f bm where f: "kstack_alloc_loop H p (int i) (Suc n) s
      = kstack_alloc_loop H p (int (Suc i)) n (s\<lparr>page_tables := (page_tables s)(p \<mapsto> t[i := rw_pte H f]), frame_bitMap := bm\<rparr>)"
    "f \<notin> used_frames H s" "length bm = length (frame_bitMap s)"
    "\<forall>x. used_frames H (s\<lparr>page_tables := x, frame_bitMap := bm\<rparr>) = insert f (used_frames H s)"
    using kstack_alloc_step [OF Suc.prems(1-4) il room] by blast
  define s1 where "s1 = s\<lparr>page_tables := (page_tables s)(p \<mapsto> t[i := rw_pte H f]), frame_bitMap := bm\<rparr>"
  have u1: "used_frames H s1 = insert f (used_frames H s)" using f(4) by (simp add: s1_def)
  have s1: "frames_inv H s1" "page_tables s1 p = Some (t[i := rw_pte H f])"
    using Suc.prems(1) f(3) by (simp_all add: s1_def frames_inv_def)
  have c: "card (used_frames H s1) + n \<le> NUM_VPN H" using Suc.prems(6) f(2) by (simp add: u1 fp.finite_used)
  have "Suc i + n \<le> length (t[i := rw_pte H f])" using Suc.prems(5) by simp
  from Suc.IH [OF s1(1) Suc.prems(2,3) s1(2) this c] obtain t' bm' where
    r: "kstack_alloc_loop H p (int (Suc i)) n s1 = Some (Ret (), s1\<lparr>page_tables := (page_tables s1)(p \<mapsto> t'), frame_bitMap := bm'\<rparr>)"
    "length bm' = length (frame_bitMap s1)"
    "newly_mapped H {Suc i..<Suc i + n} (t[i := rw_pte H f]) t' (insert f (used_frames H s))
        (used_frames H (s1\<lparr>page_tables := (page_tables s1)(p \<mapsto> t'), frame_bitMap := bm'\<rparr>))"
    unfolding u1 by blast
  have s2: "s1\<lparr>page_tables := (page_tables s1)(p \<mapsto> t'), frame_bitMap := bm'\<rparr>
      = s\<lparr>page_tables := (page_tables s)(p \<mapsto> t'), frame_bitMap := bm'\<rparr>" by (simp add: s1_def)
  have set: "insert i {Suc i..<Suc i + n} = {i..<i + Suc n}" by auto
  have "i \<notin> {Suc i..<Suc i + n}" by simp
  note nm = newly_mapped_step [OF r(3) this il f(2), unfolded set s2]
  have run: "kstack_alloc_loop H p (int i) (Suc n) s
      = Some (Ret (), s\<lparr>page_tables := (page_tables s)(p \<mapsto> t'), frame_bitMap := bm'\<rparr>)"
    unfolding f(1) s1_def [symmetric] r(1) s2 ..
  have "length bm' = length (frame_bitMap s)" using f(3) r(2) by (simp add: s1_def)
  then show ?case by (intro exI [of _ t'] exI [of _ bm'] conjI run nm)
qed

lemma InitializeKernelStack_ok:
  fixes s :: "'a mem_scheme"
  assumes "frames_inv H s" "ERROR H < 0" "NUM_VPN H \<le> 2 ^ 24" "kstack_pages H \<le> length junk"
    "card (used_frames H s) + kstack_pages H \<le> NUM_VPN H" "vm_enabled s = 1"
  shows "\<exists>t bm g. InitializeKernelStack H (Some p) junk s
      = Some (Ret p, s\<lparr>page_tables := (page_tables s)(p \<mapsto> t), frame_bitMap := bm\<rparr>)
    \<and> length t = kstack_pages H \<and> length bm = length (frame_bitMap s)
    \<and> (\<forall>k < kstack_pages H. t ! k = rw_pte H (g k)) \<and> inj_on g {..<kstack_pages H}
    \<and> g ` {..<kstack_pages H} \<inter> used_frames H s = {}
    \<and> used_frames H (s\<lparr>page_tables := (page_tables s)(p \<mapsto> t), frame_bitMap := bm\<rparr>) = used_frames H s \<union> g ` {..<kstack_pages H}"
proof -
  let ?N = "kstack_pages H" and ?s = "s\<lparr>page_tables := (page_tables s)(p \<mapsto> take (kstack_pages H) junk)\<rparr>"
  have u: "used_frames H ?s = used_frames H s" by (simp add: used_frames_def)
  have i: "frames_inv H ?s" "page_tables ?s p = Some (take ?N junk)" "0 + ?N \<le> length (take ?N junk)"
    using assms(1,4) by (simp_all add: frames_inv_def)
  obtain t bm where r: "kstack_alloc_loop H p 0 ?N ?s = Some (Ret (), ?s\<lparr>page_tables := (page_tables ?s)(p \<mapsto> t), frame_bitMap := bm\<rparr>)"
    "length bm = length (frame_bitMap ?s)"
    "newly_mapped H {0..<0 + ?N} (take ?N junk) t (used_frames H s)
      (used_frames H (?s\<lparr>page_tables := (page_tables ?s)(p \<mapsto> t), frame_bitMap := bm\<rparr>))"
    using kstack_alloc_ok [OF i(1) assms(2,3) i(2,3), unfolded u, OF assms(5)] by auto
  have s': "?s\<lparr>page_tables := (page_tables ?s)(p \<mapsto> t), frame_bitMap := bm\<rparr>
      = s\<lparr>page_tables := (page_tables s)(p \<mapsto> t), frame_bitMap := bm\<rparr>" by simp
  have "length t = ?N" using r(3) assms(4) by (simp add: newly_mapped_def)
  moreover have "InitializeKernelStack H (Some p) junk s = Some (Ret p, s\<lparr>page_tables := (page_tables s)(p \<mapsto> t), frame_bitMap := bm\<rparr>)"
    using r(1) assms(6) unfolding s' by (simp add: InitializeKernelStack_def)
  moreover have "length bm = length (frame_bitMap s)" using r(2) by simp
  moreover obtain g where "inj_on g {..<?N}" "g ` {..<?N} \<inter> used_frames H s = {}"
    "used_frames H (s\<lparr>page_tables := (page_tables s)(p \<mapsto> t), frame_bitMap := bm\<rparr>) = used_frames H s \<union> g ` {..<?N}"
    "\<forall>k \<in> {..<?N}. k < length (take ?N junk) \<and> t ! k = rw_pte H (g k)"
    using r(3) unfolding newly_mapped_def s' atLeast0LessThan add_0 by (elim exE conjE) (rule that)
  ultimately show ?thesis by (intro exI [of _ t] exI [of _ bm] exI [of _ g]) simp
qed

section \<open>The copy of the kernel stack\<close>

lemma kstack_pages_div: "hw_ok H \<Longrightarrow> unat (KERNEL_STACK_MAXSIZE H div PAGESIZE H) = kstack_pages H"
  using unat_power_small [of "PAGESHIFT H"] power_strict_increasing [of "PAGESHIFT H" 32 "2 :: nat"]
  by (simp add: kstack_pages_def ADDR_TO_PAGE_NUM_def hw_okD(3,4) unat_div unat_drop_bit_eq drop_bit_eq_div)

lemma kstack_addr:
  assumes "regions_ok H kb" "kb + i < NUM_PAGES_REGION1 H"
  shows "unat (push_bit (PAGESHIFT H) (KSTACK_START_PAGE H + word_of_int (int i))) = (kb + i) * 2 ^ PAGESHIFT H"
proof -
  let ?P = "2 ^ PAGESHIFT H :: nat"
  have k: "unat (KERNEL_STACK_BASE H) = kb * ?P + 0" "unat (VMEM_1_BASE H) = NUM_PAGES_REGION1 H * ?P"
    using assms(1) by (simp_all add: regions_ok_def)
  have "uint (KSTACK_START_PAGE H) = int kb"
    unfolding KSTACK_START_PAGE_def by (rule page_of_addr(1) [OF k(1)]) simp
  then have s: "KSTACK_START_PAGE H = word_of_nat kb" by (metis word_of_int_uint of_int_of_nat_eq)
  have "(kb + i) * ?P \<le> NUM_PAGES_REGION1 H * ?P" using assms(2) by (intro mult_le_mono1) simp
  then have "(kb + i) * ?P < 2 ^ 32" using k(2) unat_limit [of "VMEM_1_BASE H"] by linarith
  then have "unat (word_of_nat ((kb + i) * ?P) :: u32) = (kb + i) * ?P" by (rule unat_of_nat_small)
  then show ?thesis unfolding s by (simp add: push_bit_eq_mult)
qed

text \<open>
  The pages \<open>kb + k\<close> of Region 0 into the frames \<open>g k\<close>, for the \<open>k\<close> of \<open>K\<close>: the memory after it.
\<close>

definition stack_copied ::
  "hw \<Rightarrow> nat \<Rightarrow> nat set \<Rightarrow> (nat \<Rightarrow> nat) \<Rightarrow> pte list \<Rightarrow> (nat \<Rightarrow> nat \<Rightarrow> u8) \<Rightarrow> (nat \<Rightarrow> nat \<Rightarrow> u8) \<Rightarrow> bool" where
  "stack_copied H kb K g r m m' \<longleftrightarrow> (\<forall>f. f \<notin> g ` K \<longrightarrow> m' f = m f)
     \<and> (\<forall>k \<in> K. \<forall>x < 2 ^ PAGESHIFT H. m' (g k) x = m (unat (pfn (r ! (kb + k)))) x)"

lemma stack_copied_step:
  assumes c: "stack_copied H kb K g r' (copied_into H (g i) (unat (pfn (r ! (kb + i)))) m) m'"
    and i: "i \<notin> K" "inj_on g (insert i K)" "\<forall>k \<in> K. unat (pfn (r ! (kb + k))) \<noteq> g i"
    and r: "\<forall>k \<in> K. r' ! (kb + k) = r ! (kb + k)"
  shows "stack_copied H kb (insert i K) g r m m'"
proof -
  have gi: "g i \<notin> g ` K" using i(1,2) by (auto simp: inj_on_def)
  have same: "\<forall>f. f \<notin> g ` insert i K \<longrightarrow> m' f = m f" using c by (simp add: stack_copied_def copied_into_def)
  have "m' (g k) x = m (unat (pfn (r ! (kb + k)))) x" if k: "k \<in> insert i K" and x: "x < 2 ^ PAGESHIFT H" for k x
  proof (cases "k = i")
    case True
    then show ?thesis using c gi x by (simp add: stack_copied_def copied_into_def)
  next
    case False
    then show ?thesis using c i(3) r k x by (simp add: stack_copied_def copied_into_def)
  qed
  then show ?thesis using same by (simp add: stack_copied_def)
qed

lemma copy_stack_step:
  fixes s :: "'a mem_scheme"
  assumes H: "regions_ok H kb" and i: "kb + i < NUM_PAGES_REGION1 H" "kb + i < length (region0_pt s)"
    and v: "page_tables s u = Some v" "i < length v" "v ! i = rw_pte H f" "f < 2 ^ 24"
    and e: "valid (region0_pt s ! (kb + i))" "and (prot (region0_pt s ! (kb + i))) (PROT_READ H) = PROT_READ H"
      "unat (pfn (region0_pt s ! (kb + i))) \<noteq> f"
  shows "copy_stack_loop H (Some u) (int i) (Suc n) s = copy_stack_loop H (Some u) (int (Suc i)) n
    (s\<lparr>region0_pt := unmapped_temp H kb f (region0_pt s), pmem := copied_into H f (unat (pfn (region0_pt s ! (kb + i)))) (pmem s),
       reg_log := reg_log s @ [W_TLB_FLUSH (TEMP_MAPPING_VADDR H)]\<rparr>)"
proof -
  let ?a = "push_bit (PAGESHIFT H) (KSTACK_START_PAGE H + word_of_int (int i)) :: u32"
  let ?g = "unat (pfn (region0_pt s ! (kb + i)))"
  let ?s = "s\<lparr>region0_pt := unmapped_temp H kb f (region0_pt s), pmem := copied_into H f ?g (pmem s),
       reg_log := reg_log s @ [W_TLB_FLUSH (TEMP_MAPPING_VADDR H)]\<rparr>"
  have kb: "0 < kb" "kb - 1 \<noteq> kb + i" using H by (auto simp: regions_ok_def)
  have cp: "copy_page_to H (int f) ?a s = Some ?s"
  proof (rule copy_page_run [OF H _ v(4) e(3) [symmetric]])
    fix k :: nat assume k: "k < 2 ^ PAGESHIFT H"
    let ?t = "s\<lparr>region0_pt := (region0_pt s)[kb - 1 := rw_pte H f]\<rparr>"
    have same: "region0_pt ?t ! (kb + i) = region0_pt s ! (kb + i)" using kb(2) by simp
    show "translate H (PROT_READ H) (?a + of_nat k) ?t = Some (?g, k)"
      using translate_region0 [OF H kstack_addr [OF H i(1)] i(1), of ?t k "PROT_READ H"] i(2) k e(1,2) unfolding same by simp
  qed (use i(2) in simp)
  have f: "uint (pfn (rw_pte H f)) = int f" using v(4) by (simp add: rw_pte_def uint_nat_eq unsigned_of_nat take_bit_nat_eq_self)
  have g: "pt_get (Table u) (int i) s = Some (rw_pte H f)" "pt_get (Table u) (int i) ?s = Some (rw_pte H f)"
    using v by (simp_all add: pt_get_def)
  have "(rw_pte H f)\<lparr>valid := True, prot := or (PROT_READ H) (PROT_WRITE H)\<rparr> = rw_pte H f" by (simp add: rw_pte_def)
  moreover have "pt_set (Table u) (int i) (rw_pte H f) ?s = Some ?s"
    using v(1-3) list_update_id [of v i] by (simp add: pt_set_def fun_upd_idem)
  ultimately show ?thesis using g f cp by (simp add: add.commute)
qed

lemma copy_stack_ok:
  fixes s :: "'a mem_scheme"
  assumes H: "regions_ok H kb" and "kb + i + n \<le> NUM_PAGES_REGION1 H" "kb + i + n \<le> length (region0_pt s)"
    "page_tables s u = Some v" "i + n \<le> length v" "inj_on g {i..<i + n}"
    "\<forall>k \<in> {i..<i + n}. v ! k = rw_pte H (g k) \<and> g k < 2 ^ 24
       \<and> valid (region0_pt s ! (kb + k)) \<and> and (prot (region0_pt s ! (kb + k))) (PROT_READ H) = PROT_READ H"
    "\<forall>k \<in> {i..<i + n}. unat (pfn (region0_pt s ! (kb + k))) \<notin> g ` {i..<i + n}"
  shows "\<exists>r m l. copy_stack_loop H (Some u) (int i) n s = Some (s\<lparr>region0_pt := r, pmem := m, reg_log := l\<rparr>)
    \<and> length r = length (region0_pt s) \<and> (\<forall>j. j \<noteq> kb - 1 \<longrightarrow> r ! j = region0_pt s ! j)
    \<and> stack_copied H kb {i..<i + n} g (region0_pt s) (pmem s) m"
  using assms(2-)
proof (induction n arbitrary: i s)
  case 0
  have s: "s\<lparr>region0_pt := region0_pt s, pmem := pmem s, reg_log := reg_log s\<rparr> = s" by simp
  show ?case
    by (rule exI [of _ "region0_pt s"], rule exI [of _ "pmem s"], rule exI [of _ "reg_log s"], unfold s)
       (simp add: stack_copied_def)
next
  case (Suc n)
  let ?g = "unat (pfn (region0_pt s ! (kb + i)))"
  have K: "{i..<i + Suc n} = insert i {Suc i..<Suc i + n}" by auto
  have iK: "i \<in> {i..<i + Suc n}" by simp
  note vi = Suc.prems(6) [THEN bspec, OF iK] and gi = Suc.prems(7) [THEN bspec, OF iK]
  have ne: "?g \<noteq> g i" using gi by auto
  define s1 where "s1 = s\<lparr>region0_pt := unmapped_temp H kb (g i) (region0_pt s), pmem := copied_into H (g i) ?g (pmem s),
       reg_log := reg_log s @ [W_TLB_FLUSH (TEMP_MAPPING_VADDR H)]\<rparr>"
  have st: "copy_stack_loop H (Some u) (int i) (Suc n) s = copy_stack_loop H (Some u) (int (Suc i)) n s1"
    unfolding s1_def by (rule copy_stack_step [OF H _ _ Suc.prems(3)]) (use Suc.prems(1,2,4) vi ne in simp_all)
  have kb: "0 < kb" using H by (simp add: regions_ok_def)
  have r1: "region0_pt s1 ! j = region0_pt s ! j" if "j \<noteq> kb - 1" for j using that by (simp add: s1_def)
  have s1: "length (region0_pt s1) = length (region0_pt s)" "page_tables s1 = page_tables s" "region0_pt s1 ! (kb + k) = region0_pt s ! (kb + k)"
    "pmem s1 = copied_into H (g i) ?g (pmem s)" for k using kb r1 [of "kb + k"] by (simp_all add: s1_def)
  have "\<exists>r m l. copy_stack_loop H (Some u) (int (Suc i)) n s1 = Some (s1\<lparr>region0_pt := r, pmem := m, reg_log := l\<rparr>)
    \<and> length r = length (region0_pt s1) \<and> (\<forall>j. j \<noteq> kb - 1 \<longrightarrow> r ! j = region0_pt s1 ! j)
    \<and> stack_copied H kb {Suc i..<Suc i + n} g (region0_pt s1) (pmem s1) m"
  proof (rule Suc.IH)
    show "inj_on g {Suc i..<Suc i + n}" by (rule inj_on_subset [OF Suc.prems(5)]) (simp add: K)
    show "\<forall>k \<in> {Suc i..<Suc i + n}. v ! k = rw_pte H (g k) \<and> g k < 2 ^ 24
       \<and> valid (region0_pt s1 ! (kb + k)) \<and> and (prot (region0_pt s1 ! (kb + k))) (PROT_READ H) = PROT_READ H"
      using Suc.prems(6) unfolding K s1(3) by simp
    show "\<forall>k \<in> {Suc i..<Suc i + n}. unat (pfn (region0_pt s1 ! (kb + k))) \<notin> g ` {Suc i..<Suc i + n}"
      using Suc.prems(7) unfolding K s1(3) by blast
  qed (use Suc.prems(1-4) in \<open>simp_all add: s1(1,2)\<close>)
  then obtain r m l where r: "copy_stack_loop H (Some u) (int (Suc i)) n s1 = Some (s1\<lparr>region0_pt := r, pmem := m, reg_log := l\<rparr>)"
    "length r = length (region0_pt s)" "\<forall>j. j \<noteq> kb - 1 \<longrightarrow> r ! j = region0_pt s1 ! j"
    "stack_copied H kb {Suc i..<Suc i + n} g (region0_pt s1) (copied_into H (g i) ?g (pmem s)) m"
    unfolding s1(1,4) by (elim exE conjE) (rule that)
  have "stack_copied H kb {i..<i + Suc n} g (region0_pt s) (pmem s) m"
    unfolding K
  proof (rule stack_copied_step [OF r(4) _ Suc.prems(5) [unfolded K]])
    show "\<forall>k \<in> {Suc i..<Suc i + n}. unat (pfn (region0_pt s ! (kb + k))) \<noteq> g i"
      using Suc.prems(7) [unfolded K] by blast
  qed (simp_all add: s1(3))
  moreover have "\<forall>j. j \<noteq> kb - 1 \<longrightarrow> r ! j = region0_pt s ! j" using r(3) r1 by simp
  moreover have "copy_stack_loop H (Some u) (int i) (Suc n) s = Some (s\<lparr>region0_pt := r, pmem := m, reg_log := l\<rparr>)"
    unfolding st r(1) by (simp add: s1_def)
  ultimately show ?case using r(2) by blast
qed

section \<open>The new process\<close>

definition fork_pcb :: "pcb_env \<Rightarrow> pcb_ptr \<Rightarrow> user_context \<Rightarrow> pcb" where
  "fork_pcb a pa u = (fresh_pcb a)\<lparr>parent := Some pa, should_fork := False, user_context := u\<rparr>"

lemma fork_pcb_simps [simp]: "state (fork_pcb a pa u) = PROCESS_DEFAULT" "region1_pt (fork_pcb a pa u) = m_pt a" "pid (fork_pcb a pa u) = m_pid a"
  by (simp_all add: fork_pcb_def fresh_pcb_def)

text \<open>Up to the copy of the address space.\<close>

lemma new_child_ok:
  fixes s :: "'a kstate_scheme"
  assumes inv: "pcb_ok s Q" "family_ok (pcbs s) Q" and a: "m_pcb a = Some ch" "pcbs s ch = None"
    and pa: "pcbs s pa = Some c" "Q (Children pa) = Some kids"
  shows "\<exists>h. (do { (child, s) \<leftarrow> create_pcb H a s; s \<leftarrow> add_child (Some pa) child s;
        s \<leftarrow> upd_pcb child (\<lambda>c. c\<lparr>should_fork := False\<rparr>) s;
        s \<leftarrow> upd_pcb child (\<lambda>c. c\<lparr>user_context := u\<rparr>) s; Some (child, s) })
      = Some (Some ch, s\<lparr>lists := h, pcbs := (pcbs s)(ch \<mapsto> fork_pcb a pa u), page_tables := fresh_table H a (page_tables s)\<rparr>)
    \<and> sched_inv h ((pcbs s)(ch \<mapsto> fork_pcb a pa u)) (Q(Children ch \<mapsto> [], Children pa \<mapsto> kids @ [ChildNode ch]))
    \<and> family_ok ((pcbs s)(ch \<mapsto> fork_pcb a pa u)) (Q(Children ch \<mapsto> [], Children pa \<mapsto> kids @ [ChildNode ch]))"
proof -
  let ?P = "(pcbs s)(ch \<mapsto> fresh_pcb a)" and ?x = "(fresh_pcb a)\<lparr>parent := Some pa\<rparr>"
  let ?Q = "Q(Children ch \<mapsto> [], Children pa \<mapsto> kids @ [ChildNode ch])"
  have ne: "pa \<noteq> ch" using a(2) pa(1) by auto
  obtain h1 where h1: "create_pcb H a s = Some (Some ch, s\<lparr>lists := h1, pcbs := ?P, page_tables := fresh_table H a (page_tables s)\<rparr>)"
    "sched_inv h1 ?P (Q(Children ch \<mapsto> []))" "family_ok ?P (Q(Children ch \<mapsto> []))"
    using create_pcb_ok [OF inv a, of H] by blast
  define s1 where "s1 = s\<lparr>lists := h1, pcbs := ?P, page_tables := fresh_table H a (page_tables s)\<rparr>"
  have s1: "pcb_ok s1 (Q(Children ch \<mapsto> []))" "family_ok (pcbs s1) (Q(Children ch \<mapsto> []))" "pcbs s1 ch = Some (fresh_pcb a)"
    "pcbs s1 pa = Some c" using h1(2,3) pa(1) ne by (simp_all add: s1_def pcb_ok_def)
  have "parent (fresh_pcb a) = None" "(Q(Children ch \<mapsto> [])) (Children pa) = Some kids"
    using pa(2) ne by (simp_all add: fresh_pcb_def)
  from add_child_ok [OF s1(1-3) this(1) s1(4) this(2)] obtain h2 where
    h2: "add_child (Some pa) (Some ch) s1 = Some (s1\<lparr>pcbs := (pcbs s1)(ch \<mapsto> ?x), lists := h2\<rparr>)"
      "sched_inv h2 ((pcbs s1)(ch \<mapsto> ?x)) ?Q" "family_ok ((pcbs s1)(ch \<mapsto> ?x)) ?Q" by blast
  have P: "(pcbs s1)(ch \<mapsto> ?x) = (pcbs s)(ch \<mapsto> ?x)" by (simp add: s1_def)
  have same: "state (fork_pcb a pa u) = state ?x" "parent (fork_pcb a pa u) = parent ?x"
    by (simp_all add: fork_pcb_def fresh_pcb_def)
  have "sched_inv h2 ((pcbs s)(ch \<mapsto> fork_pcb a pa u)) ?Q"
    using sched_inv_same_state [OF h2(2), of ch ?x "fork_pcb a pa u"] same by (simp add: P)
  moreover have "family_ok ((pcbs s)(ch \<mapsto> fork_pcb a pa u)) ?Q"
    using h2(3) same unfolding P family_ok_def by simp
  moreover have "add_child (Some pa) (Some ch) (s\<lparr>lists := h1, pcbs := ?P, page_tables := fresh_table H a (page_tables s)\<rparr>)
      = Some (s\<lparr>lists := h2, pcbs := (pcbs s)(ch \<mapsto> ?x), page_tables := fresh_table H a (page_tables s)\<rparr>)"
    using h2(1) by (simp add: s1_def)
  ultimately show ?thesis using h1(1) by (intro exI [of _ h2]) (simp add: upd_pcb_def fork_pcb_def)
qed

section \<open>The system call\<close>

text \<open>What \<open>Fork\<close> leaves alone; in the Region 0 table only the temporary mapping's entry is used.\<close>

definition same_machine :: "nat \<Rightarrow> 'a kstate_scheme \<Rightarrow> 'a kstate_scheme \<Rightarrow> bool" where
  "same_machine kb s s' \<longleftrightarrow> vm_enabled s' = vm_enabled s \<and> kernel_brk s' = kernel_brk s \<and> ptbr1 s' = ptbr1 s
     \<and> length (region0_pt s') = length (region0_pt s) \<and> (\<forall>j. j \<noteq> kb - 1 \<longrightarrow> region0_pt s' ! j = region0_pt s ! j)
     \<and> length (frame_bitMap s') = length (frame_bitMap s) \<and> current_process s' = current_process s
     \<and> idle_process s' = idle_process s \<and> kbufs s' = kbufs s \<and> kints s' = kints s \<and> kstate.more s' = kstate.more s"

lemma same_machine_trans: "same_machine kb s s' \<Longrightarrow> same_machine kb s' s'' \<Longrightarrow> same_machine kb s s''"
  by (simp add: same_machine_def)

lemma same_objects_machine: "same_objects kb s s' \<Longrightarrow> same_machine kb s s'"
  by (simp add: same_machine_def same_objects_def)

text \<open>The running process \<open>pa\<close>: its memory \<open>t\<close> and its kernel stack are mapped to frames in use.\<close>

definition running :: "hw \<Rightarrow> nat \<Rightarrow> 'a kstate_scheme \<Rightarrow> pcb_ptr \<Rightarrow> pcb \<Rightarrow> pte list \<Rightarrow> bool" where
  "running H kb s pa c t \<longleftrightarrow> regions_ok H kb \<and> kb + kstack_pages H \<le> NUM_PAGES_REGION1 H \<and> MAX_PT_LEN H = NUM_PAGES_REGION1 H
     \<and> vm_enabled s = 1 \<and> frames_inv H s \<and> kb + kstack_pages H \<le> length (region0_pt s)
     \<and> current_process s = Some pa \<and> pcbs s pa = Some c \<and> ptbr1 s = region1_pt c
     \<and> (\<exists>p. region1_pt c = Some p \<and> page_tables s p = Some t) \<and> length t = NUM_PAGES_REGION1 H
     \<and> (\<forall>k < length t. valid (t ! k) \<longrightarrow> and (prot (t ! k)) (PROT_READ H) = PROT_READ H \<and> unat (pfn (t ! k)) \<in> used_frames H s)
     \<and> (\<forall>k < kstack_pages H. valid (region0_pt s ! (kb + k)) \<and> and (prot (region0_pt s ! (kb + k))) (PROT_READ H) = PROT_READ H
          \<and> unat (pfn (region0_pt s ! (kb + k))) \<in> used_frames H s)"

text \<open>The heap finds memory for the child: a control block, a page table and the table of a kernel stack.\<close>

definition child_memory :: "hw \<Rightarrow> env \<Rightarrow> 'a kstate_scheme \<Rightarrow> pcb_ptr \<Rightarrow> pt_ptr \<Rightarrow> pt_ptr \<Rightarrow> bool" where
  "child_memory H e s ch q ks \<longleftrightarrow> m_pcb (e_pcb e) = Some ch \<and> pcbs s ch = None \<and> m_pt (e_pcb e) = Some q \<and> page_tables s q = None
     \<and> e_stack e = Some ks \<and> page_tables s ks = None \<and> ks \<noteq> q \<and> kstack_pages H \<le> length (e_stack_junk e)"

definition mapped_pages :: "pte list \<Rightarrow> nat set" where
  "mapped_pages t = {k. k < length t \<and> valid (t ! k)}"

lemma fork_child_split:
  "fork_child H e pa u s = (do { (child, s) \<leftarrow> create_pcb H (e_pcb e) s; s \<leftarrow> add_child pa child s;
        s \<leftarrow> upd_pcb child (\<lambda>c. c\<lparr>should_fork := False\<rparr>) s;
        s \<leftarrow> upd_pcb child (\<lambda>c. c\<lparr>user_context := u\<rparr>) s; Some (child, s) })
     \<bind> (\<lambda>(child, s). do {
        s \<leftarrow> CopyPageTable H pa child s;
        (r, s) \<leftarrow> InitializeKernelStack H (e_stack e) (e_stack_junk e) s;
        case r of Halted \<Rightarrow> Some (Halted, s)
        | Ret ks \<Rightarrow> do { s \<leftarrow> upd_pcb child (\<lambda>c. c\<lparr>kernel_stack := Some ks\<rparr>) s; c \<leftarrow> child; Some (Ret c, s) } })"
  by (simp add: fork_child_def split_def bind_assoc cong: run.case_cong)

lemma fork_child_ok:
  fixes s :: kernel
  assumes run: "running H kb s pa c t" and mem: "child_memory H e s ch q ks"
    and inv: "pcb_ok s Q" "family_ok (pcbs s) Q" and kids: "Q (Children pa) = Some kids"
    and room: "card (used_frames H s) + card (mapped_pages t) + kstack_pages H \<le> NUM_VPN H"
  shows "\<exists>s' u' v g U. fork_child H e (Some pa) u s = Some (Ret ch, s') \<and> same_machine kb s s'
    \<and> pcbs s' = (pcbs s)(ch \<mapsto> (fork_pcb (e_pcb e) pa u)\<lparr>kernel_stack := Some ks\<rparr>)
    \<and> pcb_ok s' (Q(Children ch \<mapsto> [], Children pa \<mapsto> kids @ [ChildNode ch]))
    \<and> family_ok (pcbs s') (Q(Children ch \<mapsto> [], Children pa \<mapsto> kids @ [ChildNode ch]))
    \<and> page_tables s' = (page_tables s)(q \<mapsto> u', ks \<mapsto> v)
    \<and> pages_copied H (mapped_pages t) t (replicate (MAX_PT_LEN H) zero_pte) u' (used_frames H s) U (pmem s) (pmem s')
    \<and> length v = kstack_pages H \<and> (\<forall>k < kstack_pages H. v ! k = rw_pte H (g k)) \<and> inj_on g {..<kstack_pages H}
    \<and> g ` {..<kstack_pages H} \<inter> U = {} \<and> used_frames H s' = U \<union> g ` {..<kstack_pages H}"
proof -
  let ?x = "fork_pcb (e_pcb e) pa u" and ?Q = "Q(Children ch \<mapsto> [], Children pa \<mapsto> kids @ [ChildNode ch])"
  let ?A = "mapped_pages t" and ?N = "kstack_pages H" and ?z = "replicate (MAX_PT_LEN H) zero_pte"
  note r = run [unfolded running_def]
  have m: "m_pcb (e_pcb e) = Some ch" "pcbs s ch = None" "m_pt (e_pcb e) = Some q" "page_tables s q = None"
    "e_stack e = Some ks" "page_tables s ks = None" "ks \<noteq> q" "?N \<le> length (e_stack_junk e)"
    using mem by (simp_all add: child_memory_def)
  obtain p where p: "region1_pt c = Some p" "page_tables s p = Some t" using r by blast
  have pa: "pcbs s pa = Some c" "pa \<noteq> ch" and pq: "p \<noteq> q" "p \<noteq> ks" using r m p by auto
  have hw: "ERROR H < 0" "NUM_VPN H \<le> 2 ^ 24" using r by (auto simp: regions_ok_def dest: hw_okD(1,7))
  obtain h where h: "(do { (child, s) \<leftarrow> create_pcb H (e_pcb e) s; s \<leftarrow> add_child (Some pa) child s;
        s \<leftarrow> upd_pcb child (\<lambda>c. c\<lparr>should_fork := False\<rparr>) s;
        s \<leftarrow> upd_pcb child (\<lambda>c. c\<lparr>user_context := u\<rparr>) s; Some (child, s) })
      = Some (Some ch, s\<lparr>lists := h, pcbs := (pcbs s)(ch \<mapsto> ?x), page_tables := fresh_table H (e_pcb e) (page_tables s)\<rparr>)"
    "sched_inv h ((pcbs s)(ch \<mapsto> ?x)) ?Q" "family_ok ((pcbs s)(ch \<mapsto> ?x)) ?Q"
    using new_child_ok [OF inv m(1,2) pa(1) kids, of H u] by (elim exE conjE) (rule that)
  define s1 where "s1 = s\<lparr>lists := h, pcbs := (pcbs s)(ch \<mapsto> ?x), page_tables := fresh_table H (e_pcb e) (page_tables s)\<rparr>"
  have T1: "page_tables s1 = (page_tables s)(q \<mapsto> ?z)" using m by (simp add: s1_def fresh_table_def)
  have s1: "same_machine kb s s1" "used_frames H s1 = used_frames H s" "pmem s1 = pmem s" "pcbs s1 = (pcbs s)(ch \<mapsto> ?x)" "lists s1 = h"
    by (simp_all add: s1_def same_machine_def used_frames_def)
  have "\<exists>s' u'. CopyPageTable H (Some pa) (Some ch) s1 = Some s' \<and> same_objects kb s1 s' \<and> page_tables s' = (page_tables s1)(q \<mapsto> u')
    \<and> pages_copied H ?A t ?z u' (used_frames H s1) (used_frames H s') (pmem s1) (pmem s')"
  proof (rule copy_address_space [where c = c and d = ?x and p = p])
    show "kb \<le> length (region0_pt s1)" "frames_inv H s1" "ptbr1 s1 = Some p"
      using r p s1(1) by (simp_all add: same_machine_def frames_inv_def)
    show "\<forall>k \<in> ?A. and (prot (t ! k)) (PROT_READ H) = PROT_READ H \<and> unat (pfn (t ! k)) \<in> used_frames H s1"
      using r unfolding s1(2) mapped_pages_def by blast
    show "card (used_frames H s1) + card ?A \<le> NUM_VPN H" using room unfolding s1(2) by simp
  qed (use r m p pa pq T1 s1(4) in \<open>simp_all add: mapped_pages_def\<close>)
  then obtain s2 u' where s2: "CopyPageTable H (Some pa) (Some ch) s1 = Some s2" "same_objects kb s1 s2"
    "page_tables s2 = (page_tables s)(q \<mapsto> u')"
    "pages_copied H ?A t ?z u' (used_frames H s) (used_frames H s2) (pmem s) (pmem s2)"
    unfolding T1 s1(2,3) fun_upd_upd by (elim exE conjE) (rule that)
  have sm2: "same_machine kb s s2" by (rule same_machine_trans [OF s1(1) same_objects_machine [OF s2(2)]])
  have U2: "card (used_frames H s2) + ?N \<le> NUM_VPN H"
  proof -
    obtain f where f: "inj_on f ?A" "used_frames H s2 = used_frames H s \<union> f ` ?A"
      using s2(4) unfolding pages_copied_def by blast
    have "card (used_frames H s2) \<le> card (used_frames H s) + card ?A"
      unfolding f(2) by (rule order_trans [OF card_Un_le]) (simp add: card_image f(1))
    then show ?thesis using room by simp
  qed
  have "frames_inv H s2" "vm_enabled s2 = 1" using r sm2 by (simp_all add: same_machine_def frames_inv_def)
  from InitializeKernelStack_ok [OF this(1) hw m(8) U2 this(2), of ks] obtain v bm g where
    v: "InitializeKernelStack H (Some ks) (e_stack_junk e) s2
        = Some (Ret ks, s2\<lparr>page_tables := (page_tables s2)(ks \<mapsto> v), frame_bitMap := bm\<rparr>)"
      "length v = ?N" "length bm = length (frame_bitMap s2)" "\<forall>k < ?N. v ! k = rw_pte H (g k)" "inj_on g {..<?N}"
      "g ` {..<?N} \<inter> used_frames H s2 = {}"
      "used_frames H (s2\<lparr>page_tables := (page_tables s2)(ks \<mapsto> v), frame_bitMap := bm\<rparr>) = used_frames H s2 \<union> g ` {..<?N}"
    by (elim exE conjE) (rule that)
  define s3 where "s3 = s2\<lparr>page_tables := (page_tables s2)(ks \<mapsto> v), frame_bitMap := bm\<rparr>"
  define s4 where "s4 = s3\<lparr>pcbs := (pcbs s)(ch \<mapsto> ?x\<lparr>kernel_stack := Some ks\<rparr>)\<rparr>"
  have P3: "pcbs s3 = (pcbs s)(ch \<mapsto> ?x)" "lists s3 = h" using s2(2) s1(4,5) by (simp_all add: s3_def same_objects_def)
  have "upd_pcb (Some ch) (\<lambda>c. c\<lparr>kernel_stack := Some ks\<rparr>) s3 = Some s4" by (simp add: upd_pcb_def P3 s4_def)
  then have run: "fork_child H e (Some pa) u s = Some (Ret ch, s4)"
    unfolding fork_child_split h(1) s1_def [symmetric] using s2(1) v(1) [folded s3_def] by (simp add: m(5))
  have same: "same_machine kb s s4" using sm2 v(3) by (simp add: same_machine_def s4_def s3_def)
  have "sched_inv h ((pcbs s)(ch \<mapsto> ?x\<lparr>kernel_stack := Some ks\<rparr>)) ?Q"
    using sched_inv_same_state [OF h(2), of ch ?x "?x\<lparr>kernel_stack := Some ks\<rparr>"] by simp
  then have ok: "pcb_ok s4 ?Q" by (simp add: pcb_ok_def s4_def P3(2))
  have fam: "family_ok (pcbs s4) ?Q" using h(3) unfolding family_ok_def by (simp add: s4_def)
  have T4: "page_tables s4 = (page_tables s)(q \<mapsto> u', ks \<mapsto> v)" by (simp add: s4_def s3_def s2(3))
  have U4: "used_frames H s4 = used_frames H s2 \<union> g ` {..<?N}" using v(7) by (simp add: s4_def s3_def used_frames_def)
  have M4: "pages_copied H ?A t ?z u' (used_frames H s) (used_frames H s2) (pmem s) (pmem s4)" using s2(4) by (simp add: s4_def s3_def)
  have P4: "pcbs s4 = (pcbs s)(ch \<mapsto> ?x\<lparr>kernel_stack := Some ks\<rparr>)" by (simp add: s4_def)
  show ?thesis
    by (intro exI [of _ s4] exI [of _ u'] exI [of _ v] exI [of _ g] exI [of _ "used_frames H s2"]
          conjI run same P4 ok fam T4 M4 v(2,4-6) U4)
qed

text \<open>\<open>KernelContextSwitch(KCCopy, child)\<close>: the child's kernel stack becomes a copy of the current one.\<close>

lemma KCCopy_ok:
  fixes s :: "'a kstate_scheme"
  assumes H: "regions_ok H kb" "kb + kstack_pages H \<le> NUM_PAGES_REGION1 H" "kb + kstack_pages H \<le> length (region0_pt s)"
    and x: "pcbs s ch = Some x" "kernel_stack x = Some ks" "page_tables s ks = Some v" "length v = kstack_pages H"
    and v: "\<forall>k < kstack_pages H. v ! k = rw_pte H (g k)" "inj_on g {..<kstack_pages H}" "g ` {..<kstack_pages H} \<inter> U = {}"
      "g ` {..<kstack_pages H} \<subseteq> used_frames H s"
    and st: "\<forall>k < kstack_pages H. valid (region0_pt s ! (kb + k)) \<and> and (prot (region0_pt s ! (kb + k))) (PROT_READ H) = PROT_READ H
          \<and> unat (pfn (region0_pt s ! (kb + k))) \<in> U"
  shows "\<exists>r m l. KCCopy H kc (Some ch) s = Some (kc, s\<lparr>region0_pt := r, pmem := m, reg_log := l,
        pcbs := (pcbs s)(ch \<mapsto> x\<lparr>kernel_context := kc\<rparr>)\<rparr>)
    \<and> length r = length (region0_pt s) \<and> (\<forall>j. j \<noteq> kb - 1 \<longrightarrow> r ! j = region0_pt s ! j)
    \<and> stack_copied H kb {..<kstack_pages H} g (region0_pt s) (pmem s) m"
proof -
  let ?N = "kstack_pages H" and ?s = "s\<lparr>pcbs := (pcbs s)(ch \<mapsto> x\<lparr>kernel_context := kc\<rparr>)\<rparr>"
  have hw: "hw_ok H" using H(1) by (simp add: regions_ok_def)
  have g24: "g k < 2 ^ 24" if "k < ?N" for k
  proof -
    have "g k < NUM_VPN H" using v(4) that by (auto simp: used_frames_def)
    then show ?thesis using hw_okD(7) [OF hw] by simp
  qed
  have "\<exists>r m l. copy_stack_loop H (Some ks) (int 0) ?N ?s = Some (?s\<lparr>region0_pt := r, pmem := m, reg_log := l\<rparr>)
    \<and> length r = length (region0_pt ?s) \<and> (\<forall>j. j \<noteq> kb - 1 \<longrightarrow> r ! j = region0_pt ?s ! j)
    \<and> stack_copied H kb {0..<0 + ?N} g (region0_pt ?s) (pmem ?s) m"
  proof (rule copy_stack_ok [OF H(1)])
    show "inj_on g {0..<0 + ?N}" using v(2) by (simp add: atLeast0LessThan)
    show "\<forall>k \<in> {0..<0 + ?N}. v ! k = rw_pte H (g k) \<and> g k < 2 ^ 24 \<and> valid (region0_pt ?s ! (kb + k))
        \<and> and (prot (region0_pt ?s ! (kb + k))) (PROT_READ H) = PROT_READ H" using v(1) st g24 by simp
    show "\<forall>k \<in> {0..<0 + ?N}. unat (pfn (region0_pt ?s ! (kb + k))) \<notin> g ` {0..<0 + ?N}"
      using st v(3) by (auto simp: atLeast0LessThan)
  qed (use H x in simp_all)
  then obtain r m l where r: "copy_stack_loop H (Some ks) 0 ?N ?s = Some (?s\<lparr>region0_pt := r, pmem := m, reg_log := l\<rparr>)"
    "length r = length (region0_pt s)" "\<forall>j. j \<noteq> kb - 1 \<longrightarrow> r ! j = region0_pt s ! j"
    "stack_copied H kb {..<?N} g (region0_pt s) (pmem s) m" by (auto simp: atLeast0LessThan)
  have "KCCopy H kc (Some ch) s = Some (kc, WriteRegister W_TLB_FLUSH_KSTACK (?s\<lparr>region0_pt := r, pmem := m, reg_log := l\<rparr>))"
    using x(1,2) r(1) by (simp add: KCCopy_def pcb_access kstack_pages_div [OF hw])
  then show ?thesis using r(2-4)
    by (intro exI [of _ r] exI [of _ m] exI [of _ "l @ [W_TLB_FLUSH_KSTACK]"]) (simp add: WriteRegister_def Let_def)
qed

text \<open>The rest of \<open>SysFork\<close>, from the call of \<open>KernelContextSwitch\<close> on.\<close>

lemma fork_rest_ok:
  fixes s :: kernel
  assumes H: "regions_ok H kb" "kb + kstack_pages H \<le> NUM_PAGES_REGION1 H" "kb + kstack_pages H \<le> length (region0_pt s)"
    and x: "pcbs s ch = Some x" "state x = PROCESS_DEFAULT" "kernel_stack x = Some ks" "page_tables s ks = Some v"
    and v: "length v = kstack_pages H" "\<forall>k < kstack_pages H. v ! k = rw_pte H (g k)" "inj_on g {..<kstack_pages H}"
      "g ` {..<kstack_pages H} \<inter> U = {}" "g ` {..<kstack_pages H} \<subseteq> used_frames H s"
    and st: "\<forall>k < kstack_pages H. valid (region0_pt s ! (kb + k)) \<and> and (prot (region0_pt s ! (kb + k))) (PROT_READ H) = PROT_READ H
          \<and> unat (pfn (region0_pt s ! (kb + k))) \<in> U"
    and inv: "pcb_ok s Q" "family_ok (pcbs s) Q" and rs: "Q ReadyQ = Some rs"
  shows "\<exists>s'. (do { (k, s) \<leftarrow> KCCopy H (K_Fork ch) (Some ch) s; fork_end ch u s }) = Some (set_reg 0 (word_of_int (pid x)) u, s')
    \<and> same_machine kb s s' \<and> pcbs s' = (pcbs s)(ch \<mapsto> x\<lparr>kernel_context := K_Fork ch, state := PROCESS_READY\<rparr>)
    \<and> pcb_ok s' (Q(ReadyQ \<mapsto> rs @ [QueueNode ch])) \<and> family_ok (pcbs s') (Q(ReadyQ \<mapsto> rs @ [QueueNode ch]))
    \<and> page_tables s' = page_tables s \<and> used_frames H s' = used_frames H s
    \<and> stack_copied H kb {..<kstack_pages H} g (region0_pt s) (pmem s) (pmem s')"
proof -
  let ?y = "x\<lparr>kernel_context := K_Fork ch\<rparr>" and ?z = "x\<lparr>kernel_context := K_Fork ch, state := PROCESS_READY\<rparr>"
  obtain r m l where cp: "KCCopy H (K_Fork ch) (Some ch) s = Some (K_Fork ch, s\<lparr>region0_pt := r, pmem := m, reg_log := l,
        pcbs := (pcbs s)(ch \<mapsto> ?y)\<rparr>)"
    "length r = length (region0_pt s)" "\<forall>j. j \<noteq> kb - 1 \<longrightarrow> r ! j = region0_pt s ! j"
    "stack_copied H kb {..<kstack_pages H} g (region0_pt s) (pmem s) m"
    using KCCopy_ok [OF H x(1,3,4) v st, of "K_Fork ch"] by (elim exE conjE) (rule that)
  define s2 where "s2 = s\<lparr>region0_pt := r, pmem := m, reg_log := l, pcbs := (pcbs s)(ch \<mapsto> ?y)\<rparr>"
  have s2: "sched_inv (lists s2) (pcbs s2) Q" "pcbs s2 ch = Some ?y" "state ?y = PROCESS_DEFAULT" "state_queues (state ?z) ReadyQ"
    using sched_inv_same_state [OF inv(1) [unfolded pcb_ok_def] x(1), of ?y] x(2) by (simp_all add: s2_def)
  obtain h where h: "add_to_ready_queue (Some ch) s2 = Some (s2\<lparr>pcbs := (pcbs s2)(ch \<mapsto> ?z), lists := h\<rparr>)"
      "sched_inv h ((pcbs s2)(ch \<mapsto> ?z)) (Q(ReadyQ \<mapsto> rs @ [QueueNode ch]))"
    using queue_add_ok [where f = "\<lambda>c. c\<lparr>state := PROCESS_READY\<rparr>", OF s2(1-3) rs s2(4), folded add_to_ready_queue_def]
    by (elim exE conjE) (rule that)
  define s3 where "s3 = s2\<lparr>pcbs := (pcbs s2)(ch \<mapsto> ?z), lists := h\<rparr>"
  have P: "pcbs s3 = (pcbs s)(ch \<mapsto> ?z)" by (simp add: s3_def s2_def)
  have run: "(do { (k, s) \<leftarrow> KCCopy H (K_Fork ch) (Some ch) s; fork_end ch u s }) = Some (set_reg 0 (word_of_int (pid x)) u, s3)"
    using cp(1) [folded s2_def] h(1) [folded s3_def] by (simp add: fork_end_def P)
  have same: "same_machine kb s s3" using cp(2,3) by (simp add: same_machine_def s3_def s2_def)
  have ok: "pcb_ok s3 (Q(ReadyQ \<mapsto> rs @ [QueueNode ch]))" using h(2) by (simp add: pcb_ok_def s3_def)
  have fam: "family_ok (pcbs s3) (Q(ReadyQ \<mapsto> rs @ [QueueNode ch]))"
    using inv(2) x(1) unfolding P family_ok_def by (auto simp: in_q_def)
  have rest: "page_tables s3 = page_tables s" "used_frames H s3 = used_frames H s" "pmem s3 = m"
    by (simp_all add: s3_def s2_def used_frames_def)
  show ?thesis by (intro exI [of _ s3] conjI run same P ok fam rest(1,2) cp(4) [folded rest(3)])
qed

lemma pages_copied_kept:
  assumes c: "pages_copied H M t u u' U U' m m'" and same: "\<forall>f \<in> U'. m'' f = m' f"
  shows "\<exists>f. inj_on f M \<and> f ` M \<inter> U = {} \<and> U' = U \<union> f ` M \<and> (\<forall>k \<in> U. m'' k = m k) \<and> length u' = length u
    \<and> (\<forall>k \<in> M. u' ! k = \<lparr>valid = True, prot = prot (t ! k), pfn = word_of_nat (f k)\<rparr>
         \<and> (\<forall>x < 2 ^ PAGESHIFT H. m'' (f k) x = m (unat (pfn (t ! k))) x))
    \<and> (\<forall>k < length u. k \<notin> M \<longrightarrow> u' ! k = u ! k)"
proof -
  obtain f where f: "inj_on f M" "f ` M \<inter> U = {}" "U' = U \<union> f ` M" "\<forall>k. k \<notin> f ` M \<longrightarrow> m' k = m k"
    "\<forall>k \<in> M. u' ! k = \<lparr>valid = True, prot = prot (t ! k), pfn = word_of_nat (f k)\<rparr>
      \<and> (\<forall>x < 2 ^ PAGESHIFT H. m' (f k) x = m (unat (pfn (t ! k))) x)"
    and u: "length u' = length u" "\<forall>k < length u. k \<notin> M \<longrightarrow> u' ! k = u ! k"
    using c unfolding pages_copied_def by (elim exE conjE) (rule that)
  have "m'' k = m k" if "k \<in> U" for k
  proof -
    have "k \<notin> f ` M" "k \<in> U'" using f(2,3) that by blast+
    then show ?thesis using f(4) same by simp
  qed
  moreover have "m'' (f k) = m' (f k)" if "k \<in> M" for k using same f(3) that by blast
  ultimately show ?thesis using f(1-3,5) u by (intro exI [of _ f]) simp
qed

text \<open>The child's memory after both copies.\<close>

lemma fork_memory:
  assumes c: "pages_copied H (mapped_pages t) t (replicate n zero_pte) u' U U1 m m1" "length t = n"
    and g: "g ` K \<inter> U1 = {}" "stack_copied H kb K g r m1 m2" and src: "\<forall>k \<in> K. unat (pfn (r ! (kb + k))) \<in> U"
  shows "\<exists>f. inj_on f (mapped_pages t) \<and> f ` mapped_pages t \<inter> g ` K = {} \<and> (f ` mapped_pages t \<union> g ` K) \<inter> U = {}
    \<and> U1 = U \<union> f ` mapped_pages t \<and> length u' = n
    \<and> (\<forall>k < n. if valid (t ! k)
        then u' ! k = \<lparr>valid = True, prot = prot (t ! k), pfn = word_of_nat (f k)\<rparr>
          \<and> (\<forall>x < 2 ^ PAGESHIFT H. m2 (f k) x = m (unat (pfn (t ! k))) x)
        else u' ! k = zero_pte)
    \<and> (\<forall>k \<in> K. \<forall>x < 2 ^ PAGESHIFT H. m2 (g k) x = m (unat (pfn (r ! (kb + k)))) x) \<and> (\<forall>k \<in> U. m2 k = m k)"
proof -
  have "\<forall>f \<in> U1. m2 f = m1 f" using g unfolding stack_copied_def by blast
  from pages_copied_kept [OF c(1) this] obtain f where
    f: "inj_on f (mapped_pages t)" "f ` mapped_pages t \<inter> U = {}" "U1 = U \<union> f ` mapped_pages t" "\<forall>k \<in> U. m2 k = m k"
      "length u' = length (replicate n zero_pte)"
      "\<forall>k \<in> mapped_pages t. u' ! k = \<lparr>valid = True, prot = prot (t ! k), pfn = word_of_nat (f k)\<rparr>
         \<and> (\<forall>x < 2 ^ PAGESHIFT H. m2 (f k) x = m (unat (pfn (t ! k))) x)"
      "\<forall>k < length (replicate n zero_pte). k \<notin> mapped_pages t \<longrightarrow> u' ! k = replicate n zero_pte ! k"
    by (elim exE conjE) (rule that)
  have m1: "\<forall>k \<in> U. m1 k = m k" using f(2) c(1) unfolding pages_copied_def by blast
  have "\<forall>k \<in> K. \<forall>x < 2 ^ PAGESHIFT H. m2 (g k) x = m (unat (pfn (r ! (kb + k)))) x"
    using g(2) src m1 unfolding stack_copied_def by simp
  moreover have "f ` mapped_pages t \<inter> g ` K = {}" "(f ` mapped_pages t \<union> g ` K) \<inter> U = {}" using f(2,3) g(1) by blast+
  moreover have "\<forall>k < n. if valid (t ! k)
        then u' ! k = \<lparr>valid = True, prot = prot (t ! k), pfn = word_of_nat (f k)\<rparr>
          \<and> (\<forall>x < 2 ^ PAGESHIFT H. m2 (f k) x = m (unat (pfn (t ! k))) x)
        else u' ! k = zero_pte"
    using f(6,7) c(2) by (auto simp: mapped_pages_def)
  ultimately show ?thesis using f(1,3,4,5) by (intro exI [of _ f] conjI) simp_all
qed

text \<open>
  C10: \<open>Fork\<close> makes a copy of the calling process. When the heap finds memory for the child's
  objects and there are enough free frames, the child is a new process with the parent's user
  context, resumes inside \<open>SysFork\<close>, is the last child of its parent and the last process of the
  ready queue. Every page the parent has mapped is mapped in the child with the same protection
  and the same bytes, and so is every page of the kernel stack, all in frames of their own that
  were free before. The parent gets the child's pid as the result; its memory, the other
  processes, the queues and all other kernel objects are as before.
\<close>

theorem fork_creates_child:
  fixes s :: kernel
  assumes "running H kb s pa c t" "should_fork c" "child_memory H e s ch q ks" "e_switch e"
    "pcb_ok s Q" "family_ok (pcbs s) Q" "Q (Children pa) = Some kids" "Q ReadyQ = Some rs"
    "card (used_frames H s) + card (mapped_pages t) + kstack_pages H \<le> NUM_VPN H"
  shows "\<exists>s' u' v f g Q'. SysFork H e u s = Some (Return (set_reg 0 (word_of_int (m_pid (e_pcb e))) u), s')
    \<and> pcbs s' = (pcbs s)(ch \<mapsto> (fresh_pcb (e_pcb e))\<lparr>parent := Some pa, should_fork := False, user_context := u,
          kernel_stack := Some ks, kernel_context := K_Fork ch, state := PROCESS_READY\<rparr>)
    \<and> Q' = Q(Children ch \<mapsto> [], Children pa \<mapsto> kids @ [ChildNode ch], ReadyQ \<mapsto> rs @ [QueueNode ch])
    \<and> pcb_ok s' Q' \<and> family_ok (pcbs s') Q' \<and> same_machine kb s s'
    \<and> page_tables s' = (page_tables s)(q \<mapsto> u', ks \<mapsto> v) \<and> length u' = MAX_PT_LEN H \<and> length v = kstack_pages H
    \<and> (\<forall>k < MAX_PT_LEN H. if valid (t ! k)
        then u' ! k = \<lparr>valid = True, prot = prot (t ! k), pfn = word_of_nat (f k)\<rparr>
          \<and> (\<forall>x < 2 ^ PAGESHIFT H. pmem s' (f k) x = pmem s (unat (pfn (t ! k))) x)
        else u' ! k = zero_pte)
    \<and> (\<forall>k < kstack_pages H. v ! k = rw_pte H (g k)
          \<and> (\<forall>x < 2 ^ PAGESHIFT H. pmem s' (g k) x = pmem s (unat (pfn (region0_pt s ! (kb + k)))) x))
    \<and> inj_on f (mapped_pages t) \<and> inj_on g {..<kstack_pages H} \<and> f ` mapped_pages t \<inter> g ` {..<kstack_pages H} = {}
    \<and> (f ` mapped_pages t \<union> g ` {..<kstack_pages H}) \<inter> used_frames H s = {}
    \<and> used_frames H s' = used_frames H s \<union> f ` mapped_pages t \<union> g ` {..<kstack_pages H}
    \<and> (\<forall>k \<in> used_frames H s. pmem s' k = pmem s k)"
proof -
  let ?N = "kstack_pages H" and ?x = "(fork_pcb (e_pcb e) pa u)\<lparr>kernel_stack := Some ks\<rparr>" and ?A = "mapped_pages t"
  let ?Q = "Q(Children ch \<mapsto> [], Children pa \<mapsto> kids @ [ChildNode ch])"
  note r = assms(1) [unfolded running_def]
  obtain s1 u' v g U where s1: "fork_child H e (Some pa) u s = Some (Ret ch, s1)" "same_machine kb s s1"
    "pcbs s1 = (pcbs s)(ch \<mapsto> ?x)" "pcb_ok s1 ?Q" "family_ok (pcbs s1) ?Q" "page_tables s1 = (page_tables s)(q \<mapsto> u', ks \<mapsto> v)"
    "pages_copied H ?A t (replicate (MAX_PT_LEN H) zero_pte) u' (used_frames H s) U (pmem s) (pmem s1)"
    "length v = ?N" "\<forall>k < ?N. v ! k = rw_pte H (g k)" "inj_on g {..<?N}" "g ` {..<?N} \<inter> U = {}" "used_frames H s1 = U \<union> g ` {..<?N}"
    using fork_child_ok [OF assms(1,3,5,6,7,9), of u] by (elim exE conjE) (rule that)
  have U: "used_frames H s \<subseteq> U" using s1(7) unfolding pages_copied_def by blast
  have "0 < kb" using r by (simp add: regions_ok_def)
  then have "kb + k \<noteq> kb - 1" for k by simp
  then have r0: "region0_pt s1 ! (kb + k) = region0_pt s ! (kb + k)" for k using s1(2) by (simp add: same_machine_def)
  have src: "\<forall>k < ?N. valid (region0_pt s1 ! (kb + k)) \<and> and (prot (region0_pt s1 ! (kb + k))) (PROT_READ H) = PROT_READ H
      \<and> unat (pfn (region0_pt s1 ! (kb + k))) \<in> U" unfolding r0 using r U by blast
  have "pcbs s1 ch = Some ?x" "state ?x = PROCESS_DEFAULT" "kernel_stack ?x = Some ks" "page_tables s1 ks = Some v"
    "kb + ?N \<le> length (region0_pt s1)" "?Q ReadyQ = Some rs" "g ` {..<?N} \<subseteq> used_frames H s1"
    using s1(2,3,6,12) r assms(8) by (simp_all add: same_machine_def)
  note fork_rest_ok [OF _ _ this(5) this(1-4) s1(8-11) this(7) src s1(4,5) this(6), of u]
  then obtain s' where s': "(do { (k, s) \<leftarrow> KCCopy H (K_Fork ch) (Some ch) s1; fork_end ch u s }) = Some (set_reg 0 (word_of_int (pid ?x)) u, s')"
    "same_machine kb s1 s'" "pcbs s' = (pcbs s1)(ch \<mapsto> ?x\<lparr>kernel_context := K_Fork ch, state := PROCESS_READY\<rparr>)"
    "pcb_ok s' (?Q(ReadyQ \<mapsto> rs @ [QueueNode ch]))" "family_ok (pcbs s') (?Q(ReadyQ \<mapsto> rs @ [QueueNode ch]))"
    "page_tables s' = page_tables s1" "used_frames H s' = used_frames H s1"
    "stack_copied H kb {..<?N} g (region0_pt s1) (pmem s1) (pmem s')" using r by blast
  have "\<forall>k \<in> {..<?N}. unat (pfn (region0_pt s1 ! (kb + k))) \<in> used_frames H s" "length t = MAX_PT_LEN H"
    unfolding r0 using r by simp_all
  from fork_memory [OF s1(7) this(2) s1(11) s'(8) this(1)] obtain f where
    f: "inj_on f ?A" "f ` ?A \<inter> g ` {..<?N} = {}" "(f ` ?A \<union> g ` {..<?N}) \<inter> used_frames H s = {}"
      "U = used_frames H s \<union> f ` ?A" "length u' = MAX_PT_LEN H"
      "\<forall>k < MAX_PT_LEN H. if valid (t ! k)
        then u' ! k = \<lparr>valid = True, prot = prot (t ! k), pfn = word_of_nat (f k)\<rparr>
          \<and> (\<forall>x < 2 ^ PAGESHIFT H. pmem s' (f k) x = pmem s (unat (pfn (t ! k))) x)
        else u' ! k = zero_pte"
      "\<forall>k \<in> {..<?N}. \<forall>x < 2 ^ PAGESHIFT H. pmem s' (g k) x = pmem s (unat (pfn (region0_pt s ! (kb + k)))) x"
      "\<forall>k \<in> used_frames H s. pmem s' k = pmem s k"
    unfolding r0 by (elim exE conjE) (rule that)
  have stack: "\<forall>k < ?N. v ! k = rw_pte H (g k)
      \<and> (\<forall>x < 2 ^ PAGESHIFT H. pmem s' (g k) x = pmem s (unat (pfn (region0_pt s ! (kb + k)))) x)"
    using s1(9) f(7) by simp
  have run: "SysFork H e u s = Some (Return (set_reg 0 (word_of_int (m_pid (e_pcb e))) u), s')"
    using r assms(2,4) s1(1) s'(1) by (auto simp: SysFork_def pcb_access split: bind_splits)
  have P: "pcbs s' = (pcbs s)(ch \<mapsto> ?x\<lparr>kernel_context := K_Fork ch, state := PROCESS_READY\<rparr>)" by (simp add: s'(3) s1(3))
  have T: "page_tables s' = (page_tables s)(q \<mapsto> u', ks \<mapsto> v)" "used_frames H s' = used_frames H s \<union> f ` ?A \<union> g ` {..<?N}"
    using s'(6,7) s1(6,12) f(4) by simp_all
  note same = same_machine_trans [OF s1(2) s'(2)]
  show ?thesis
    by (rule exI [of _ s'], rule exI [of _ u'], rule exI [of _ v], rule exI [of _ f], rule exI [of _ g],
        rule exI [of _ "?Q(ReadyQ \<mapsto> rs @ [QueueNode ch])"],
        intro conjI run P [unfolded fork_pcb_def] refl s'(4,5) same T f s1(8,10) stack)
qed

text \<open>Process 1 runs, with two pages in the frames 5 and 6 and its kernel stack in 7 and 8; its copy 2 is ready.\<close>

definition fork_pcbs :: "(pcb_ptr \<times> pcb) list" where
  "fork_pcbs = [(1, blank_pcb\<lparr>pid := 1, state := PROCESS_RUNNING, region1_pt := Some 10, kernel_stack := Some 11\<rparr>),
     (2, blank_pcb\<lparr>pid := 2, state := PROCESS_READY, kernel_context := K_Fork 2, should_fork := False, region1_pt := Some 14,
        kernel_stack := Some 15\<rparr>), (4, blank_pcb)]"

definition fork_system :: kernel where
  "fork_system = (kernel_of (with_objects ((small_system family_nodes two_lists fork_pcbs 1)
     \<lparr>frame_bitMap := replicate 9 1 @ replicate 7 0, region0_pt := replicate 6 zero_pte @ map (rw_pte demo_hw) [7, 8],
      page_tables := [10 \<mapsto> demo_table 8 [5, 6], 11 \<mapsto> demo_table 2 [7, 8], 14 \<mapsto> demo_table 8 [1, 2],
        15 \<mapsto> demo_table 2 [3, 4]], ptbr1 := Some 10,
      idle_process := Some 4\<rparr>) [] Map.empty Map.empty Map.empty))\<lparr>pmem := \<lambda>f k. of_nat (f * 16 + k)\<rparr>"

lemma fork_system_used: "used_frames demo_hw fork_system = {..<9}"
proof -
  have "frame_bitMap fork_system ! n = 0 \<longleftrightarrow> \<not> n < 9" if "n < 16" for n
    using that by (auto simp: fork_system_def nth_append)
  then show ?thesis by (auto simp: used_frames_def)
qed

lemma fork_system_pages: "mapped_pages (demo_table 8 [5, 6]) = {0, 1}" "length (demo_table 8 [5, 6]) = 8"
proof -
  show l: "length (demo_table 8 [5, 6]) = 8" by (simp add: demo_table_def)
  have "valid (demo_table 8 [5, 6] ! k) \<longleftrightarrow> k < 2" if "k < 8" for k
    using that by (auto simp: demo_table_def nth_append nth_Cons' rw_pte_def zero_pte_def)
  then show "mapped_pages (demo_table 8 [5, 6]) = {0, 1}" unfolding mapped_pages_def l by auto
qed

lemma fork_system_ok:
  "running demo_hw 6 fork_system 1 (snd (hd fork_pcbs)) (demo_table 8 [5, 6])"
  "pcb_ok fork_system (map_of two_lists)" "family_ok (pcbs fork_system) (map_of two_lists)"
  "child_memory demo_hw demo_env fork_system 3 12 13"
proof -
  have "system_check family_nodes two_lists fork_pcbs"
    by (simp add: system_check_def two_lists_def fork_pcbs_def family_nodes_def blank_pcb_def idle_state_def)
  from system_check_ok [OF this] show "pcb_ok fork_system (map_of two_lists)" "family_ok (pcbs fork_system) (map_of two_lists)"
    by (simp_all add: pcb_ok_def fork_system_def)
  show "child_memory demo_hw demo_env fork_system 3 12 13"
    by (simp add: child_memory_def demo_env_def fork_system_def fork_pcbs_def)
  have t: "\<forall>k < 8. valid (demo_table 8 [5, 6] ! k) \<longrightarrow> and (prot (demo_table 8 [5, 6] ! k)) 1 = 1
      \<and> unat (pfn (demo_table 8 [5, 6] ! k)) \<in> {..<9}"
    by (auto simp: demo_table_def nth_Cons' nth_append rw_pte_def zero_pte_def)
  have st: "valid (region0_pt fork_system ! (6 + k)) \<and> and (prot (region0_pt fork_system ! (6 + k))) 1 = 1
      \<and> unat (pfn (region0_pt fork_system ! (6 + k))) \<in> {..<9}" if "k < 2" for k
    using less_2_cases [OF that] by (auto simp: fork_system_def nth_append rw_pte_def)
  show "running demo_hw 6 fork_system 1 (snd (hd fork_pcbs)) (demo_table 8 [5, 6])"
    unfolding running_def kstack_pages_demo fork_system_used fork_system_pages(2) demo_hw_simps demo_regions(2)
    using t st by (simp add: demo_regions) (simp add: fork_system_def fork_pcbs_def frames_inv_def)
qed

lemma fork_creates_child_witness:
  "\<exists>s' u' f. SysFork demo_hw demo_env (demo_user 0) fork_system = Some (Return (set_reg 0 3 (demo_user 0)), s')
     \<and> map_option state (pcbs s' 3) = Some PROCESS_READY \<and> page_tables s' 12 = Some u'
     \<and> valid (u' ! 1) \<and> pfn (u' ! 1) = word_of_nat f \<and> f \<notin> {5, 6} \<and> pmem s' f 3 = 99"
proof -
  have p: "should_fork (snd (hd fork_pcbs))" "e_switch demo_env" "map_of two_lists (Children 1) = Some []"
    "map_of two_lists ReadyQ = Some [QueueNode 2]" "m_pid (e_pcb demo_env) = 3"
    "card (used_frames demo_hw fork_system) + card (mapped_pages (demo_table 8 [5, 6])) + kstack_pages demo_hw \<le> NUM_VPN demo_hw"
    by (simp_all add: fork_pcbs_def blank_pcb_def demo_env_def two_lists_def fork_system_used fork_system_pages)
  have t: "valid (demo_table 8 [5, 6] ! 1)" "unat (pfn (demo_table 8 [5, 6] ! 1)) = 6" "pmem fork_system 6 3 = 99"
    by (simp_all add: demo_table_def rw_pte_def fork_system_def)
  from fork_creates_child [OF fork_system_ok(1) p(1) fork_system_ok(4) p(2) fork_system_ok(2,3) p(3,4,6), of "demo_user 0"]
  obtain s' u' v f where r: "SysFork demo_hw demo_env (demo_user 0) fork_system
      = Some (Return (set_reg 0 (word_of_int (m_pid (e_pcb demo_env))) (demo_user 0)), s')"
    "pcbs s' = (pcbs fork_system)(3 \<mapsto> (fresh_pcb (e_pcb demo_env))\<lparr>parent := Some 1, should_fork := False,
       user_context := demo_user 0, kernel_stack := Some 13, kernel_context := K_Fork 3, state := PROCESS_READY\<rparr>)"
    "page_tables s' = (page_tables fork_system)(12 \<mapsto> u', 13 \<mapsto> v)"
    "\<forall>k < MAX_PT_LEN demo_hw. if valid (demo_table 8 [5, 6] ! k)
        then u' ! k = \<lparr>valid = True, prot = prot (demo_table 8 [5, 6] ! k), pfn = word_of_nat (f k)\<rparr>
          \<and> (\<forall>x < 2 ^ PAGESHIFT demo_hw. pmem s' (f k) x = pmem fork_system (unat (pfn (demo_table 8 [5, 6] ! k))) x)
        else u' ! k = zero_pte"
    "\<exists>g. (f ` mapped_pages (demo_table 8 [5, 6]) \<union> g ` {..<kstack_pages demo_hw}) \<inter> used_frames demo_hw fork_system = {}"
    by (elim exE conjE) (rule that, (assumption | rule exI)+)
  have "f 1 \<notin> {..<9}" using r(5) by (auto simp: fork_system_pages fork_system_used)
  then show ?thesis using r(1-3) spec [OF r(4), of 1] t p(5) by (intro exI [of _ s'] exI [of _ u'] exI [of _ "f 1"]) simp
qed

text \<open>
  C11: What becomes of the child of a \<open>Fork\<close>. When it is switched to for the first time, it runs
  on its own copy of the kernel stack and in its own address space, and it leaves the kernel with
  its own pid as the result of \<open>Fork\<close>, not with 0; the ready queue loses just its entry, although
  \<open>SysFork\<close> tries to add it again. Its flag \<open>should_fork\<close> is still clear, so that the first
  \<open>Fork\<close> it calls itself returns 0 and makes no process, whatever the environment supplies.
\<close>

theorem forked_child_returns_own_pid:
  assumes "pcb_ok s Q" "current_process s = Some p" "pcbs s p = Some c" "next_up s Q ch rs" "pcbs s ch = Some d" "p \<noteq> ch"
    "runnable H s d" "kernel_context d = K_Fork ch" "\<not> should_fork d"
  shows "\<exists>s'. complete H u0 (reschedule H True k u s) = Some (Ret (set_reg 0 (word_of_int (pid d)) u0), s')
    \<and> pcb_ok s' (Q(ReadyQ \<mapsto> rs)) \<and> current_process s' = Some ch \<and> ptbr1 s' = region1_pt d \<and> region0_pt s' = stack_mapped H s d
    \<and> (\<forall>e v. \<exists>s''. SysFork H e v s' = Some (Return (set_reg 0 0 v), s'') \<and> dom (pcbs s'') = dom (pcbs s'))"
proof -
  obtain s' where s': "schedule H True k u s = Some (Some (kernel_context d), s')" "pcb_ok s' (Q(ReadyQ \<mapsto> rs))"
    "current_process s' = Some ch"
    "pcbs s' = (pcbs s)(p \<mapsto> c\<lparr>user_context := u, kernel_context := k\<rparr>, ch \<mapsto> d\<lparr>run_time := 0, state := PROCESS_RUNNING\<rparr>)"
    "ptbr1 s' = region1_pt d" "region0_pt s' = stack_mapped H s d"
    using schedule_ok [OF assms(1-7), of k u] by blast
  have ch: "pcbs s' ch = Some (d\<lparr>run_time := 0, state := PROCESS_RUNNING\<rparr>)" by (simp add: s'(4))
  have "add_to_ready_queue (Some ch) s' = Some s'"
    unfolding add_to_ready_queue_def by (rule queue_add_busy [OF ch]) simp
  then have "complete H u0 (reschedule H True k u s) = Some (Ret (set_reg 0 (word_of_int (pid d)) u0), s')"
    using s'(1) ch assms(8) by (simp add: reschedule_def complete_def resume_def fork_end_def)
  moreover have "\<exists>s''. SysFork H e v s' = Some (Return (set_reg 0 0 v), s'') \<and> dom (pcbs s'') = dom (pcbs s')" for e v
    using s'(3) ch assms(9) by (auto simp: SysFork_def pcb_access return_value_def)
  ultimately show ?thesis using s'(2,3,5,6) by blast
qed

lemma forked_child_returns_own_pid_witness:
  "\<exists>s'. complete demo_hw (demo_user 0) (reschedule demo_hw True K_Delay (demo_user 5) fork_system)
      = Some (Ret (set_reg 0 2 (demo_user 0)), s') \<and> current_process s' = Some 2
     \<and> (\<exists>s''. SysFork demo_hw demo_env (demo_user 7) s' = Some (Return (set_reg 0 0 (demo_user 7)), s''))"
proof -
  let ?d = "snd (fork_pcbs ! 1)"
  have d: "current_process fork_system = Some 1" "pcbs fork_system 1 = Some (snd (hd fork_pcbs))" "pcbs fork_system 2 = Some ?d"
    "next_up fork_system (map_of two_lists) 2 []" "runnable demo_hw fork_system ?d" "kernel_context ?d = K_Fork 2"
    "\<not> should_fork ?d" "pid ?d = 2"
    by (simp_all add: next_up_def two_lists_def fork_pcbs_def fork_system_def runnable_def
        ADDR_TO_PAGE_NUM_def KSTACK_START_PAGE_def demo_table_def)
  from forked_child_returns_own_pid [OF fork_system_ok(2) d(1,2,4,3) _ d(5-7), of "demo_user 0" K_Delay "demo_user 5"]
  show ?thesis unfolding d(8) by simp blast
qed

end
