(* ===== verification/Machine.thy ===== *)
theory Machine
  imports Sys_Props
begin

text \<open>
  The kernel over time: sequences of clock ticks and of the system calls that return or delay.
  What every reachable state satisfies, and that none of them is stuck.
\<close>

section \<open>The invariant\<close>

text \<open>States in which \<open>schedule\<close> will not choose a process and no tick wakes it.\<close>

definition away :: "state_t \<Rightarrow> bool" where
  "away st \<longleftrightarrow> st = PROCESS_BLOCKED \<or> st = PROCESS_ZOMBIE"

lemma away_simps [simp]:
  "\<not> away PROCESS_DEFAULT" "\<not> away PROCESS_RUNNING" "\<not> away PROCESS_READY" "\<not> away PROCESS_DELAYED"
  "idle_state st \<Longrightarrow> \<not> away st"
  by (auto simp: away_def idle_state_def)

text \<open>All others can be switched to, and have nothing but the return to user mode left to do.\<close>

definition procs_ok :: "hw \<Rightarrow> kernel \<Rightarrow> bool" where
  "procs_ok H s \<longleftrightarrow> (\<forall>q d. pcbs s q = Some d \<and> \<not> away (state d) \<longrightarrow>
     runnable H s d \<and> (current_process s = Some q \<or> plain (kernel_context d)))"

definition idles :: "kernel \<Rightarrow> pcb_ptr option \<Rightarrow> bool" where
  "idles s q \<longleftrightarrow> (\<exists>p c. q = Some p \<and> pcbs s p = Some c \<and> idle_state (state c))"

definition machine_ok :: "hw \<Rightarrow> kernel \<Rightarrow> bool" where
  "machine_ok H s \<longleftrightarrow> (\<exists>Q. pcb_ok s Q) \<and> procs_ok H s \<and> idles s (current_process s) \<and> idles s (idle_process s)"

lemma procs_okD: "procs_ok H s \<Longrightarrow> pcbs s q = Some d \<Longrightarrow> \<not> away (state d) \<Longrightarrow>
    runnable H s d \<and> (current_process s = Some q \<or> plain (kernel_context d))"
  by (simp add: procs_ok_def)

text \<open>
  The time the processes have run, and a process that has lost the processor to the clock: it is
  in no state for which there is a queue, is not running and is not idle.
\<close>

definition ran_at_most :: "int \<Rightarrow> kernel \<Rightarrow> bool" where
  "ran_at_most m s \<longleftrightarrow> 0 \<le> m \<and> (\<forall>p c. pcbs s p = Some c \<longrightarrow> run_time c \<le> m)"

definition lost :: "pcb_ptr \<Rightarrow> kernel \<Rightarrow> bool" where
  "lost x s \<longleftrightarrow> (\<exists>c. pcbs s x = Some c \<and> state c = PROCESS_DEFAULT) \<and> current_process s \<noteq> Some x \<and> idle_process s \<noteq> Some x"

lemma lost_unqueued:
  assumes "lost x s" "pcb_ok s Q"
  shows "QueueNode x \<notin> queued Q"
proof -
  obtain c where "pcbs s x = Some c" "state c = PROCESS_DEFAULT" using assms(1) by (auto simp: lost_def)
  then show ?thesis using sched_inv_idle_unqueued [OF assms(2) [unfolded pcb_ok_def]] by (simp add: idle_state_def)
qed

text \<open>What a step does beside keeping the invariant: \<open>k\<close> more ticks, and nobody lost comes back.\<close>

definition goes_on :: "hw \<Rightarrow> nat \<Rightarrow> kernel \<Rightarrow> kernel \<Rightarrow> bool" where
  "goes_on H k s s' \<longleftrightarrow> machine_ok H s' \<and> (\<forall>m. ran_at_most m s \<longrightarrow> ran_at_most (m + int k) s') \<and> (\<forall>x. lost x s \<longrightarrow> lost x s')"

lemma goes_on_refl: "machine_ok H s \<Longrightarrow> goes_on H 0 s s"
  by (simp add: goes_on_def)

text \<open>A process as it was, as far as a switch to it is concerned.\<close>

definition alike :: "pcb \<Rightarrow> pcb \<Rightarrow> bool" where
  "alike d0 d \<longleftrightarrow> region1_pt d = region1_pt d0 \<and> kernel_stack d = kernel_stack d0 \<and> kernel_context d = kernel_context d0
     \<and> (\<not> away (state d) \<longrightarrow> \<not> away (state d0))"

lemma runnable_same:
  assumes "page_tables s' = page_tables s" "length (region0_pt s') = length (region0_pt s)"
    "region1_pt d = region1_pt d0" "kernel_stack d = kernel_stack d0"
  shows "runnable H s' d = runnable H s d0"
  using assms by (simp add: runnable_def)

lemma procs_ok_alike:
  assumes "procs_ok H s" "page_tables s' = page_tables s" "length (region0_pt s') = length (region0_pt s)"
    "current_process s' = current_process s" "\<And>q d. pcbs s' q = Some d \<Longrightarrow> \<exists>d0. pcbs s q = Some d0 \<and> alike d0 d"
  shows "procs_ok H s'"
  unfolding procs_ok_def
proof (intro allI impI)
  fix q d assume d: "pcbs s' q = Some d \<and> \<not> away (state d)"
  then obtain d0 where d0: "pcbs s q = Some d0" "alike d0 d" using assms(5) by blast
  then show "runnable H s' d \<and> (current_process s' = Some q \<or> plain (kernel_context d))"
    using procs_okD [OF assms(1) d0(1)] d assms(2-4) runnable_same [of s' s d d0 H] by (auto simp: alike_def)
qed

lemma stack_mapped_length: "runnable H s d \<Longrightarrow> length (stack_mapped H s d) = length (region0_pt s)"
  by (auto simp: runnable_def stack_mapped_def)

section \<open>Switching\<close>

lemma next_up_exists:
  assumes ok: "pcb_ok s Q" and pr: "procs_ok H s" and i: "idles s (idle_process s)"
    and p: "current_process s = Some p" "pcbs s p = Some c" "state c \<noteq> PROCESS_READY"
    and other: "Q ReadyQ \<noteq> Some [] \<or> idle_process s \<noteq> Some p"
  obtains q d rs where "next_up s Q q rs" "pcbs s q = Some d" "p \<noteq> q" "runnable H s d" "plain (kernel_context d)" "\<not> away (state d)"
    "state d = PROCESS_READY \<or> idle_process s = Some q"
proof -
  note si = ok [unfolded pcb_ok_def]
  obtain xs where xs: "Q ReadyQ = Some xs" using sched_inv_queue [OF si, of ReadyQ] by blast
  obtain ys where ys: "xs = map QueueNode ys" using queue_nodes [OF si xs] by blast
  show thesis
  proof (cases ys)
    case Nil
    obtain j b where j: "idle_process s = Some j" "pcbs s j = Some b" "idle_state (state b)" using i by (auto simp: idles_def)
    have "next_up s Q j []" using j xs ys Nil by (simp add: next_up_def)
    moreover have "p \<noteq> j" using other j(1) xs ys Nil by auto
    ultimately show thesis using that [of j "[]" b] procs_okD [OF pr j(2)] j p(1) by auto
  next
    case (Cons q rs)
    have "in_q Q (QueueNode q) ReadyQ" using xs ys Cons by (simp add: in_q_def)
    then obtain d where d: "pcbs s q = Some d" "state d = PROCESS_READY"
      using sched_invD(3) [OF si, of q ReadyQ] by (metis state_queues.simps state_t.exhaust idle_state_queues lref.simps)
    have "next_up s Q q (map QueueNode rs)" using xs ys Cons by (simp add: next_up_def)
    moreover have "p \<noteq> q" using p(2,3) d by auto
    ultimately show thesis using that procs_okD [OF pr d(1)] d p(1) by auto
  qed
qed

lemma reschedule_machine:
  assumes ok: "pcb_ok s Q" and pr: "procs_ok H s" and i: "idles s (idle_process s)"
    and p: "current_process s = Some p" "pcbs s p = Some c" "state c \<noteq> PROCESS_READY"
    and other: "Q ReadyQ \<noteq> Some [] \<or> idle_process s \<noteq> Some p" and k: "plain k"
  shows "\<exists>u' s'. complete H u0 (reschedule H True k u s) = Some (Ret u', s') \<and> goes_on H 0 s s'
    \<and> (idle_process s \<noteq> Some p \<and> state c = PROCESS_DEFAULT \<longrightarrow> lost p s')"
proof -
  obtain q d rs where nx: "next_up s Q q rs" "pcbs s q = Some d" "p \<noteq> q" "runnable H s d" "plain (kernel_context d)" "\<not> away (state d)"
    "state d = PROCESS_READY \<or> idle_process s = Some q"
    using next_up_exists [OF ok pr i p other] .
  let ?c = "c\<lparr>user_context := u, kernel_context := k\<rparr>" and ?d = "d\<lparr>run_time := 0, state := PROCESS_RUNNING\<rparr>"
  obtain s' where s': "complete H u0 (reschedule H True k u s) = Some (Ret (user_context d), s')" "pcb_ok s' (Q(ReadyQ \<mapsto> rs))"
    "same_rest s s'" "current_process s' = Some q" "pcbs s' = (pcbs s)(p \<mapsto> ?c, q \<mapsto> ?d)" "region0_pt s' = stack_mapped H s d"
    using reschedule_ok [OF ok p(1,2) nx(1-5), of u0 k u] by blast
  have len: "length (region0_pt s') = length (region0_pt s)" unfolding s'(6) by (rule stack_mapped_length [OF nx(4)])
  have tab: "page_tables s' = page_tables s" "idle_process s' = idle_process s" using s'(3) by (simp_all add: same_rest_def)
  have "procs_ok H s'" unfolding procs_ok_def
  proof (intro allI impI)
    fix x e assume e: "pcbs s' x = Some e \<and> \<not> away (state e)"
    obtain e0 where e0: "pcbs s x = Some e0" "region1_pt e = region1_pt e0" "kernel_stack e = kernel_stack e0" "\<not> away (state e0)"
      "current_process s' = Some x \<or> x = p \<and> kernel_context e = k \<or> x \<noteq> p \<and> kernel_context e = kernel_context e0"
      using e s'(4,5) p(2) nx(2,3,6) by (auto split: if_splits)
    show "runnable H s' e \<and> (current_process s' = Some x \<or> plain (kernel_context e))"
      using procs_okD [OF pr e0(1,4)] e0(5) k p(1) runnable_same [OF tab(1) len e0(2,3), of H] by auto
  qed
  moreover have "idles s' (current_process s')" using s'(4,5) by (simp add: idles_def idle_state_def)
  moreover have "idles s' (idle_process s')" using i p(2) nx(2) unfolding idles_def tab(2) s'(5) by (auto simp: idle_state_def)
  ultimately have "machine_ok H s'" using s'(2) unfolding machine_ok_def by blast
  moreover have "ran_at_most m s'" if "ran_at_most m s" for m
    using that p(2) unfolding ran_at_most_def s'(5) by simp
  moreover have "lost x s'" if "lost x s" for x
    using that nx(2,7) p(1) unfolding lost_def s'(4,5) tab(2) by auto
  moreover have "lost p s'" if "idle_process s \<noteq> Some p" "state c = PROCESS_DEFAULT"
    using that nx(3) unfolding lost_def s'(4,5) tab(2) by simp
  ultimately show ?thesis using s'(1) unfolding goes_on_def by (intro exI [of _ "user_context d"] exI [of _ s']) simp
qed

section \<open>Ticks and calls\<close>

lemma alike_tick: "\<not> away (state d0) \<Longrightarrow> alike d0 (tick d0)"
  by (simp add: alike_def tick_def)

lemma idles_upd:
  "idles s q \<Longrightarrow> pcbs s p = Some c \<Longrightarrow> idle_state (state c) \<Longrightarrow> idle_state (state c')
    \<Longrightarrow> idles (s\<lparr>pcbs := (pcbs s)(p \<mapsto> c')\<rparr>) q"
  by (auto simp: idles_def)

lemma machine_okD:
  assumes "machine_ok H s"
  obtains Q p c where "pcb_ok s Q" "procs_ok H s" "idles s (idle_process s)" "current_process s = Some p" "pcbs s p = Some c"
    "idle_state (state c)"
  using assms unfolding machine_ok_def idles_def by blast

lemma queue_of_nodes:
  assumes "pcb_ok s Q" "l \<in> {DelayQ, ReadyQ}"
  obtains ps where "Q l = Some (map QueueNode ps)"
proof -
  note si = assms(1) [unfolded pcb_ok_def]
  have "l \<in> dom Q" using sched_invD(2) [OF si] assms(2) by auto
  then obtain xs where xs: "Q l = Some xs" unfolding dom_def mem_Collect_eq not_None_eq by (elim exE)
  moreover obtain ps where "xs = map QueueNode ps" using queue_nodes [OF si, of l xs] assms(2) xs by blast
  ultimately show ?thesis using that by simp
qed

text \<open>The processes and the idle process after a tick that counts the running process's time.\<close>

lemma ticked_procs:
  assumes ok: "pcb_ok s Q" and pr: "procs_ok H s" and id: "idles s (idle_process s)"
    and p: "pcbs s p = Some c" "idle_state (state c)" and ps: "Q DelayQ = Some (map QueueNode ps)"
    and s1: "same_rest s s1" "current_process s1 = current_process s" "region0_pt s1 = region0_pt s"
      "pcbs s1 = (tick_all ps (pcbs s))(p \<mapsto> c\<lparr>run_time := n\<rparr>)"
  shows "procs_ok H s1" "idles s1 (idle_process s1)" "lost x s \<Longrightarrow> x \<noteq> p \<Longrightarrow> lost x s1"
proof -
  have tab: "page_tables s1 = page_tables s" "idle_process s1 = idle_process s" using s1(1) by (simp_all add: same_rest_def)
  have delayed: "state d = PROCESS_DELAYED" if "q \<in> set ps" "pcbs s q = Some d" for q d
  proof -
    have "in_q Q (QueueNode q) DelayQ" using ps that(1) by (simp add: in_q_def)
    then obtain d' where "pcbs s q = Some d'" "state_queues (state d') DelayQ" using sched_invD(3) [OF ok [unfolded pcb_ok_def]] by blast
    then show ?thesis using that(2) by (cases "state d") auto
  qed
  show "procs_ok H s1"
  proof (rule procs_ok_alike [OF pr tab(1) _ s1(2)])
    fix q d assume d: "pcbs s1 q = Some d"
    show "\<exists>d0. pcbs s q = Some d0 \<and> alike d0 d"
    proof (cases "q = p")
      case True
      then show ?thesis using d p(1) s1(4) by (auto simp: alike_def)
    next
      case False
      then have "tick_all ps (pcbs s) q = Some d" using d s1(4) by simp
      then obtain d0 where "pcbs s q = Some d0" "d = (if q \<in> set ps then tick d0 else d0)"
        by (auto simp: tick_all_def split: if_splits)
      then show ?thesis using delayed [of q d0] alike_tick [of d0] by (auto simp: alike_def)
    qed
  qed (simp add: s1(3))
  show "lost x s1" if "lost x s" "x \<noteq> p"
    using that delayed [of x] unfolding lost_def s1(2,4) tab(2) by (auto simp: tick_all_def)
  obtain j b where j: "idle_process s = Some j" "pcbs s j = Some b" "idle_state (state b)" using id by (auto simp: idles_def)
  have "j \<notin> set ps" using delayed [OF _ j(2)] j(3) by (auto simp: idle_state_def)
  then show "idles s1 (idle_process s1)" using j p by (auto simp: idles_def tab(2) s1(4) tick_all_def)
qed

lemma ticked_ran:
  assumes "ran_at_most m s" "pcbs s p = Some c" "pcbs s1 = (tick_all ps (pcbs s))(p \<mapsto> c\<lparr>run_time := run_time c + 1\<rparr>)"
  shows "ran_at_most (m + 1) s1"
proof -
  have m: "0 \<le> m" "\<And>q d. pcbs s q = Some d \<Longrightarrow> run_time d \<le> m" using assms(1) by (auto simp: ran_at_most_def)
  have "run_time d \<le> m + 1" if "pcbs s1 q = Some d" for q d
  proof (cases "q = p")
    case True
    then show ?thesis using that m(2) [OF assms(2)] assms(3) by auto
  next
    case False
    then have "tick_all ps (pcbs s) q = Some d" using that assms(3) by simp
    then obtain d0 where "pcbs s q = Some d0" "run_time d = run_time d0"
      by (auto simp: tick_all_def tick_def split: if_splits)
    then show ?thesis using m(2) by fastforce
  qed
  then show ?thesis using m(1) by (simp add: ran_at_most_def)
qed

text \<open>A tick; when somebody is ready and the time slice is used up, the running process is lost.\<close>

lemma tick_machine:
  assumes m: "machine_ok H s" and e: "e_switch e" and p: "current_process s = Some p" "pcbs s p = Some c"
    and mx: "run_time c < INT_MAX"
  shows "\<exists>u' s'. complete H u0 (clock_handler H e u s) = Some (Ret u', s') \<and> goes_on H 1 s s'
    \<and> (\<forall>Q. pcb_ok s Q \<and> Q ReadyQ \<noteq> Some [] \<and> run_time c + 1 > time_slice c \<and> idle_process s \<noteq> Some p \<longrightarrow> lost p s')"
proof -
  obtain Q where ok: "pcb_ok s Q" and pr: "procs_ok H s" and id: "idles s (idle_process s)" and pi: "idle_state (state c)"
    using machine_okD [OF m] p by (metis option.inject)
  obtain ps where ps: "Q DelayQ = Some (map QueueNode ps)" by (rule queue_of_nodes [OF ok, of DelayQ]) simp_all
  obtain rs where rs: "Q ReadyQ = Some (map QueueNode rs)" by (rule queue_of_nodes [OF ok, of ReadyQ]) simp_all
  let ?c = "c\<lparr>run_time := run_time c + 1\<rparr>" and ?Q = "ticked Q (pcbs s) ps rs"
  let ?due = "run_time c + 1 > time_slice c \<and> (rs \<noteq> [] \<or> filter (due (pcbs s)) ps \<noteq> [])"
  obtain s1 where s1: "clock_handler H e u s = (if ?due then reschedule H (e_switch e) K_Clock u
        (s1\<lparr>pcbs := (pcbs s1)(p \<mapsto> ?c\<lparr>state := PROCESS_DEFAULT\<rparr>)\<rparr>) else Some (Return u, s1))"
    "pcb_ok s1 ?Q" "same_rest s s1" "current_process s1 = current_process s" "region0_pt s1 = region0_pt s"
    "pcbs s1 = (tick_all ps (pcbs s))(p \<mapsto> ?c)"
    using clock_prefix [where Q = Q, OF ok p pi ps rs mx, of H e u] by (elim exE conjE) (rule that)
  note pr1 = ticked_procs(1) [OF ok pr id p(2) pi ps s1(3-6)] and id1 = ticked_procs(2) [OF ok pr id p(2) pi ps s1(3-6)]
  note lost1 = ticked_procs(3) [OF ok pr id p(2) pi ps s1(3-6)] and ran1 = ticked_ran [OF _ p(2) s1(6)]
  have np: "x \<noteq> p" if "lost x s" for x using that p(1) by (auto simp: lost_def)
  have ready: "rs \<noteq> []" if R: "pcb_ok s R" "R ReadyQ \<noteq> Some []" for R
  proof -
    obtain xs where xs: "R ReadyQ = Some (map QueueNode xs)" by (rule queue_of_nodes [OF R(1), of ReadyQ]) simp_all
    have "int (length (map QueueNode xs)) = int (length (map QueueNode rs))"
      using lists_ok_count [OF sched_invD(1) [OF R(1) [unfolded pcb_ok_def]] xs]
        lists_ok_count [OF sched_invD(1) [OF ok [unfolded pcb_ok_def]] rs] by simp
    then show ?thesis using R(2) xs by auto
  qed
  show ?thesis
  proof (cases ?due)
    case False
    have "idles s1 (current_process s1)" using p pi s1(4,6) by (simp add: idles_def)
    then have "machine_ok H s1" using s1(2) pr1 id1 unfolding machine_ok_def by blast
    then have "goes_on H 1 s s1" using ran1 lost1 np unfolding goes_on_def by simp
    moreover have "\<not> (pcb_ok s R \<and> R ReadyQ \<noteq> Some [] \<and> run_time c + 1 > time_slice c)" for R
      using False ready [of R] by blast
    ultimately show ?thesis using s1(1) unfolding if_not_P [OF False] by (auto simp: complete_def)
  next
    case True
    let ?z = "?c\<lparr>state := PROCESS_DEFAULT\<rparr>"
    define s2 where "s2 = s1\<lparr>pcbs := (pcbs s1)(p \<mapsto> ?z)\<rparr>"
    have p1: "pcbs s1 p = Some ?c" by (simp add: s1(6))
    have ok2: "pcb_ok s2 ?Q" unfolding s2_def by (rule pcb_ok_idle_upd [OF s1(2) p1]) (use pi in \<open>simp_all add: idle_state_def\<close>)
    have pr2: "procs_ok H s2" unfolding s2_def
      by (rule procs_ok_alike [OF pr1]) (use p1 pi in \<open>auto simp: alike_def split: if_splits\<close>)
    have id2: "idles s2 (idle_process s2)"
      using idles_upd [OF id1 p1, of ?z] pi by (simp add: s2_def idle_state_def)
    have "?Q ReadyQ \<noteq> Some []" using True by auto
    then have "\<exists>u' s'. complete H u0 (reschedule H True K_Clock u s2) = Some (Ret u', s') \<and> goes_on H 0 s2 s'
        \<and> (idle_process s2 \<noteq> Some p \<and> state ?z = PROCESS_DEFAULT \<longrightarrow> lost p s')"
      using p(1) s1(4) by (intro reschedule_machine [OF ok2 pr2 id2, of p ?z]) (simp_all add: plain_def s2_def)
    then obtain u' s' where s': "complete H u0 (reschedule H True K_Clock u s2) = Some (Ret u', s')" "goes_on H 0 s2 s'"
      "idle_process s2 \<noteq> Some p \<longrightarrow> lost p s'" by auto
    have run: "complete H u0 (clock_handler H e u s) = Some (Ret u', s')"
      using s1(1) s'(1) e unfolding if_P [OF True] s2_def by simp
    have "ran_at_most (m + 1) s2" if "ran_at_most m s" for m
    proof -
      have "run_time ?c \<le> m + 1" using ran1 [OF that] p1 unfolding ran_at_most_def by blast
      then show ?thesis using ran1 [OF that] by (auto simp: ran_at_most_def s2_def split: if_splits)
    qed
    moreover have "lost x s2" if "lost x s" for x
      using lost1 [OF that np [OF that]] np [OF that] by (simp add: lost_def s2_def)
    ultimately have "goes_on H 1 s s'" using s'(2) unfolding goes_on_def by fastforce
    moreover have "idle_process s2 = idle_process s" using s1(3) by (simp add: s2_def same_rest_def)
    ultimately show ?thesis using run s'(3) by (intro exI [of _ u'] exI [of _ s']) simp
  qed
qed

lemma delay_machine:
  assumes m: "machine_ok H s" and e: "e_switch e" and ni: "current_process s \<noteq> idle_process s"
  shows "\<exists>u' s'. complete H u0 (SysDelay H e u s) = Some (Ret u', s') \<and> goes_on H 0 s s'"
proof -
  obtain Q p c where ok: "pcb_ok s Q" and pr: "procs_ok H s" and id: "idles s (idle_process s)"
    and p: "current_process s = Some p" "pcbs s p = Some c" "idle_state (state c)" using machine_okD [OF m] .
  show ?thesis
  proof (cases "int_reg 0 u \<le> 0")
    case True
    then have "SysDelay H e u s = Some (Return (set_reg 0 (if int_reg 0 u < 0 then word_of_int (ERROR H) else 0) u), s)"
      using p by (auto simp: SysDelay_def pcb_access return_value_def)
    then show ?thesis using goes_on_refl [OF m] by (simp add: complete_def)
  next
    case False
    note si = ok [unfolded pcb_ok_def]
    have "DelayQ \<in> dom Q" using sched_invD(2) [OF si] by auto
    then obtain ds where ds: "Q DelayQ = Some ds" unfolding dom_def mem_Collect_eq not_None_eq by (elim exE)
    let ?c = "c\<lparr>state := PROCESS_DEFAULT\<rparr>" and ?f = "\<lambda>c. c\<lparr>state := PROCESS_DELAYED, delay_ticks := int_reg 0 u\<rparr>"
    let ?s = "s\<lparr>pcbs := (pcbs s)(p \<mapsto> ?c)\<rparr>"
    have ok1: "pcb_ok ?s Q" by (rule pcb_ok_idle_upd [OF ok p(2,3)]) (simp add: idle_state_def)
    obtain h where h: "queue_add DelayQ ?f (Some p) ?s = Some (?s\<lparr>pcbs := (pcbs ?s)(p \<mapsto> ?f ?c), lists := h\<rparr>)"
      "sched_inv h ((pcbs ?s)(p \<mapsto> ?f ?c)) (Q(DelayQ \<mapsto> ds @ [QueueNode p]))"
      using queue_add_ok [where Q = Q and f = ?f, OF ok1 [unfolded pcb_ok_def], of p ?c DelayQ ds] ds by auto
    let ?t = "?s\<lparr>pcbs := (pcbs ?s)(p \<mapsto> ?f ?c), lists := h\<rparr>"
    have ok2: "pcb_ok ?t (Q(DelayQ \<mapsto> ds @ [QueueNode p]))" using h(2) by (simp add: pcb_ok_def)
    have pr2: "procs_ok H ?t"
      by (rule procs_ok_alike [OF pr]) (use p in \<open>auto simp: alike_def split: if_splits\<close>)
    have id2: "idles ?t (idle_process ?t)" using id ni p(1) by (auto simp: idles_def)
    have "\<exists>u' s'. complete H u0 (reschedule H True K_Delay (set_reg 0 0 u) ?t) = Some (Ret u', s') \<and> goes_on H 0 ?t s'
        \<and> (idle_process ?t \<noteq> Some p \<and> state (?f ?c) = PROCESS_DEFAULT \<longrightarrow> lost p s')"
      using p(1) ni by (intro reschedule_machine [OF ok2 pr2 id2, of p "?f ?c"]) (simp_all add: plain_def)
    then obtain u' s' where s': "complete H u0 (reschedule H True K_Delay (set_reg 0 0 u) ?t) = Some (Ret u', s')"
      "goes_on H 0 ?t s'" by blast
    have "ran_at_most m ?t" if "ran_at_most m s" for m using that p(2) by (simp add: ran_at_most_def)
    moreover have "lost x ?t" if "lost x s" for x using that p(1) by (auto simp: lost_def)
    ultimately have "goes_on H 0 s s'" using s'(2) unfolding goes_on_def by blast
    moreover have "SysDelay H e u s = reschedule H True K_Delay (set_reg 0 0 u) ?t"
      using p(1,2) h(1) e False by (simp add: SysDelay_def pcb_access add_to_delay_queue_def Let_def)
    ultimately show ?thesis using s'(1) by auto
  qed
qed

lemma getpid_machine:
  assumes m: "machine_ok H s"
  shows "\<exists>u' s'. complete H u0 (SysGetPID H e u s) = Some (Ret u', s') \<and> goes_on H 0 s s'"
proof -
  obtain p c where "current_process s = Some p" "pcbs s p = Some c" using machine_okD [OF m] .
  then show ?thesis using goes_on_refl [OF m] by (simp add: SysGetPID_def pcb_access return_value_def complete_def)
qed

section \<open>Runs\<close>

text \<open>
  A trap taken by the running process, in whatever user context it is and with whatever the
  environment decides, as long as \<open>KernelContextSwitch\<close> does not fail. Idle makes no calls. The
  number is that of the clock ticks.
\<close>

inductive machine_step :: "hw \<Rightarrow> kernel \<Rightarrow> nat \<Rightarrow> kernel \<Rightarrow> bool" for H where
  tick: "complete H u0 (clock_handler H e u s) = Some (Ret u', s') \<Longrightarrow> e_switch e \<Longrightarrow> machine_step H s 1 s'"
| delay: "complete H u0 (SysDelay H e u s) = Some (Ret u', s') \<Longrightarrow> e_switch e \<Longrightarrow> current_process s \<noteq> idle_process s
    \<Longrightarrow> machine_step H s 0 s'"
| getpid: "complete H u0 (SysGetPID H e u s) = Some (Ret u', s') \<Longrightarrow> machine_step H s 0 s'"
| unimplemented: "complete H u0 (SysUnimplemented H e u s) = Some (Ret u', s') \<Longrightarrow> machine_step H s 0 s'"

inductive_cases machine_stepE: "machine_step H s k s'"

text \<open>A tick that has an outcome found the run time below its bound.\<close>

lemma clock_handler_bound:
  assumes m: "machine_ok H s" and p: "current_process s = Some p" "pcbs s p = Some c" and r: "clock_handler H e u s \<noteq> None"
  shows "run_time c < INT_MAX"
proof (rule ccontr)
  assume n: "\<not> run_time c < INT_MAX"
  obtain Q where ok: "pcb_ok s Q" and pi: "idle_state (state c)" using machine_okD [OF m] p by (metis option.inject)
  obtain ps where ps: "Q DelayQ = Some (map QueueNode ps)" by (rule queue_of_nodes [OF ok, of DelayQ]) simp_all
  obtain rs where rs: "Q ReadyQ = Some (map QueueNode rs)" by (rule queue_of_nodes [OF ok, of ReadyQ]) simp_all
  note si = ok [unfolded pcb_ok_def]
  obtain h' where h': "update_delayed_processes H s = Some (s\<lparr>pcbs := tick_all ps (pcbs s), lists := h'\<rparr>)"
    using update_delayed_processes_ok [OF si ps rs, of H] by blast
  have "p \<notin> set ps"
    using sched_inv_idle_unqueued [OF si p(2) pi] queuedI [where Q = Q, OF ps, of "QueueNode p"] by auto
  then have "tick_all ps (pcbs s) p = Some c" using p(2) by (simp add: tick_all_def)
  then have "clock_handler H e u s = None"
    using h' p(1) n by (simp add: clock_handler_def pcb_access Let_def guard_def)
  then show False using r by simp
qed

lemma machine_step_ok:
  assumes "machine_step H s k s'" "machine_ok H s"
  shows "goes_on H k s s'"
  using assms(1)
proof cases
  case (tick u0 e u u')
  obtain p c where p: "current_process s = Some p" "pcbs s p = Some c" using machine_okD [OF assms(2)] .
  have "clock_handler H e u s \<noteq> None"
  proof
    assume "clock_handler H e u s = None"
    then show False using tick(2) by (simp add: complete_def)
  qed
  then show ?thesis
    using tick tick_machine [OF assms(2) tick(3) p clock_handler_bound [OF assms(2) p], of e u u0 u] by auto
next
  case (delay u0 e u u')
  then show ?thesis using delay_machine [OF assms(2), of e u0 u] by auto
next
  case (getpid u0 e u u')
  then show ?thesis using getpid_machine [OF assms(2), of u0 e u] by auto
next
  case (unimplemented u0 e u u')
  then show ?thesis using goes_on_refl [OF assms(2)] by (auto simp: SysUnimplemented_def return_value_def complete_def)
qed

inductive machine_run :: "hw \<Rightarrow> kernel \<Rightarrow> nat \<Rightarrow> kernel \<Rightarrow> bool" for H s0 where
  start: "machine_run H s0 0 s0"
| step: "machine_run H s0 n s \<Longrightarrow> machine_step H s k s' \<Longrightarrow> machine_run H s0 (n + k) s'"

lemma machine_run_ok: "machine_run H s0 n s \<Longrightarrow> machine_ok H s0 \<Longrightarrow> goes_on H n s0 s"
proof (induction rule: machine_run.induct)
  case start
  then show ?case by (rule goes_on_refl)
next
  case (step n s k s')
  have g: "goes_on H n s0 s" "goes_on H k s s'"
    using step.IH [OF step.prems] machine_step_ok [OF step.hyps(2)] by (auto simp: goes_on_def)
  have "ran_at_most (m + int (n + k)) s'" if "ran_at_most m s0" for m
    using g that by (simp add: goes_on_def add.assoc [symmetric])
  then show ?case using g unfolding goes_on_def by blast
qed

section \<open>Properties\<close>

text \<open>
  C22: Preempting a process loses it. When the clock interrupt takes the processor from a process
  other than idle, that process ends in state default, in no queue of the kernel and not running;
  and however many clock ticks and calls of \<open>Delay\<close>, \<open>GetPid\<close> and the unimplemented ones follow,
  it stays so: none of them schedules it again. (Other calls are not covered: the exit of a child
  it had once waited for would put it back into the ready queue, since its waiting flag is never
  cleared.)
\<close>

theorem clock_preemption_loses_process:
  assumes "machine_ok H s" "pcb_ok s Q" "current_process s = Some p" "pcbs s p = Some c" "idle_process s \<noteq> Some p"
    "Q ReadyQ \<noteq> Some []" "run_time c + 1 > time_slice c" "run_time c < INT_MAX" "e_switch e"
  shows "\<exists>u' s'. complete H u0 (clock_handler H e u s) = Some (Ret u', s')
    \<and> (\<forall>n s''. machine_run H s' n s'' \<longrightarrow> current_process s'' \<noteq> Some p \<and> (\<exists>c'. pcbs s'' p = Some c' \<and> state c' = PROCESS_DEFAULT)
        \<and> (\<exists>Q. pcb_ok s'' Q) \<and> (\<forall>Q. pcb_ok s'' Q \<longrightarrow> QueueNode p \<notin> queued Q))"
proof -
  obtain u' s' where s': "complete H u0 (clock_handler H e u s) = Some (Ret u', s')" "goes_on H 1 s s'" "lost p s'"
    using tick_machine [OF assms(1,9,3,4,8), of u0 u] assms(2,5-7) by blast
  have m: "machine_ok H s'" using s'(2) by (simp add: goes_on_def)
  have later: "lost p s''" "\<exists>Q. pcb_ok s'' Q" if "machine_run H s' n s''" for n s''
    using machine_run_ok [OF that m] s'(3) by (auto simp: goes_on_def machine_ok_def)
  have "\<forall>n s''. machine_run H s' n s'' \<longrightarrow> current_process s'' \<noteq> Some p \<and> (\<exists>c'. pcbs s'' p = Some c' \<and> state c' = PROCESS_DEFAULT)
        \<and> (\<exists>Q. pcb_ok s'' Q) \<and> (\<forall>Q. pcb_ok s'' Q \<longrightarrow> QueueNode p \<notin> queued Q)"
  proof (intro allI impI)
    fix n s'' assume r: "machine_run H s' n s''"
    show "current_process s'' \<noteq> Some p \<and> (\<exists>c'. pcbs s'' p = Some c' \<and> state c' = PROCESS_DEFAULT)
        \<and> (\<exists>Q. pcb_ok s'' Q) \<and> (\<forall>Q. pcb_ok s'' Q \<longrightarrow> QueueNode p \<notin> queued Q)"
      using later [OF r] lost_unqueued [OF later(1) [OF r]] unfolding lost_def by blast
  qed
  with s'(1) show ?thesis by blast
qed

text \<open>
  C40: While no process can have run for more than \<open>INT_MAX\<close> ticks (they had run for at most \<open>m\<close>,
  and \<open>n\<close> ticks have followed, with \<open>m + n\<close> below it), and however many calls of \<open>Delay\<close>, \<open>GetPid\<close>
  and the unimplemented ones there were among them, in whatever order, the kernel is in good
  order and goes on: every ready, delayed, blocked or ended process is in exactly one queue, of
  its state, and no other process is in any (not the running one, not idle, and not those that
  the clock has taken the processor from); everyone who may be chosen has its tables; and the
  next tick and the next call have a defined outcome and return to user mode. The run time is
  counted in an \<open>int\<close>, and one tick beyond \<open>INT_MAX\<close> is undefined.
\<close>

theorem kernel_keeps_going:
  assumes "machine_run H s0 n s" "machine_ok H s0" "ran_at_most m s0" "m + int n < INT_MAX" "e_switch e"
  shows "(\<exists>Q. pcb_ok s Q) \<and> idles s (current_process s) \<and> idles s (idle_process s) \<and> procs_ok H s
    \<and> (\<exists>u' s'. complete H u0 (clock_handler H e u s) = Some (Ret u', s') \<and> machine_run H s0 (n + 1) s')
    \<and> (current_process s = idle_process s \<or>
       (\<exists>u' s'. complete H u0 (SysDelay H e u s) = Some (Ret u', s') \<and> machine_run H s0 (n + 0) s'))
    \<and> (\<exists>u' s'. complete H u0 (SysGetPID H e u s) = Some (Ret u', s') \<and> machine_run H s0 (n + 0) s')"
proof -
  have g: "goes_on H n s0 s" using machine_run_ok [OF assms(1,2)] .
  then have m: "machine_ok H s" and r: "ran_at_most (m + int n) s" using assms(3) by (simp_all add: goes_on_def)
  obtain p c where p: "current_process s = Some p" "pcbs s p = Some c" using machine_okD [OF m] .
  have "run_time c \<le> m + int n" using r p(2) by (simp add: ran_at_most_def)
  then have mx: "run_time c < INT_MAX" using assms(4) by simp
  have run: "machine_run H s0 (n + k) s'" if "machine_step H s k s'" for k s' using machine_run.step [OF assms(1) that] .
  have "\<exists>u' s'. complete H u0 (clock_handler H e u s) = Some (Ret u', s') \<and> machine_run H s0 (n + 1) s'"
    using tick_machine [OF m assms(5) p mx, of u0 u] run [OF machine_step.tick] assms(5) by blast
  moreover have "\<exists>u' s'. complete H u0 (SysDelay H e u s) = Some (Ret u', s') \<and> machine_run H s0 (n + 0) s'"
    if "current_process s \<noteq> idle_process s"
    using delay_machine [OF m assms(5) that, of u0 u] run [OF machine_step.delay] assms(5) that by blast
  moreover have "\<exists>u' s'. complete H u0 (SysGetPID H e u s) = Some (Ret u', s') \<and> machine_run H s0 (n + 0) s'"
    using getpid_machine [OF m, of u0 e u] run [OF machine_step.getpid] by blast
  ultimately show ?thesis using m unfolding machine_ok_def by blast
qed

text \<open>Three processes that can all be switched to: 1 runs and has used up its time, 2 is ready, 4 is idle.\<close>

definition machine_pcbs :: "(pcb_ptr \<times> pcb) list" where
  "machine_pcbs = (let t = blank_pcb\<lparr>kernel_context := K_Clock, region1_pt := Some 10, kernel_stack := Some 11\<rparr>
     in [(1, t\<lparr>pid := 1, state := PROCESS_RUNNING, run_time := 4\<rparr>), (2, t\<lparr>pid := 2, state := PROCESS_READY\<rparr>), (4, t)])"

definition machine_system :: kernel where
  "machine_system = kernel_of (with_objects ((small_system family_nodes two_lists machine_pcbs 1)
     \<lparr>page_tables := [10 \<mapsto> demo_table 8 [5, 6], 11 \<mapsto> demo_table 2 [7, 8]], idle_process := Some 4\<rparr>)
     [] Map.empty Map.empty Map.empty)"

lemma machine_system_ok: "machine_ok demo_hw machine_system"
proof -
  have "system_check family_nodes two_lists machine_pcbs"
    by (simp add: system_check_def two_lists_def machine_pcbs_def family_nodes_def blank_pcb_def idle_state_def Let_def)
  from system_check_ok [OF this] have "pcb_ok machine_system (map_of two_lists)" by (simp add: pcb_ok_def machine_system_def)
  moreover have "procs_ok demo_hw machine_system"
    by (auto simp: procs_ok_def machine_system_def machine_pcbs_def runnable_def plain_def kstack_pages_def Let_def
        ADDR_TO_PAGE_NUM_def KSTACK_START_PAGE_def demo_table_def split: if_splits)
  moreover have "idles machine_system (current_process machine_system)" "idles machine_system (idle_process machine_system)"
    by (simp_all add: idles_def machine_system_def machine_pcbs_def idle_state_def Let_def blank_pcb_def)
  ultimately show ?thesis unfolding machine_ok_def by blast
qed

lemma machine_system_pcb_ok: "pcb_ok machine_system (map_of two_lists)"
proof -
  have "system_check family_nodes two_lists machine_pcbs"
    by (simp add: system_check_def two_lists_def machine_pcbs_def family_nodes_def blank_pcb_def idle_state_def Let_def)
  from system_check_ok [OF this] show ?thesis by (simp add: pcb_ok_def machine_system_def)
qed

lemma clock_preemption_loses_process_witness:
  "\<exists>u' s'. complete demo_hw (demo_user 0) (clock_handler demo_hw demo_env (demo_user 0) machine_system) = Some (Ret u', s')
     \<and> current_process s' \<noteq> Some 1 \<and> map_option state (pcbs s' 1) = Some PROCESS_DEFAULT"
proof -
  obtain c where c: "pcbs machine_system 1 = Some c" "run_time c = 4" "time_slice c = 4"
    by (simp add: machine_system_def machine_pcbs_def Let_def blank_pcb_def)
  have e: "current_process machine_system = Some 1" "idle_process machine_system \<noteq> Some 1" "e_switch demo_env"
    "map_of two_lists ReadyQ \<noteq> Some []" "run_time c + 1 > time_slice c" "run_time c < INT_MAX"
    using c(2,3) by (simp_all add: machine_system_def demo_env_def two_lists_def INT_MAX_def)
  obtain u' s' where s': "complete demo_hw (demo_user 0) (clock_handler demo_hw demo_env (demo_user 0) machine_system) = Some (Ret u', s')"
    "\<forall>n s''. machine_run demo_hw s' n s'' \<longrightarrow> current_process s'' \<noteq> Some 1
       \<and> (\<exists>c'. pcbs s'' 1 = Some c' \<and> state c' = PROCESS_DEFAULT)
       \<and> (\<exists>Q. pcb_ok s'' Q) \<and> (\<forall>Q. pcb_ok s'' Q \<longrightarrow> QueueNode 1 \<notin> queued Q)"
    using clock_preemption_loses_process [OF machine_system_ok machine_system_pcb_ok e(1) c(1) e(2,4-6,3),
        of "demo_user 0" "demo_user 0"] by blast
  have "current_process s' \<noteq> Some 1 \<and> map_option state (pcbs s' 1) = Some PROCESS_DEFAULT"
    using s'(2) [rule_format, OF machine_run.start] by auto
  with s'(1) show ?thesis by blast
qed

lemma kernel_keeps_going_witness:
  "\<exists>u' s'. complete demo_hw (demo_user 0) (SysDelay demo_hw demo_env (demo_user 3) machine_system) = Some (Ret u', s')
     \<and> machine_run demo_hw machine_system 0 s'"
proof -
  have e: "e_switch demo_env" by (simp add: demo_env_def)
  have ni: "current_process machine_system \<noteq> idle_process machine_system" by (simp add: machine_system_def)
  have r: "ran_at_most 4 machine_system"
    by (auto simp: ran_at_most_def machine_system_def machine_pcbs_def Let_def blank_pcb_def split: if_splits)
  have b: "4 + int 0 < INT_MAX" by (simp add: INT_MAX_def)
  show ?thesis
    using kernel_keeps_going [OF machine_run.start machine_system_ok r b e, of "demo_user 0" "demo_user 3"] ni by simp
qed

end
