(* ===== verification/Exit_Props.thy ===== *)
theory Exit_Props
  imports Sys_Props Sync_Calls
begin

text \<open>
  The end of a process and the parent that waits for it: \<open>Exit\<close>, the traps that end a process,
  and \<open>Wait\<close>, up to the return to user mode.
\<close>

section \<open>The end of a process\<close>

text \<open>The three handlers that end the running process, and the status they end it with.\<close>

definition ends_with :: "hw \<Rightarrow> sys \<Rightarrow> user_context \<Rightarrow> int \<Rightarrow> bool" where
  "ends_with H f u st \<longleftrightarrow> f = SysExit \<and> st = int_reg 0 u \<or> (f = illegal_handler \<or> f = math_handler) \<and> st = ERROR H"

lemma ends_with_run:
  assumes "ends_with H f u st" "ERROR H = -1" "current_process s = Some p" "pcbs s p = Some c"
  shows "\<exists>u'. f H e u s = do {
     s \<leftarrow> terminate_process H (Some p) st s;
     reschedule H (e_switch e) K_Exit u' s }"
proof -
  have "int_reg 0 (set_reg 0 (word_of_int (ERROR H)) u) = ERROR H" using assms(2) by (simp add: int_reg_def set_reg_def)
  then show ?thesis using assms
    by (auto simp: ends_with_def SysExit_def illegal_handler_def math_handler_def pcb_access)
qed

lemma no_zombie_children:
  assumes "pcb_ok s Q" "family_ok (pcbs s) Q" "pcbs s p = Some c"
    "\<forall>a x. pcbs s a = Some x \<and> parent x = Some p \<longrightarrow> state x \<noteq> PROCESS_ZOMBIE"
  obtains cs where "Q (Children p) = Some (map ChildNode cs)" "\<forall>a \<in> set cs. \<not> is_zombie (pcbs s) a"
proof -
  obtain cs where cs: "Q (Children p) = Some (map ChildNode cs)"
    "\<forall>c. c \<in> set cs \<longleftrightarrow> (\<exists>x. pcbs s c = Some x \<and> parent x = Some p)"
    using find_zombie_child_ok [OF assms(1-3)] by blast
  moreover have "\<forall>a \<in> set cs. \<not> is_zombie (pcbs s) a" using cs(2) assms(4) by (fastforce simp: is_zombie_def)
  ultimately show thesis using that by blast
qed

text \<open>
  C7: A process whose parent is not waiting for it (for the other case see the next property),
  that has no zombie (uncollected) children, and that calls \<open>Exit\<close>, executes an illegal
  instruction or makes an arithmetic error ends, with the status it passed or with \<open>ERROR\<close>, and
  the next process runs: the one at the head of the ready queue, or idle. When that one was
  switched out at a point from which it only returns to user mode, and has its page tables, it
  runs in the user context it was saved with, on its own kernel stack and page table. The frames
  of the ended process are free and no others are, and it is a zombie with its status at the end
  of the zombie queue.
\<close>

theorem ended_process_gives_way:
  assumes "pcb_ok s Q" "family_ok (pcbs s) Q" "current_process s = Some p" "pcbs s p = Some c" "idle_state (state c)"
    "parent c \<noteq> Some p" "frames_inv H s" "tables_ok H s c r1 ks" "\<not> parent_waits s c"
    "\<forall>a x. pcbs s a = Some x \<and> parent x = Some p \<longrightarrow> state x \<noteq> PROCESS_ZOMBIE"
    "next_up s Q q rs" "pcbs s q = Some d" "p \<noteq> q" "runnable H s d" "plain (kernel_context d)"
    "kernel_stack d \<noteq> kernel_stack c" "kernel_stack d \<noteq> region1_pt c" "hw_ok H" "e_switch e" "ends_with H f u st"
  shows "\<exists>s' Q' zs z. complete H u0 (f H e u s) = Some (Ret (user_context d), s') \<and> current_process s' = Some q
    \<and> ptbr1 s' = region1_pt d \<and> region0_pt s' = stack_mapped H s d \<and> pcb_ok s' Q' \<and> Q' ReadyQ = Some rs
    \<and> Q ZombieQ = Some zs \<and> Q' ZombieQ = Some (zs @ [QueueNode p])
    \<and> pcbs s' p = Some z \<and> state z = PROCESS_ZOMBIE \<and> exit_code z = st \<and> pid z = pid c \<and> parent z = parent c
    \<and> used_frames H s' = used_frames H s - valid_frames r1 - all_frames ks"
proof -
  obtain cs where cs: "Q (Children p) = Some (map ChildNode cs)" "\<forall>a \<in> set cs. \<not> is_zombie (pcbs s) a"
    using no_zombie_children [OF assms(1,2,4,10)] .
  let ?z = "c\<lparr>exit_code := st, state := PROCESS_ZOMBIE\<rparr>"
  obtain s1 zs t u1 where s1: "terminate_process H (Some p) st s = Some s1"
    "region1_pt c = Some t" "kernel_stack c = Some u1" "pcbs s1 = (orphaned cs (pcbs s))(p \<mapsto> ?z)"
    "Q ZombieQ = Some zs" "pcb_ok s1 (Q(Children p \<mapsto> [], ZombieQ \<mapsto> zs @ [QueueNode p]))"
    "used_frames H s1 = used_frames H s - valid_frames r1 - all_frames ks"
    "page_tables s1 = (page_tables s)(u1 := None, t := None)"
    "current_process s1 = current_process s" "idle_process s1 = idle_process s" "region0_pt s1 = region0_pt s"
    using terminate_zombie [OF assms(1) [unfolded pcb_ok_def] assms(2-6) cs assms(7-9), of st]
    by (elim exE conjE) (rule that)
  let ?Q = "Q(Children p \<mapsto> [], ZombieQ \<mapsto> zs @ [QueueNode p])"
  let ?d = "if q \<in> set cs then d\<lparr>parent := None\<rparr> else d"
  have q1: "pcbs s1 q = Some ?d" "state ?d = state d" "kernel_context ?d = kernel_context d" "region1_pt ?d = region1_pt d"
    "kernel_stack ?d = kernel_stack d" "user_context ?d = user_context d"
    using s1(4) assms(12,13) by (simp_all add: orphaned_def)
  obtain k b where k: "kernel_stack d = Some k" "page_tables s k = Some b" "page_tables s1 k = Some b"
    using assms(14,16,17) s1(2,3,8) by (auto simp: runnable_def)
  have r: "runnable H s1 ?d" "stack_mapped H s1 ?d = stack_mapped H s d"
    using assms(14) k unfolding runnable_def stack_mapped_def q1(4,5) s1(11) by simp_all
  have nx: "next_up s1 ?Q q rs" using assms(11,12) q1 s1(10) by (auto simp: next_up_def)
  obtain u' where u': "f H e u s = reschedule H True K_Exit u' s1"
    using ends_with_run [OF assms(20) hw_okD(1) [OF assms(18)] assms(3,4), of e] s1(1) assms(19) by auto
  have p1: "current_process s1 = Some p" "pcbs s1 p = Some ?z" using s1(4,9) assms(3) by simp_all
  have pl: "plain (kernel_context ?d)" using assms(15) q1(3) by simp
  obtain s' where s': "complete H u0 (reschedule H True K_Exit u' s1) = Some (Ret (user_context d), s')"
    "pcb_ok s' (?Q(ReadyQ \<mapsto> rs))" "same_rest s1 s'" "current_process s' = Some q"
    "pcbs s' = (pcbs s1)(p \<mapsto> ?z\<lparr>user_context := u', kernel_context := K_Exit\<rparr>,
       q \<mapsto> ?d\<lparr>run_time := 0, state := PROCESS_RUNNING\<rparr>)"
    "ptbr1 s' = region1_pt d" "region0_pt s' = stack_mapped H s d"
    using reschedule_ok [OF s1(6) p1 nx q1(1) assms(13) r(1) pl, of u0 K_Exit u'] unfolding q1(4,6) r(2)
    by (elim exE conjE) (rule that)
  have "used_frames H s' = used_frames H s1" using s'(3) by (simp add: same_rest_def used_frames_def)
  then show ?thesis using s' s1(5,7) assms(13) u'
    by (intro exI [of _ s'] exI [of _ "?Q(ReadyQ \<mapsto> rs)"] exI [of _ zs]
        exI [of _ "?z\<lparr>user_context := u', kernel_context := K_Exit\<rparr>"]) simp
qed

text \<open>Process 2 runs, with its parent 1 first in the ready queue.\<close>

definition end_pcbs :: "(pcb_ptr \<times> pcb) list" where
  "end_pcbs = [(1, blank_pcb\<lparr>pid := 1, state := PROCESS_READY, kernel_context := K_Clock, region1_pt := Some 14,
       kernel_stack := Some 15\<rparr>), (2, exiting_pcb),
     (3, blank_pcb\<lparr>pid := 3, state := PROCESS_READY, parent := Some 2\<rparr>), (4, blank_pcb)]"

definition end_system :: kernel where
  "end_system = kernel_of (with_objects ((small_system family_nodes exit_lists end_pcbs 2)
     \<lparr>page_tables := [10 \<mapsto> demo_table 8 [5, 6], 11 \<mapsto> demo_table 2 [7, 8], 14 \<mapsto> demo_table 8 [9],
        15 \<mapsto> demo_table 2 [10, 11]]\<rparr>) [] Map.empty Map.empty Map.empty)"

lemma end_system_ok:
  "pcb_ok end_system (map_of exit_lists)" "family_ok (pcbs end_system) (map_of exit_lists)"
  "current_process end_system = Some 2" "pcbs end_system 2 = Some exiting_pcb" "frames_inv demo_hw end_system"
  "tables_ok demo_hw end_system exiting_pcb (demo_table 8 [5, 6]) (demo_table 2 [7, 8])"
  "\<not> parent_waits end_system exiting_pcb"
  "\<forall>a x. pcbs end_system a = Some x \<and> parent x = Some 2 \<longrightarrow> state x \<noteq> PROCESS_ZOMBIE"
proof -
  have "system_check family_nodes exit_lists end_pcbs"
    by (simp add: system_check_def family_nodes_def exit_lists_def end_pcbs_def exiting_pcb_def blank_pcb_def
        idle_state_def)
  from system_check_ok [OF this] show "pcb_ok end_system (map_of exit_lists)"
    "family_ok (pcbs end_system) (map_of exit_lists)"
    by (simp_all add: pcb_ok_def end_system_def)
  show "frames_inv demo_hw end_system" by (simp add: frames_inv_def end_system_def)
  show "tables_ok demo_hw end_system exiting_pcb (demo_table 8 [5, 6]) (demo_table 2 [7, 8])"
    by (simp add: end_system_def tables_ok_def exiting_pcb_def demo_table_def)
  show "\<not> parent_waits end_system exiting_pcb"
    by (simp add: parent_waits_def end_system_def end_pcbs_def exiting_pcb_def blank_pcb_def)
  show "\<forall>a x. pcbs end_system a = Some x \<and> parent x = Some 2 \<longrightarrow> state x \<noteq> PROCESS_ZOMBIE"
    by (simp add: end_system_def end_pcbs_def exiting_pcb_def blank_pcb_def)
qed (simp_all add: end_system_def end_pcbs_def)

lemma end_system_next:
  "\<exists>d. next_up end_system (map_of exit_lists) 1 [QueueNode 3] \<and> pcbs end_system 1 = Some d \<and> runnable demo_hw end_system d
     \<and> plain (kernel_context d) \<and> kernel_stack d \<noteq> kernel_stack exiting_pcb \<and> kernel_stack d \<noteq> region1_pt exiting_pcb"
  by (simp add: next_up_def exit_lists_def end_pcbs_def end_system_def runnable_def plain_def kstack_pages_def
      ADDR_TO_PAGE_NUM_def KSTACK_START_PAGE_def demo_table_def exiting_pcb_def)

lemma ended_process_gives_way_witness:
  "\<exists>s' z. complete demo_hw (demo_user 0) (math_handler demo_hw demo_env (demo_user 7) end_system)
      = Some (Ret (user_context blank_pcb), s') \<and> current_process s' = Some 1 \<and> pcbs s' 2 = Some z \<and> exit_code z = -1"
proof -
  obtain d where d: "next_up end_system (map_of exit_lists) 1 [QueueNode 3]" "pcbs end_system 1 = Some d"
    "runnable demo_hw end_system d" "plain (kernel_context d)" "kernel_stack d \<noteq> kernel_stack exiting_pcb"
    "kernel_stack d \<noteq> region1_pt exiting_pcb" using end_system_next by blast
  have e: "idle_state (state exiting_pcb)" "parent exiting_pcb \<noteq> Some 2" "e_switch demo_env"
    "ends_with demo_hw math_handler (demo_user 7) (-1)"
    by (simp_all add: exiting_pcb_def idle_state_def demo_env_def ends_with_def)
  obtain s' z where "complete demo_hw (demo_user 0) (math_handler demo_hw demo_env (demo_user 7) end_system)
      = Some (Ret (user_context d), s')" "current_process s' = Some 1" "pcbs s' 2 = Some z" "exit_code z = -1"
    using ended_process_gives_way [OF end_system_ok(1-4) e(1,2) end_system_ok(5-8) d(1,2) _ d(3-6) demo_hw_ok e(3,4),
        of "demo_user 0"] by auto
  moreover have "user_context d = user_context blank_pcb" using d(2) by (auto simp: end_system_def end_pcbs_def)
  ultimately show ?thesis by auto
qed

text \<open>
  C38: When the parent does wait, the call has no defined outcome: the process control block of
  the running process is freed, and \<open>schedule\<close> goes on to save the user context in it.
\<close>

theorem exit_to_waiting_parent_undefined:
  assumes "pcb_ok s Q" "family_ok (pcbs s) Q" "current_process s = Some p" "pcbs s p = Some c"
    "idle_state (state c)" "frames_inv H s" "tables_ok H s c r1 ks"
    "\<forall>a x. pcbs s a = Some x \<and> parent x = Some p \<longrightarrow> state x \<noteq> PROCESS_ZOMBIE"
    "parent c = Some q" "pcbs s q = Some y" "state y = PROCESS_BLOCKED" "waiting_for_children y \<noteq> 0"
    "Q BlockedQ = Some bs" "QueueNode q \<in> set bs" "Q ReadyQ = Some rs" "parent y \<noteq> Some p"
    "regs (user_context y) 0 = a" "a \<noteq> 0" "kints s a \<noteq> None" "hw_ok H" "ends_with H f u st"
  shows "f H e u s = None"
proof -
  obtain s1 where s1: "terminate_process H (Some p) st s = Some s1" "pcbs s1 p = None"
    "current_process s1 = current_process s"
    using terminate_waited [OF assms(1-19), of st] by blast
  obtain u' where "f H e u s = reschedule H (e_switch e) K_Exit u' s1"
    using ends_with_run [OF assms(21) hw_okD(1) [OF assms(20)] assms(3,4), of e] s1(1) by auto
  moreover have "schedule H (e_switch e) K_Exit u' s1 = None"
    using s1(2,3) assms(3) by (simp add: schedule_def pcb_access Let_def)
  ultimately show ?thesis by (simp add: reschedule_def)
qed

lemma exit_to_waiting_parent_undefined_witness:
  "SysExit demo_hw demo_env (demo_user 7) (kernel_of (with_objects wait_system [] Map.empty Map.empty Map.empty)) = None"
proof -
  let ?s = "kernel_of (with_objects wait_system [] Map.empty Map.empty Map.empty)"
  have ok: "pcb_ok ?s (map_of wait_lists)" "family_ok (pcbs ?s) (map_of wait_lists)"
    using wait_system_ok by (simp_all add: pcb_ok_def)
  have p: "current_process ?s = Some 2" "pcbs ?s 2 = Some exiting_pcb" "idle_state (state exiting_pcb)"
    by (simp_all add: wait_system_def wait_pcbs_def exiting_pcb_def idle_state_def)
  have t: "frames_inv demo_hw ?s" "tables_ok demo_hw ?s exiting_pcb (demo_table 8 [5, 6]) (demo_table 2 [7, 8])"
    by (simp_all add: frames_inv_def wait_system_def tables_ok_def exiting_pcb_def demo_table_def)
  have z: "\<forall>a x. pcbs ?s a = Some x \<and> parent x = Some 2 \<longrightarrow> state x \<noteq> PROCESS_ZOMBIE"
    by (simp add: wait_system_def wait_pcbs_def exiting_pcb_def waiting_pcb_def blank_pcb_def)
  have q: "parent exiting_pcb = Some 1" "pcbs ?s 1 = Some waiting_pcb" "state waiting_pcb = PROCESS_BLOCKED"
    "waiting_for_children waiting_pcb \<noteq> 0" "map_of wait_lists BlockedQ = Some [QueueNode 1]"
    "QueueNode 1 \<in> set [QueueNode 1]" "map_of wait_lists ReadyQ = Some [QueueNode 3]"
    "parent waiting_pcb \<noteq> Some 2" "regs (user_context waiting_pcb) 0 = 50" "(50::u32) \<noteq> 0" "kints ?s 50 \<noteq> None"
    by (simp_all add: wait_system_def wait_pcbs_def wait_lists_def waiting_pcb_def blank_pcb_def set_reg_def exiting_pcb_def)
  show ?thesis
    by (rule exit_to_waiting_parent_undefined [OF ok p t z q demo_hw_ok, of SysExit "demo_user 7" "int_reg 0 (demo_user 7)"]) (simp add: ends_with_def)
qed

section \<open>Collecting a child\<close>

text \<open>The first of the zombie children, and where it is.\<close>

lemma first_zombie:
  assumes ok: "pcb_ok s Q" and fam: "family_ok (pcbs s) Q" and p: "pcbs s p = Some y"
    and z: "\<exists>a x. pcbs s a = Some x \<and> parent x = Some p \<and> state x = PROCESS_ZOMBIE"
  obtains z x as bs where "find_zombie_child H (Some p) s = Some (Some z)" "pcbs s z = Some x" "parent x = Some p"
    "state x = PROCESS_ZOMBIE" "Q (Children p) = Some (map ChildNode (as @ z # bs))"
    "\<forall>a \<in> set as. \<exists>x. pcbs s a = Some x \<and> state x \<noteq> PROCESS_ZOMBIE" "z \<notin> set as"
proof -
  obtain cs where cs: "Q (Children p) = Some (map ChildNode cs)"
    "\<forall>c. c \<in> set cs \<longleftrightarrow> (\<exists>x. pcbs s c = Some x \<and> parent x = Some p)"
    "find_zombie_child H (Some p) s = Some (List.find (is_zombie (pcbs s)) cs)"
    using find_zombie_child_ok [OF ok fam p] by blast
  have "\<exists>a \<in> set cs. is_zombie (pcbs s) a" 
  proof -
    obtain a x where "pcbs s a = Some x" "parent x = Some p" "state x = PROCESS_ZOMBIE" using z by blast
    then show ?thesis using cs(2) by (intro bexI [of _ a]) (auto simp: is_zombie_def)
  qed
  then obtain as z bs where sp: "cs = as @ z # bs" "is_zombie (pcbs s) z" "\<forall>a \<in> set as. \<not> is_zombie (pcbs s) a"
    using split_list_first_prop [of cs "is_zombie (pcbs s)"] by blast
  have fd: "List.find (is_zombie (pcbs s)) cs = Some z" unfolding sp(1) using sp(2,3) by (induction as) auto
  obtain x where x: "pcbs s z = Some x" "parent x = Some p" using cs(2) sp(1) by auto
  then have zx: "state x = PROCESS_ZOMBIE" using sp(2) by (simp add: is_zombie_def)
  have live: "\<exists>x. pcbs s a = Some x \<and> state x \<noteq> PROCESS_ZOMBIE" if "a \<in> set as" for a
  proof -
    have "a \<in> set cs" using that sp(1) by simp
    then obtain x where "pcbs s a = Some x" using cs(2) by blast
    then show ?thesis using sp(3) that by (auto simp: is_zombie_def)
  qed
  have nz: "z \<notin> set as" using sp(2,3) by blast
  show thesis by (rule that [OF _ x zx]) (use cs(1,3) fd sp(1) live nz in auto)
qed

lemma without_simps:
  "p \<noteq> z \<Longrightarrow> counts (without z h) (Children p) = counts h (Children p)"
  "p \<noteq> z \<Longrightarrow> nexts (without z h) (Sentinel (Children p)) = nexts h (Sentinel (Children p))"
  "a \<noteq> z \<Longrightarrow> nexts (without z h) (Elem (ChildNode a)) = nexts h (Elem (ChildNode a))"
  by (simp_all add: without_def free_list_def free_elem_def)

text \<open>What \<open>Wait\<close> does with a zombie child.\<close>

lemma wait_collects:
  assumes ok: "pcb_ok s Q" and fam: "family_ok (pcbs s) Q"
    and p: "current_process s = Some p" "pcbs s p = Some y" "parent y \<noteq> Some p"
    and z: "\<exists>a x. pcbs s a = Some x \<and> parent x = Some p \<and> state x = PROCESS_ZOMBIE"
    and st: "regs u 0 \<noteq> 0 \<longrightarrow> placed H (PROT_WRITE H) (regs u 0) 4 loc s \<and> inj_on loc {..<4}" and hw: "hw_ok H"
  shows "\<exists>z x as bs m h zs. find_zombie_child H (Some p) s = Some (Some z) \<and> pcbs s z = Some x \<and> parent x = Some p
    \<and> state x = PROCESS_ZOMBIE \<and> Q (Children p) = Some (map ChildNode (as @ z # bs)) \<and> z \<notin> set as \<and> z \<noteq> p
    \<and> (\<forall>a \<in> set as. \<exists>x. pcbs s a = Some x \<and> state x \<noteq> PROCESS_ZOMBIE)
    \<and> SysWait H e u s = Some (Return (set_reg 0 (word_of_int (pid x)) u),
         s\<lparr>pcbs := (pcbs s)(z := None), lists := without z h, pmem := m\<rparr>)
    \<and> Q ZombieQ = Some zs \<and> lists_ok h (Q(ZombieQ \<mapsto> remove1 (QueueNode z) zs))
    \<and> QueueNode z \<notin> queued (Q(ZombieQ \<mapsto> remove1 (QueueNode z) zs))
    \<and> (if regs u 0 = 0 then m = pmem s else bytes_at m loc 4 = enc_int H (word_of_int (exit_code x))
         \<and> (\<forall>f i. (f, i) \<notin> loc ` {..<4} \<longrightarrow> m f i = pmem s f i))"
proof -
  note si = ok [unfolded pcb_ok_def]
  obtain z x as bs where zx: "find_zombie_child H (Some p) s = Some (Some z)" "pcbs s z = Some x" "parent x = Some p"
    "state x = PROCESS_ZOMBIE" "Q (Children p) = Some (map ChildNode (as @ z # bs))"
    "\<forall>a \<in> set as. \<exists>x. pcbs s a = Some x \<and> state x \<noteq> PROCESS_ZOMBIE" "z \<notin> set as"
    using first_zombie [OF ok fam p(2) z] .
  have zp: "z \<noteq> p" using zx(2,3) p(2,3) by auto
  have "\<not> idle_state (state x)" using zx(4) by (simp add: idle_state_def)
  then obtain l where "in_q Q (QueueNode z) l" "state_queues (state x) l" using sched_inv_position [OF si zx(2)] by blast
  then obtain zs where zs: "Q ZombieQ = Some zs" "QueueNode z \<in> set zs" using zx(4) by (auto simp: in_q_def)
  let ?x = "x\<lparr>state := PROCESS_DEFAULT\<rparr>" and ?Q = "Q(ZombieQ \<mapsto> remove1 (QueueNode z) zs)"
  obtain h where h: "queue_remove ZombieQ PROCESS_ZOMBIE (Some z) s = Some (s\<lparr>pcbs := (pcbs s)(z \<mapsto> ?x), lists := h\<rparr>)"
    "sched_inv h ((pcbs s)(z \<mapsto> ?x)) ?Q"
    using queue_remove_ok [where Q = Q, OF si zx(2,4) zs] by blast
  let ?s1 = "s\<lparr>pcbs := (pcbs s)(z \<mapsto> ?x), lists := h\<rparr>"
  obtain m where m: "regs u 0 \<noteq> 0 \<Longrightarrow> store_int H (regs u 0) (word_of_int (exit_code x)) ?s1 = Some (?s1\<lparr>pmem := m\<rparr>)"
    "if regs u 0 = 0 then m = pmem s else bytes_at m loc 4 = enc_int H (word_of_int (exit_code x))
       \<and> (\<forall>f i. (f, i) \<notin> loc ` {..<4} \<longrightarrow> m f i = pmem s f i)"
  proof (cases "regs u 0 = 0")
    case False
    let ?b = "enc_int H (word_of_int (exit_code x))"
    have l: "length ?b = 4" using hw_okD(9) [OF hw] .
    have "placed H (PROT_WRITE H) (regs u 0) (length ?b) loc ?s1" "inj_on loc {..<length ?b}"
      unfolding l using st False by simp_all
    from store_bytes_placed [OF this] obtain m where m: "store_bytes H (regs u 0) ?b ?s1 = Some (?s1\<lparr>pmem := m\<rparr>)"
      "bytes_at m loc (length ?b) = ?b" "\<forall>f i. (f, i) \<notin> loc ` {..<length ?b} \<longrightarrow> m f i = pmem ?s1 f i"
      by (elim exE conjE) (rule that)
    show thesis
    proof (rule that)
      show "store_int H (regs u 0) (word_of_int (exit_code x)) ?s1 = Some (?s1\<lparr>pmem := m\<rparr>)"
        using m(1) unfolding store_int_def .
      show "if regs u 0 = 0 then m = pmem s else bytes_at m loc 4 = ?b \<and> (\<forall>f i. (f, i) \<notin> loc ` {..<4} \<longrightarrow> m f i = pmem s f i)"
        using m(2,3) False unfolding l by simp
    qed
  qed (use that in simp)
  have ne: "list_is_empty H (Some (Children p)) (lists s) = Some 0"
    using list_is_empty_ok [OF sched_invD(1) [OF si] zx(5)] by simp
  have "(if regs u 0 \<noteq> 0 then store_int H (regs u 0) (word_of_int (exit_code ?x)) ?s1 else Some ?s1) = Some (?s1\<lparr>pmem := m\<rparr>)"
    using m by (cases "regs u 0 = 0") simp_all
  then have "SysWait H e u s = Some (Return (set_reg 0 (word_of_int (pid x)) u),
         s\<lparr>pcbs := (pcbs s)(z := None), lists := without z h, pmem := m\<rparr>)"
    using p(1,2) ne zx(1) h(1) by (simp add: SysWait_def remove_from_zombie_queue_def free_pcb_def return_value_def without_def Let_def)
  moreover have "QueueNode z \<notin> queued ?Q"
    by (rule sched_inv_idle_unqueued [OF h(2), of z ?x]) (simp_all add: idle_state_def)
  ultimately show ?thesis using zx zp zs(1) m(2) sched_invD(1) [OF h(2)] by blast
qed

text \<open>
  C8: \<open>Wait\<close> without children returns \<open>ERROR\<close> and changes nothing. With a child that has already
  ended it returns at once with the pid of the first such child, stores its exit status where
  the caller asked for it, if it did, and nowhere else, takes it out of the zombie queue and
  frees it. No other process changes, and the other queues stay as they are.
\<close>

theorem wait_returns_ended_child:
  assumes "pcb_ok s Q" "family_ok (pcbs s) Q" "current_process s = Some p" "pcbs s p = Some y" "parent y \<noteq> Some p" "hw_ok H"
    "regs u 0 \<noteq> 0 \<longrightarrow> placed H (PROT_WRITE H) (regs u 0) 4 loc s \<and> inj_on loc {..<4}"
    "(\<exists>a x. pcbs s a = Some x \<and> parent x = Some p) \<longrightarrow>
      (\<exists>a x. pcbs s a = Some x \<and> parent x = Some p \<and> state x = PROCESS_ZOMBIE)"
  shows "if \<not> (\<exists>a x. pcbs s a = Some x \<and> parent x = Some p)
    then SysWait H e u s = Some (Return (set_reg 0 (word_of_int (ERROR H)) u), s)
    else \<exists>z x s' zs. find_zombie_child H (Some p) s = Some (Some z) \<and> pcbs s z = Some x \<and> parent x = Some p
      \<and> SysWait H e u s = Some (Return (set_reg 0 (word_of_int (pid x)) u), s')
      \<and> pcbs s' = (pcbs s)(z := None) \<and> current_process s' = Some p
      \<and> (if regs u 0 = 0 then pmem s' = pmem s else bytes_at (pmem s') loc 4 = enc_int H (word_of_int (exit_code x))
           \<and> (\<forall>f i. (f, i) \<notin> loc ` {..<4} \<longrightarrow> pmem s' f i = pmem s f i))
      \<and> Q ZombieQ = Some zs
      \<and> lists_ok (lists s') (Q(ZombieQ \<mapsto> remove1 (QueueNode z) zs, Children z := None, Children p := None))"
proof (cases "\<exists>a x. pcbs s a = Some x \<and> parent x = Some p")
  case False
  obtain cs where cs: "Q (Children p) = Some (map ChildNode cs)"
    "\<forall>c. c \<in> set cs \<longleftrightarrow> (\<exists>x. pcbs s c = Some x \<and> parent x = Some p)"
    using find_zombie_child_ok [OF assms(1,2,4)] by blast
  have "cs = []" using cs(2) False by (cases cs) auto
  then have "list_is_empty H (Some (Children p)) (lists s) = Some 1"
    using list_is_empty_ok [OF sched_invD(1) [OF assms(1) [unfolded pcb_ok_def]] cs(1)] by simp
  then have "SysWait H e u s = Some (Return (set_reg 0 (word_of_int (ERROR H)) u), s)"
    using assms(3,4) by (simp add: SysWait_def return_value_def)
  then show ?thesis using False by simp
next
  case True
  then have "\<exists>a x. pcbs s a = Some x \<and> parent x = Some p \<and> state x = PROCESS_ZOMBIE" using assms(8) by blast
  from wait_collects [OF assms(1-5) this assms(7,6), of e] obtain z x as bs m h zs where
    w: "find_zombie_child H (Some p) s = Some (Some z)" "pcbs s z = Some x" "parent x = Some p"
    "Q (Children p) = Some (map ChildNode (as @ z # bs))"
    "SysWait H e u s = Some (Return (set_reg 0 (word_of_int (pid x)) u),
         s\<lparr>pcbs := (pcbs s)(z := None), lists := without z h, pmem := m\<rparr>)"
    "Q ZombieQ = Some zs" "lists_ok h (Q(ZombieQ \<mapsto> remove1 (QueueNode z) zs))"
    "QueueNode z \<notin> queued (Q(ZombieQ \<mapsto> remove1 (QueueNode z) zs))"
    "if regs u 0 = 0 then m = pmem s else bytes_at m loc 4 = enc_int H (word_of_int (exit_code x))
         \<and> (\<forall>f i. (f, i) \<notin> loc ` {..<4} \<longrightarrow> m f i = pmem s f i)"
    by (elim exE conjE) (rule that)
  let ?s = "s\<lparr>pcbs := (pcbs s)(z := None), lists := without z h, pmem := m\<rparr>"
  have "in_q (Q(ZombieQ \<mapsto> remove1 (QueueNode z) zs)) (ChildNode z) (Children p)" using w(4) by (simp add: in_q_def)
  from without_ok [OF w(7) this w(8)] show ?thesis using True w(1-3,5,6,9) assms(3)
    by (simp only: if_False not_True_eq_False simp_thms) (intro exI [of _ z] exI [of _ x] exI [of _ ?s] exI [of _ zs], simp)
qed

text \<open>The search for the next zombie runs into the freed control block.\<close>

lemma zombie_loop_dangles:
  assumes "lists_ok h Q" "Q (Children p) = Some (map ChildNode (ds @ as @ z # bs))" "z \<notin> set as" "p \<noteq> z"
    "\<forall>a \<in> set as. \<exists>x. pcbs t a = Some x \<and> state x \<noteq> PROCESS_ZOMBIE" "pcbs t z = None" "lists t = without z h"
    "length as < n"
  shows "zombie_loop n (Some (seg_start (map ChildNode (as @ z # bs)) (Sentinel (Children p)))) t = None"
  using assms
proof (induction as arbitrary: ds n)
  case Nil
  then show ?case by (cases n) (simp_all add: seg_start_def)
next
  case (Cons a as)
  obtain k where k: "n = Suc k" using Cons.prems(8) by (cases n) auto
  obtain x where x: "pcbs t a = Some x" "state x \<noteq> PROCESS_ZOMBIE" using Cons.prems(5) by auto
  have az: "a \<noteq> z" using Cons.prems(3) by auto
  have "get_next (Some (Elem (ChildNode a))) h
      = Some (Some (seg_start (map ChildNode (as @ z # bs)) (Sentinel (Children p))))"
    using get_next_ok [OF Cons.prems(1), of "Children p" "map ChildNode ds" "ChildNode a" "map ChildNode (as @ z # bs)"]
      Cons.prems(2) by simp
  then have nx: "get_next (Some (Elem (ChildNode a))) (lists t)
      = Some (Some (seg_start (map ChildNode (as @ z # bs)) (Sentinel (Children p))))"
    unfolding Cons.prems(7) by (simp add: get_next_def without_simps az)
  have "zombie_loop k (Some (seg_start (map ChildNode (as @ z # bs)) (Sentinel (Children p)))) t = None"
    by (rule Cons.IH [of "ds @ [a]"]) (use Cons.prems k in auto)
  then show ?case using k x nx by (simp add: seg_start_def)
qed

text \<open>
  C39: The child that \<open>Wait\<close> has collected and freed stays in its parent's list of children.
  Any later \<open>Wait\<close> of the parent, if no child list and no process has changed since, follows the
  link into the freed control block and has no defined outcome.
\<close>

theorem second_wait_undefined:
  assumes "pcb_ok s Q" "family_ok (pcbs s) Q" "current_process s = Some p" "pcbs s p = Some y" "parent y \<noteq> Some p"
    "\<exists>a x. pcbs s a = Some x \<and> parent x = Some p \<and> state x = PROCESS_ZOMBIE"
    "regs u 0 \<noteq> 0 \<longrightarrow> placed H (PROT_WRITE H) (regs u 0) 4 loc s \<and> inj_on loc {..<4}" "hw_ok H"
    "SysWait H e u s = Some (Return u1, s')"
    "lists t = lists s'" "pcbs t = pcbs s'" "current_process t = current_process s'"
  shows "SysWait H e' u' t = None"
proof -
  from wait_collects [OF assms(1-8), of e] obtain z as bs m h zs where
    w: "z \<noteq> p" "z \<notin> set as" "Q (Children p) = Some (map ChildNode (as @ z # bs))"
    "\<forall>a \<in> set as. \<exists>x. pcbs s a = Some x \<and> state x \<noteq> PROCESS_ZOMBIE"
    "s' = s\<lparr>pcbs := (pcbs s)(z := None), lists := without z h, pmem := m\<rparr>"
    "lists_ok h (Q(ZombieQ \<mapsto> remove1 (QueueNode z) zs))"
    unfolding assms(9) by (elim exE conjE) (rule that, simp_all)
  let ?Q = "Q(ZombieQ \<mapsto> remove1 (QueueNode z) zs)"
  have q: "?Q (Children p) = Some (map ChildNode ([] @ as @ z # bs))" using w(3) by simp
  have t: "lists t = without z h" "pcbs t = (pcbs s)(z := None)" "current_process t = Some p"
    using assms(3,10-12) w(5) by simp_all
  have live: "\<forall>a \<in> set as. \<exists>x. pcbs t a = Some x \<and> state x \<noteq> PROCESS_ZOMBIE" using w(2,4) t(2) by auto
  have c: "counts (lists t) (Children p) = Some (int (length (as @ z # bs)))"
    using lists_ok_count [OF w(6) q] w(1) unfolding t(1) by (simp add: without_simps)
  have ne: "list_is_empty H (Some (Children p)) (lists t) = Some 0" using c by (simp add: list_is_empty_def)
  have "get_next (Some (Sentinel (Children p))) (lists t)
      = Some (Some (seg_start (map ChildNode (as @ z # bs)) (Sentinel (Children p))))"
    using get_first_ok [OF w(6) q] w(1) unfolding t(1) by (simp add: get_next_def without_simps)
  then have pk: "peek H (Some (Children p)) (lists t)
      = Some (Some (seg_start (map ChildNode (as @ z # bs)) (Sentinel (Children p))))"
    using ne by (simp add: peek_def)
  have "zombie_loop (length (as @ z # bs)) (Some (seg_start (map ChildNode (as @ z # bs)) (Sentinel (Children p)))) t = None"
    by (rule zombie_loop_dangles [OF w(6) q w(2) _ live _ t(1)]) (use w(1) t(2) in auto)
  moreover define n nd where "n = length (as @ z # bs)" "nd = seg_start (map ChildNode (as @ z # bs)) (Sentinel (Children p))"
  ultimately have "zombie_loop n (Some nd) t = None" "counts (lists t) (Children p) = Some (int n)"
    "peek H (Some (Children p)) (lists t) = Some (Some nd)" using c pk by (simp_all only:)
  then have "find_zombie_child H (Some p) t = None" using t(2) w(1) assms(4) ne by (simp add: find_zombie_child_def)
  then show ?thesis using t w(1) assms(4) ne by (simp add: SysWait_def Let_def)
qed

text \<open>Process 1, with the ended child 4, waits for it without asking for its status.\<close>

definition parent_kernel :: kernel where
  "parent_kernel = kernel_of (with_objects family_system [] Map.empty Map.empty Map.empty)"

lemma parent_kernel_ok:
  "pcb_ok parent_kernel (map_of family_lists)" "family_ok (pcbs parent_kernel) (map_of family_lists)"
  "current_process parent_kernel = Some 1"
  "\<exists>y. pcbs parent_kernel 1 = Some y \<and> parent y \<noteq> Some 1"
  "\<exists>a x. pcbs parent_kernel a = Some x \<and> parent x = Some 1 \<and> state x = PROCESS_ZOMBIE"
proof -
  show "pcb_ok parent_kernel (map_of family_lists)" "family_ok (pcbs parent_kernel) (map_of family_lists)"
    using family_system_ok by (simp_all add: pcb_ok_def parent_kernel_def)
  show "\<exists>a x. pcbs parent_kernel a = Some x \<and> parent x = Some 1 \<and> state x = PROCESS_ZOMBIE"
    by (intro exI [of _ 4]) (simp add: parent_kernel_def family_system_def family_pcbs_def)
qed (simp_all add: parent_kernel_def family_system_def family_pcbs_def blank_pcb_def)

lemma wait_returns_ended_child_witness:
  "\<exists>s'. SysWait demo_hw demo_env (demo_user 0) parent_kernel = Some (Return (set_reg 0 4 (demo_user 0)), s') \<and> pcbs s' 4 = None"
proof -
  obtain y where y: "pcbs parent_kernel 1 = Some y" "parent y \<noteq> Some 1" using parent_kernel_ok(4) by blast
  have r: "regs (demo_user 0) 0 = 0" by (simp add: demo_user_def)
  have z: "z = 4 \<and> pid x = 4" if "find_zombie_child demo_hw (Some 1) parent_kernel = Some (Some z)"
    "pcbs parent_kernel z = Some x" for z x
  proof -
    have "state x = PROCESS_ZOMBIE"
      using first_zombie [OF parent_kernel_ok(1,2) y(1) parent_kernel_ok(5), of demo_hw] that by (metis option.inject)
    then show ?thesis using that(2)
      by (auto simp: parent_kernel_def family_system_def family_pcbs_def blank_pcb_def split: if_splits)
  qed
  from wait_returns_ended_child [OF parent_kernel_ok(1-3) y demo_hw_ok, of "demo_user 0" "\<lambda>_. (0, 0)" demo_env] r parent_kernel_ok(5)
  obtain z x s' where "find_zombie_child demo_hw (Some 1) parent_kernel = Some (Some z)" "pcbs parent_kernel z = Some x"
    "SysWait demo_hw demo_env (demo_user 0) parent_kernel = Some (Return (set_reg 0 (word_of_int (pid x)) (demo_user 0)), s')"
    "pcbs s' = (pcbs parent_kernel)(z := None)" by (auto split: if_splits)
  with z [of z x] show ?thesis by auto
qed

lemma second_wait_undefined_witness:
  "\<exists>u1 s'. SysWait demo_hw demo_env (demo_user 0) parent_kernel = Some (Return u1, s')
     \<and> SysWait demo_hw demo_env (demo_user 0) s' = None"
proof -
  obtain y where y: "pcbs parent_kernel 1 = Some y" "parent y \<noteq> Some 1" using parent_kernel_ok(4) by blast
  have r: "regs (demo_user 0) 0 \<noteq> 0 \<longrightarrow> placed demo_hw (PROT_WRITE demo_hw) (regs (demo_user 0) 0) 4 (\<lambda>_. (0, 0)) parent_kernel
      \<and> inj_on (\<lambda>_. (0 :: nat, 0 :: nat)) {..<4 :: nat}" by (simp add: demo_user_def)
  from wait_collects [OF parent_kernel_ok(1-3) y parent_kernel_ok(5) r demo_hw_ok, of demo_env]
  obtain u1 s' where w: "SysWait demo_hw demo_env (demo_user 0) parent_kernel = Some (Return u1, s')" by blast
  from second_wait_undefined [OF parent_kernel_ok(1-3) y parent_kernel_ok(5) r demo_hw_ok w refl refl refl, of demo_env "demo_user 0"]
  show ?thesis using w by blast
qed

section \<open>Waiting\<close>

text \<open>
  C9: \<open>Wait\<close> with children none of which has ended blocks the caller, at the end of the blocked
  queue and marked as waiting, and the next process runs. In the caller's saved context
  register 0 points to a fresh cell of the kernel heap, where a child that exits is to
  put its status; the address the caller asked for is kept in its kernel context.
\<close>

theorem wait_blocks_and_switches:
  assumes "pcb_ok s Q" "family_ok (pcbs s) Q" "current_process s = Some p" "pcbs s p = Some c" "idle_state (state c)"
    "\<exists>a x. pcbs s a = Some x \<and> parent x = Some p" "\<not> (\<exists>a x. pcbs s a = Some x \<and> parent x = Some p \<and> state x = PROCESS_ZOMBIE)"
    "Q BlockedQ = Some bs" "next_up s Q q rs" "pcbs s q = Some d" "p \<noteq> q" "runnable H s d" "plain (kernel_context d)"
    "e_switch e" "e_kint e = a" "a \<noteq> 0"
  shows "\<exists>s' c'. complete H u0 (SysWait H e u s) = Some (Ret (user_context d), s') \<and> current_process s' = Some q
    \<and> pcb_ok s' (Q(BlockedQ \<mapsto> bs @ [QueueNode p], ReadyQ \<mapsto> rs)) \<and> kints s' = (kints s)(a \<mapsto> e_kint_junk e)
    \<and> pcbs s' p = Some c' \<and> state c' = PROCESS_BLOCKED \<and> waiting_for_children c' = 1
    \<and> user_context c' = set_reg 0 a u \<and> kernel_context c' = K_Wait (regs u 0) a \<and> pmem s' = pmem s"
proof -
  obtain cs where cs: "Q (Children p) = Some (map ChildNode cs)"
    "\<forall>c. c \<in> set cs \<longleftrightarrow> (\<exists>x. pcbs s c = Some x \<and> parent x = Some p)"
    "find_zombie_child H (Some p) s = Some (List.find (is_zombie (pcbs s)) cs)"
    using find_zombie_child_ok [OF assms(1,2,4)] by blast
  have "cs \<noteq> []" using cs(2) assms(6) by auto
  then have ne: "list_is_empty H (Some (Children p)) (lists s) = Some 0"
    using list_is_empty_ok [OF sched_invD(1) [OF assms(1) [unfolded pcb_ok_def]] cs(1)] by simp
  have "\<not> is_zombie (pcbs s) a" if "a \<in> set cs" for a
    using that cs(2) assms(7) by (auto simp: is_zombie_def split: option.splits)
  then have nz: "find_zombie_child H (Some p) s = Some None" using cs(3) find_None_iff [of "is_zombie (pcbs s)" cs] by auto
  let ?c1 = "c\<lparr>state := PROCESS_DEFAULT\<rparr>" and ?f = "\<lambda>c. c\<lparr>state := PROCESS_BLOCKED\<rparr>"
  let ?c2 = "?c1\<lparr>waiting_for_children := 1\<rparr>"
  let ?s2 = "s\<lparr>kints := (kints s)(a \<mapsto> e_kint_junk e), pcbs := (pcbs s)(p \<mapsto> ?c2)\<rparr>"
  have "pcb_ok (s\<lparr>pcbs := (pcbs s)(p \<mapsto> ?c2)\<rparr>) Q" by (rule pcb_ok_idle_upd [OF assms(1,4,5)]) (simp add: idle_state_def)
  then have ok2: "pcb_ok ?s2 Q" by (simp add: pcb_ok_def)
  have nx: "next_up ?s2 Q q rs" by (rule next_up_cong [OF assms(9)]) (use assms(11) in auto)
  have r: "runnable H ?s2 d" "pcbs ?s2 q = Some d" using assms(10-12) by (simp_all add: runnable_def)
  obtain s1 s' where s1: "queue_add BlockedQ ?f (Some p) ?s2 = Some s1"
    "complete H u0 (reschedule H True (K_Wait (regs u 0) a) (set_reg 0 a u) s1) = Some (Ret (user_context d), s')"
    "pcb_ok s' (Q(BlockedQ \<mapsto> bs @ [QueueNode p], ReadyQ \<mapsto> rs))" "same_rest ?s2 s'" "current_process s' = Some q"
    "pcbs s' = (pcbs ?s2)(p \<mapsto> (?f ?c2)\<lparr>user_context := set_reg 0 a u, kernel_context := K_Wait (regs u 0) a\<rparr>,
        q \<mapsto> d\<lparr>run_time := 0, state := PROCESS_RUNNING\<rparr>)"
    using park_ok [where f = ?f, OF ok2 _ _ _ assms(8) _ _ nx r(2) assms(11) r(1) assms(13), of ?c2 u0 "K_Wait (regs u 0) a" "set_reg 0 a u"]
      assms(3) by auto
  have "SysWait H e u s = reschedule H True (K_Wait (regs u 0) a) (set_reg 0 a u) s1"
    using assms(3,4,14-16) ne nz s1(1) by (simp add: SysWait_def pcb_access add_to_blocked_queue_def Let_def)
  then show ?thesis using s1(2-6) assms(11) by (intro exI [of _ s'] exI) (auto simp: same_rest_def)
qed

text \<open>Process 1 has the children 2, asleep, and 3, ready.\<close>

definition waiting_pcbs :: "(pcb_ptr \<times> pcb) list" where
  "waiting_pcbs = [(1, blank_pcb\<lparr>pid := 1, state := PROCESS_RUNNING\<rparr>),
     (2, blank_pcb\<lparr>pid := 2, state := PROCESS_DELAYED, delay_ticks := 2, parent := Some 1\<rparr>),
     (3, blank_pcb\<lparr>pid := 3, state := PROCESS_READY, parent := Some 1, kernel_context := K_Clock, region1_pt := Some 10,
        kernel_stack := Some 11\<rparr>), (4, blank_pcb)]"

definition waiting_lists :: "(lref \<times> eref list) list" where
  "waiting_lists = [(ReadyQ, [QueueNode 3]), (DelayQ, [QueueNode 2]), (BlockedQ, []), (ZombieQ, []),
     (Children 1, [ChildNode 2, ChildNode 3]), (Children 2, []), (Children 3, []), (Children 4, [])]"

definition waiting_kernel :: kernel where
  "waiting_kernel = kernel_of (with_objects ((small_system family_nodes waiting_lists waiting_pcbs 1)
     \<lparr>page_tables := [10 \<mapsto> demo_table 8 [5, 6], 11 \<mapsto> demo_table 2 [7, 8]]\<rparr>) [] Map.empty Map.empty Map.empty)"

lemma waiting_kernel_ok: "pcb_ok waiting_kernel (map_of waiting_lists)" "family_ok (pcbs waiting_kernel) (map_of waiting_lists)"
proof -
  have "system_check family_nodes waiting_lists waiting_pcbs"
    by (simp add: system_check_def family_nodes_def waiting_lists_def waiting_pcbs_def blank_pcb_def idle_state_def)
  from system_check_ok [OF this] show "pcb_ok waiting_kernel (map_of waiting_lists)"
    "family_ok (pcbs waiting_kernel) (map_of waiting_lists)" by (simp_all add: pcb_ok_def waiting_kernel_def)
qed

lemma wait_blocks_and_switches_witness:
  "\<exists>s' c'. complete demo_hw (demo_user 0) (SysWait demo_hw demo_env (demo_user 9) waiting_kernel)
      = Some (Ret (user_context blank_pcb), s') \<and> current_process s' = Some 3 \<and> pcbs s' 1 = Some c'
      \<and> state c' = PROCESS_BLOCKED \<and> kernel_context c' = K_Wait 9 4"
proof -
  let ?d = "blank_pcb\<lparr>pid := 3, state := PROCESS_READY, parent := Some 1, kernel_context := K_Clock, region1_pt := Some 10,
      kernel_stack := Some 11\<rparr>"
  have p: "current_process waiting_kernel = Some 1"
    "pcbs waiting_kernel 1 = Some (blank_pcb\<lparr>pid := 1, state := PROCESS_RUNNING\<rparr>)"
    "idle_state (state (blank_pcb\<lparr>pid := 1, state := PROCESS_RUNNING\<rparr>))"
    "map_of waiting_lists BlockedQ = Some []" "next_up waiting_kernel (map_of waiting_lists) 3 []"
    "pcbs waiting_kernel 3 = Some ?d" "(1::pcb_ptr) \<noteq> 3" "runnable demo_hw waiting_kernel ?d" "plain (kernel_context ?d)"
    "e_switch demo_env" "e_kint demo_env = 4" "(4::u32) \<noteq> 0"
    by (simp_all add: waiting_kernel_def waiting_pcbs_def waiting_lists_def idle_state_def next_up_def runnable_def plain_def
        kstack_pages_def ADDR_TO_PAGE_NUM_def KSTACK_START_PAGE_def demo_table_def demo_env_def)
  have c: "\<exists>a x. pcbs waiting_kernel a = Some x \<and> parent x = Some 1"
    by (intro exI [of _ 3]) (simp add: p(6))
  have z: "\<not> (\<exists>a x. pcbs waiting_kernel a = Some x \<and> parent x = Some 1 \<and> state x = PROCESS_ZOMBIE)"
    by (simp add: waiting_kernel_def waiting_pcbs_def blank_pcb_def)
  have "regs (demo_user 9) 0 = 9" by (simp add: demo_user_def)
  then show ?thesis
    using wait_blocks_and_switches [OF waiting_kernel_ok p(1-3) c z p(4-12), of "demo_user 0" "demo_user 9"] by auto
qed

end
