(* ===== verification/Boot_Props.thy ===== *)
theory Boot_Props
  imports Boot Sys_Props
begin

text \<open>
  The end of booting: \<open>KernelStart\<close> returns twice, first as idle and then as init.
\<close>

lemma boot_end_first:
  assumes ok: "pcb_ok s Q" and rq: "Q ReadyQ = Some rs" and i: "pcbs s i = Some c" "state c = PROCESS_DEFAULT"
    and j: "pcbs s j = Some d" "idle_state (state d)" "i \<noteq> j" and f: "switch_flag s = 0"
  shows "\<exists>s'. boot_end i j s = Some (user_context d, s') \<and> pcb_ok s' (Q(ReadyQ \<mapsto> rs @ [QueueNode i]))
    \<and> current_process s' = Some j \<and> switch_flag s' = 1 \<and> page_tables s' = page_tables s \<and> region0_pt s' = region0_pt s
    \<and> idle_process s' = idle_process s
    \<and> pcbs s' = (pcbs s)(i \<mapsto> c\<lparr>state := PROCESS_READY\<rparr>, j \<mapsto> d\<lparr>state := PROCESS_RUNNING\<rparr>)"
proof -
  let ?s = "WriteRegister W_TLB_FLUSH_ALL s" and ?f = "\<lambda>c. c\<lparr>state := PROCESS_READY\<rparr>"
  have s: "pcb_ok ?s Q" "pcbs ?s i = Some c" using ok i by (simp_all add: pcb_ok_def)
  obtain h where h: "queue_add ReadyQ ?f (Some i) ?s = Some (?s\<lparr>pcbs := (pcbs ?s)(i \<mapsto> ?f c), lists := h\<rparr>)"
    "sched_inv h ((pcbs ?s)(i \<mapsto> ?f c)) (Q(ReadyQ \<mapsto> rs @ [QueueNode i]))"
    using queue_add_ok [where Q = Q and f = ?f, OF s(1) [unfolded pcb_ok_def] s(2) i(2) rq] by auto
  let ?P = "(pcbs s)(i \<mapsto> ?f c)"
  have inv: "sched_inv h (?P(j \<mapsto> d\<lparr>state := PROCESS_RUNNING\<rparr>)) (Q(ReadyQ \<mapsto> rs @ [QueueNode i]))"
    by (rule sched_inv_idle [where P = ?P and c = d]) (use h(2) j in \<open>simp_all add: idle_state_def\<close>)
  let ?t = "?s\<lparr>pcbs := ?P(j \<mapsto> d\<lparr>state := PROCESS_RUNNING\<rparr>), lists := h, switch_flag := 1, current_process := Some j\<rparr>"
  have "switch_flag ?s = 0" using f by (simp add: WriteRegister_def)
  then have "boot_end i j s = Some (user_context d, ?t)"
    using h(1) j by (simp add: boot_end_def add_to_ready_queue_def SetCurrentProcess_def pcb_access Let_def)
  then show ?thesis using inv by (intro exI [of _ ?t]) (simp add: pcb_ok_def)
qed

lemma boot_end_second:
  assumes f: "switch_flag s = 1" and i: "pcbs s i = Some c" "state c = PROCESS_RUNNING" "region1_pt c = Some t"
  shows "\<exists>s'. boot_end i j s = Some (user_context c, s') \<and> lists s' = lists s \<and> pcbs s' = pcbs s
    \<and> current_process s' = Some i \<and> ptbr1 s' = Some t \<and> region0_pt s' = region0_pt s \<and> idle_process s' = idle_process s"
proof -
  have "switch_flag (WriteRegister W_TLB_FLUSH_ALL s) \<noteq> 0" using f by (simp add: WriteRegister_def)
  moreover have "(pcbs s)(i \<mapsto> c\<lparr>state := PROCESS_RUNNING\<rparr>) = pcbs s" using i(1,2) by (auto simp: fun_eq_iff)
  ultimately show ?thesis using i by (simp add: boot_end_def SetCurrentProcess_def pcb_access)
qed

lemma tick_nobody [simp]: "tick_all [] P = P"
  by (simp add: tick_all_def)

lemma resume_kernel_start: "resume H (K_KernelStart i j) u s = boot_end i j s"
  by (simp add: resume_def)

text \<open>A tick with only \<open>i\<close> ready and nobody delayed.\<close>

lemma idle_tick:
  assumes "pcb_ok s Q" "Q ReadyQ = Some [QueueNode i]" "Q DelayQ = Some []" "current_process s = Some j" "pcbs s j = Some d"
    "idle_state (state d)" "run_time d < INT_MAX"
  shows "\<exists>s1. clock_handler H e u s = (if time_slice d < run_time d + 1
        then reschedule H (e_switch e) K_Clock u (s1\<lparr>pcbs := (pcbs s1)(j \<mapsto> d\<lparr>run_time := run_time d + 1, state := PROCESS_DEFAULT\<rparr>)\<rparr>)
        else Some (Return u, s1))
    \<and> pcb_ok s1 Q \<and> same_rest s s1 \<and> current_process s1 = Some j \<and> region0_pt s1 = region0_pt s
    \<and> pcbs s1 = (pcbs s)(j \<mapsto> d\<lparr>run_time := run_time d + 1\<rparr>)"
proof -
  have q: "Q DelayQ = Some (map QueueNode [])" "Q ReadyQ = Some (map QueueNode [i])" using assms(2,3) by simp_all
  have tk: "ticked Q (pcbs s) [] [i] = Q" using assms(2,3) by (auto simp: fun_eq_iff)
  from clock_prefix [OF assms(1,4-6) q assms(7), of H e u] show ?thesis unfolding tk tick_nobody using assms(4) by simp
qed

text \<open>The switch to init, in the copy of the context of \<open>KernelStart\<close>.\<close>

lemma switch_to_init:
  assumes ok: "pcb_ok s (Q(ReadyQ \<mapsto> [QueueNode i]))" and j: "current_process s = Some j" "pcbs s j = Some d"
    and i: "pcbs s i = Some c" "i \<noteq> j" "kernel_context c = K_KernelStart i j" "runnable H s c" and f: "switch_flag s = 1"
  shows "\<exists>s' c'. complete H u0 (reschedule H True K_Clock u s) = Some (Ret (user_context c), s') \<and> current_process s' = Some i
    \<and> pcb_ok s' (Q(ReadyQ \<mapsto> [])) \<and> ptbr1 s' = region1_pt c \<and> region0_pt s' = stack_mapped H s c
    \<and> pcbs s' i = Some c' \<and> state c' = PROCESS_RUNNING
    \<and> pcbs s' j = Some (d\<lparr>user_context := u, kernel_context := K_Clock\<rparr>)"
proof -
  have nx: "next_up s (Q(ReadyQ \<mapsto> [QueueNode i])) i []" by (simp add: next_up_def)
  let ?i = "c\<lparr>run_time := 0, state := PROCESS_RUNNING\<rparr>"
  obtain s1 where s1: "schedule H True K_Clock u s = Some (Some (K_KernelStart i j), s1)"
    "pcb_ok s1 (Q(ReadyQ \<mapsto> [QueueNode i], ReadyQ \<mapsto> []))" "same_rest s s1" "current_process s1 = Some i"
    "pcbs s1 = (pcbs s)(j \<mapsto> d\<lparr>user_context := u, kernel_context := K_Clock\<rparr>, i \<mapsto> ?i)"
    "region0_pt s1 = stack_mapped H s c"
    using schedule_ok [OF ok j nx i(1) _ i(4), of K_Clock u] i(2,3) by auto
  obtain p where p: "region1_pt c = Some p" using i(4) by (auto simp: runnable_def)
  have b: "switch_flag s1 = 1" "pcbs s1 i = Some ?i" "state ?i = PROCESS_RUNNING" "region1_pt ?i = Some p"
    using s1(3,5) f p by (simp_all add: same_rest_def)
  obtain s2 where s2: "boot_end i j s1 = Some (user_context c, s2)" "lists s2 = lists s1" "pcbs s2 = pcbs s1"
    "current_process s2 = Some i" "ptbr1 s2 = Some p" "region0_pt s2 = region0_pt s1"
    using boot_end_second [OF b, of j] by auto
  have "complete H u0 (reschedule H True K_Clock u s) = Some (Ret (user_context c), s2)"
    using s1(1) s2(1) by (simp add: reschedule_def complete_def resume_kernel_start)
  moreover have "pcb_ok s2 (Q(ReadyQ \<mapsto> []))" using s1(2) s2(2,3) by (simp add: pcb_ok_def)
  ultimately show ?thesis using s1(5,6) s2(3-6) p i(2) by (intro exI [of _ s2] exI [of _ ?i]) simp
qed

text \<open>
  C13: At the end of \<open>KernelStart\<close> the processor returns to idle, with init ready. The first clock
  tick leaves idle running, since its time slice is one tick; at the second one init is switched
  to, and continues in its copy of the kernel context of \<open>KernelStart\<close>, which now returns to
  init's user context: init is running, on its own kernel stack and page table, idle is saved
  where the tick found it, and nobody else is ready.
\<close>

theorem init_runs_from_second_tick:
  assumes "pcb_ok s Q" "Q ReadyQ = Some []" "Q DelayQ = Some []" "pcbs s i = Some c" "state c = PROCESS_DEFAULT"
    "kernel_context c = K_KernelStart i j" "runnable H s c" "pcbs s j = Some d" "idle_state (state d)" "i \<noteq> j"
    "run_time d = 0" "time_slice d = 1" "switch_flag s = 0" "e_switch e"
  shows "\<exists>s1 s2 s3 c3 d3. boot_end i j s = Some (user_context d, s1) \<and> current_process s1 = Some j
    \<and> clock_handler H e u1 s1 = Some (Return u1, s2) \<and> current_process s2 = Some j
    \<and> complete H u0 (clock_handler H e u2 s2) = Some (Ret (user_context c), s3) \<and> current_process s3 = Some i
    \<and> pcb_ok s3 Q \<and> ptbr1 s3 = region1_pt c \<and> region0_pt s3 = stack_mapped H s c
    \<and> pcbs s3 i = Some c3 \<and> state c3 = PROCESS_RUNNING
    \<and> pcbs s3 j = Some d3 \<and> user_context d3 = u2 \<and> kernel_context d3 = K_Clock"
proof -
  define R where "R = Q(ReadyQ \<mapsto> [QueueNode i])"
  let ?c = "c\<lparr>state := PROCESS_READY\<rparr>" and ?d = "d\<lparr>state := PROCESS_RUNNING\<rparr>"
  let ?d3 = "?d\<lparr>run_time := 2, state := PROCESS_DEFAULT\<rparr>"
  obtain s1 where s1: "boot_end i j s = Some (user_context d, s1)" "pcb_ok s1 R" "current_process s1 = Some j"
    "switch_flag s1 = 1" "page_tables s1 = page_tables s" "region0_pt s1 = region0_pt s"
    "pcbs s1 = (pcbs s)(i \<mapsto> ?c, j \<mapsto> ?d)"
    using boot_end_first [OF assms(1,2,4,5,8-10,13)] unfolding append_Nil R_def [symmetric] by blast
  have q: "R ReadyQ = Some [QueueNode i]" "R DelayQ = Some []" using assms(3) by (simp_all add: R_def)
  have d1: "pcbs s1 j = Some ?d" "idle_state (state ?d)" using s1(7) by (simp_all add: idle_state_def)
  obtain s2 where s2: "clock_handler H e u1 s1 = Some (Return u1, s2)" "pcb_ok s2 R" "same_rest s1 s2" "current_process s2 = Some j"
    "region0_pt s2 = region0_pt s" "pcbs s2 = (pcbs s)(i \<mapsto> ?c, j \<mapsto> ?d\<lparr>run_time := 1\<rparr>)"
    using idle_tick [OF s1(2) q s1(3) d1 _, of H e u1] assms(11,12) s1(6,7) by (auto simp: INT_MAX_def)
  have d2: "pcbs s2 j = Some (?d\<lparr>run_time := 1\<rparr>)" "idle_state (state (?d\<lparr>run_time := 1\<rparr>))"
    using s2(6) by (simp_all add: idle_state_def)
  obtain s3 where s3: "clock_handler H e u2 s2 = reschedule H True K_Clock u2 (s3\<lparr>pcbs := (pcbs s3)(j \<mapsto> ?d3)\<rparr>)"
    "pcb_ok s3 R" "same_rest s2 s3" "current_process s3 = Some j" "region0_pt s3 = region0_pt s"
    "pcbs s3 = (pcbs s)(i \<mapsto> ?c, j \<mapsto> ?d\<lparr>run_time := 2\<rparr>)"
    using idle_tick [OF s2(2) q s2(4) d2 _, of H e u2] assms(11,12,14) s2(5,6) by (auto simp: INT_MAX_def)
  let ?t = "s3\<lparr>pcbs := (pcbs s3)(j \<mapsto> ?d3)\<rparr>"
  have d3: "pcbs s3 j = Some (?d\<lparr>run_time := 2\<rparr>)" "idle_state (state (?d\<lparr>run_time := 2\<rparr>))" "idle_state (state ?d3)"
    using s3(6) by (simp_all add: idle_state_def)
  have t: "pcb_ok ?t R" by (rule pcb_ok_idle_upd [OF s3(2) d3])
  have sr: "same_rest s1 s3" using same_rest_trans [OF s2(3) s3(3)] .
  have c: "current_process ?t = Some j" "pcbs ?t j = Some ?d3" "pcbs ?t i = Some ?c" "kernel_context ?c = K_KernelStart i j"
    "runnable H ?t ?c" "stack_mapped H ?t ?c = stack_mapped H s c" "switch_flag ?t = 1"
    using s1(4,5) s3(4-6) assms(6,7,10) sr by (simp_all add: same_rest_def runnable_def stack_mapped_def)
  have Q: "Q(ReadyQ \<mapsto> []) = Q" using assms(2) by auto
  note sw = switch_to_init [OF t [unfolded R_def] c(1-3) assms(10) c(4,5,7), of u0 u2, unfolded c(6) Q]
  from sw obtain s4 c4 where r: "complete H u0 (reschedule H True K_Clock u2 ?t) = Some (Ret (user_context ?c), s4)"
    "current_process s4 = Some i" "pcb_ok s4 Q" "ptbr1 s4 = region1_pt ?c" "region0_pt s4 = stack_mapped H s c"
    "pcbs s4 i = Some c4" "state c4 = PROCESS_RUNNING" "pcbs s4 j = Some (?d3\<lparr>user_context := u2, kernel_context := K_Clock\<rparr>)"
    by (elim exE conjE) (rule that)
  show ?thesis
    by (rule exI [of _ s1], rule exI [of _ s2], rule exI [of _ s4], rule exI [of _ c4],
        rule exI [of _ "?d3\<lparr>user_context := u2, kernel_context := K_Clock\<rparr>"]) (use s1(1,3) s2(1,4) r s3(1) in simp)
qed

text \<open>Init is process 1 and idle process 4.\<close>

definition boot_pcbs :: "(pcb_ptr \<times> pcb) list" where
  "boot_pcbs = [(1, blank_pcb\<lparr>pid := 1, kernel_context := K_KernelStart 1 4, region1_pt := Some 10, kernel_stack := Some 11\<rparr>),
     (4, blank_pcb\<lparr>time_slice := 1\<rparr>)]"

definition boot_lists :: "(lref \<times> eref list) list" where
  "boot_lists = [(ReadyQ, []), (DelayQ, []), (BlockedQ, []), (ZombieQ, []), (Children 1, []), (Children 4, [])]"

definition boot_kernel :: kernel where
  "boot_kernel = (kernel_of (with_objects ((small_system family_nodes boot_lists boot_pcbs 4)
     \<lparr>page_tables := [10 \<mapsto> demo_table 8 [5, 6], 11 \<mapsto> demo_table 2 [7, 8]], idle_process := Some 4\<rparr>)
     [] Map.empty Map.empty Map.empty))\<lparr>switch_flag := 0\<rparr>"

lemma boot_kernel_ok: "pcb_ok boot_kernel (map_of boot_lists)"
proof -
  have "system_check family_nodes boot_lists boot_pcbs"
    by (simp add: system_check_def family_nodes_def boot_lists_def boot_pcbs_def blank_pcb_def idle_state_def)
  from system_check_ok(1) [OF this] show ?thesis by (simp add: pcb_ok_def boot_kernel_def)
qed

lemma init_runs_from_second_tick_witness:
  "\<exists>s1 s2 s3. boot_end 1 4 boot_kernel = Some (user_context blank_pcb, s1)
     \<and> clock_handler demo_hw demo_env (demo_user 0) s1 = Some (Return (demo_user 0), s2)
     \<and> complete demo_hw (demo_user 0) (clock_handler demo_hw demo_env (demo_user 0) s2) = Some (Ret (user_context blank_pcb), s3)
     \<and> current_process s3 = Some 1"
proof -
  let ?c = "blank_pcb\<lparr>pid := 1, kernel_context := K_KernelStart 1 4, region1_pt := Some 10, kernel_stack := Some 11\<rparr>"
  let ?d = "blank_pcb\<lparr>time_slice := 1\<rparr>"
  have p: "map_of boot_lists ReadyQ = Some []" "map_of boot_lists DelayQ = Some []" "pcbs boot_kernel 1 = Some ?c"
    "state ?c = PROCESS_DEFAULT" "kernel_context ?c = K_KernelStart 1 4" "runnable demo_hw boot_kernel ?c"
    "pcbs boot_kernel 4 = Some ?d" "idle_state (state ?d)" "(1::pcb_ptr) \<noteq> 4" "run_time ?d = 0" "time_slice ?d = 1"
    "switch_flag boot_kernel = 0" "e_switch demo_env"
    by (simp_all add: boot_lists_def boot_pcbs_def boot_kernel_def blank_pcb_def idle_state_def demo_env_def runnable_def
        kstack_pages_def ADDR_TO_PAGE_NUM_def KSTACK_START_PAGE_def demo_table_def)
  have u: "user_context ?c = user_context blank_pcb" "user_context ?d = user_context blank_pcb" by simp_all
  show ?thesis using init_runs_from_second_tick [OF boot_kernel_ok p, of "demo_user 0" "demo_user 0" "demo_user 0"] unfolding u by blast
qed

end
