(* ===== verification/Load_Props.thy ===== *)
theory Load_Props
  imports Brk_Props Loader
begin

text \<open>
  The address space \<open>LoadProgram\<close> builds for a new program: the release of the old pages and the
  three loops that map the new ones.
\<close>

section \<open>Pages for a segment\<close>

lemma newly_mapped_trans:
  assumes "newly_mapped H M t t1 U U1" "newly_mapped H N t1 t2 U1 U2" "M \<inter> N = {}"
  shows "newly_mapped H (M \<union> N) t t2 U U2"
proof -
  obtain f where f: "inj_on f M" "f ` M \<inter> U = {}" "U1 = U \<union> f ` M" "\<forall>j \<in> M. j < length t \<and> t1 ! j = rw_pte H (f j)"
    using assms(1) unfolding newly_mapped_def by (elim exE conjE) (rule that)
  obtain g where g: "inj_on g N" "g ` N \<inter> U1 = {}" "U2 = U1 \<union> g ` N" "\<forall>j \<in> N. j < length t1 \<and> t2 ! j = rw_pte H (g j)"
    using assms(2) unfolding newly_mapped_def by (elim exE conjE) (rule that)
  have l: "length t1 = length t" "length t2 = length t1" "\<forall>j < length t. j \<notin> M \<longrightarrow> t1 ! j = t ! j"
    "\<forall>j < length t1. j \<notin> N \<longrightarrow> t2 ! j = t1 ! j" using assms(1,2) by (simp_all add: newly_mapped_def)
  define k where "k j = (if j \<in> M then f j else g j)" for j
  have kM: "k ` M = f ` M" "inj_on k M" using f(1) by (auto simp: k_def inj_on_def)
  have kN: "k ` N = g ` N" "inj_on k N" using g(1) assms(3) by (auto simp: k_def inj_on_def)
  have "k ` M \<inter> k ` N = {}" unfolding kM(1) kN(1) using f(3) g(2) by auto
  then have "inj_on k (M \<union> N)" using kM(2) kN(2) by (auto simp: inj_on_Un)
  moreover have "k ` (M \<union> N) = f ` M \<union> g ` N" unfolding image_Un kM(1) kN(1) ..
  moreover have "\<forall>j \<in> M \<union> N. j < length t \<and> t2 ! j = rw_pte H (k j)"
    using f(4) g(4) l assms(3) by (auto simp: k_def)
  ultimately show ?thesis unfolding newly_mapped_def using f(2,3) g(2,3) l by (intro conjI exI [of _ k]) auto
qed

text \<open>The loop gives out frames as long as there are any, and says whether that was long enough.\<close>

lemma map_new_pages_ok:
  fixes s :: "'a mem_scheme"
  assumes "frames_inv H s" "ERROR H < 0" "page_tables s p = Some t" "i + n \<le> length t"
  shows "\<exists>bm t'. map_new_pages H (Some p) i n s
      = Some (n \<le> NUM_VPN H - card (used_frames H s), s\<lparr>frame_bitMap := bm, page_tables := (page_tables s)(p \<mapsto> t')\<rparr>)
    \<and> frames_inv H (s\<lparr>frame_bitMap := bm, page_tables := (page_tables s)(p \<mapsto> t')\<rparr>)
    \<and> newly_mapped H {i..<i + min n (NUM_VPN H - card (used_frames H s))} t t' (used_frames H s)
        (used_frames H (s\<lparr>frame_bitMap := bm, page_tables := (page_tables s)(p \<mapsto> t')\<rparr>))"
  using assms
proof (induction n arbitrary: i s t)
  case 0
  have s: "s\<lparr>frame_bitMap := frame_bitMap s, page_tables := (page_tables s)(p \<mapsto> t)\<rparr> = s"
    using 0(3) by (simp add: fun_upd_idem)
  show ?case by (rule exI [of _ "frame_bitMap s"], rule exI [of _ t], unfold s) (use 0(1) in simp)
next
  case (Suc n)
  show ?case
  proof (cases "used_frames H s = {..<NUM_VPN H}")
    case True
    then have c: "NUM_VPN H - card (used_frames H s) = 0" by simp
    have s: "s\<lparr>frame_bitMap := frame_bitMap s, page_tables := (page_tables s)(p \<mapsto> t)\<rparr> = s"
      using Suc.prems(3) by (simp add: fun_upd_idem)
    have r: "map_new_pages H (Some p) i (Suc n) s = Some (False, s)"
      using allocate_frame_full [OF Suc.prems(1) True] by simp
    show ?thesis
      by (rule exI [of _ "frame_bitMap s"], rule exI [of _ t], unfold s c r) (use Suc.prems(1) in simp)
  next
    case False
    have il: "i < length t" using Suc.prems(4) by simp
    obtain f s1 where f: "allocate_frame H s = Some (int f, s1)" "int f \<noteq> ERROR H" "f \<notin> used_frames H s" "f < NUM_VPN H"
      "pt_set (Table p) (int i) \<lparr>valid = True, prot = or (PROT_READ H) (PROT_WRITE H), pfn = word_of_int (int f)\<rparr> s1
        = Some (s\<lparr>frame_bitMap := (frame_bitMap s)[f := 1], page_tables := (page_tables s)(p \<mapsto> t[i := rw_pte H f])\<rparr>)"
      "used_frames H (s\<lparr>frame_bitMap := (frame_bitMap s)[f := 1], page_tables := (page_tables s)(p \<mapsto> t[i := rw_pte H f])\<rparr>)
        = insert f (used_frames H s)"
      using map_new_page [OF Suc.prems(1) False Suc.prems(3) il Suc.prems(2)] by blast
    define s2 where "s2 = s\<lparr>frame_bitMap := (frame_bitMap s)[f := 1], page_tables := (page_tables s)(p \<mapsto> t[i := rw_pte H f])\<rparr>"
    have st: "map_new_pages H (Some p) i (Suc n) s = map_new_pages H (Some p) (Suc i) n s2"
      using f(1,2,5) by (simp add: s2_def)
    have u2: "used_frames H s2 = insert f (used_frames H s)" using f(6) by (simp add: s2_def)
    have i2: "frames_inv H s2" using Suc.prems(1) by (simp add: frames_inv_def s2_def)
    have p2: "page_tables s2 p = Some (t[i := rw_pte H f])" and l2: "Suc i + n \<le> length (t[i := rw_pte H f])"
      using Suc.prems(4) by (simp_all add: s2_def)
    define k where "k = NUM_VPN H - card (used_frames H s2)"
    have "card (used_frames H s2) = Suc (card (used_frames H s))" using f(3) by (simp add: u2 fp.finite_used)
    moreover have "card (used_frames H s2) \<le> NUM_VPN H" by (rule fp.card_used)
    ultimately have k: "NUM_VPN H - card (used_frames H s) = Suc k" unfolding k_def by simp
    obtain bm t' where r: "map_new_pages H (Some p) (Suc i) n s2
        = Some (n \<le> k, s2\<lparr>frame_bitMap := bm, page_tables := (page_tables s2)(p \<mapsto> t')\<rparr>)"
      "frames_inv H (s2\<lparr>frame_bitMap := bm, page_tables := (page_tables s2)(p \<mapsto> t')\<rparr>)"
      "newly_mapped H {Suc i..<Suc i + min n k} (t[i := rw_pte H f]) t' (insert f (used_frames H s))
        (used_frames H (s2\<lparr>frame_bitMap := bm, page_tables := (page_tables s2)(p \<mapsto> t')\<rparr>))"
      using Suc.IH [OF i2 Suc.prems(2) p2 l2, folded k_def, unfolded u2] by (elim exE conjE) (rule that)
    have s': "s2\<lparr>frame_bitMap := bm, page_tables := (page_tables s2)(p \<mapsto> t')\<rparr>
      = s\<lparr>frame_bitMap := bm, page_tables := (page_tables s)(p \<mapsto> t')\<rparr>" by (simp add: s2_def)
    have e: "insert i {Suc i..<Suc i + min n k} = {i..<i + min (Suc n) (Suc k)}" by auto
    have "newly_mapped H (insert i {Suc i..<Suc i + min n k}) t t' (used_frames H s)
        (used_frames H (s2\<lparr>frame_bitMap := bm, page_tables := (page_tables s2)(p \<mapsto> t')\<rparr>))"
      by (rule newly_mapped_step [OF r(3) _ il f(3)]) simp
    note nm = this [unfolded s' e]
    have run: "map_new_pages H (Some p) i (Suc n) s = Some (Suc n \<le> Suc k, s\<lparr>frame_bitMap := bm, page_tables := (page_tables s)(p \<mapsto> t')\<rparr>)"
      unfolding st r(1) s' by simp
    show ?thesis unfolding k using run r(2) [unfolded s'] nm by blast
  qed
qed

lemma newly_mapped_card:
  assumes "newly_mapped H N t t' U U'" "finite U" "finite N"
  shows "card U' = card U + card N"
proof -
  obtain g where g: "inj_on g N" "g ` N \<inter> U = {}" "U' = U \<union> g ` N"
    using assms(1) unfolding newly_mapped_def by (elim exE conjE) (rule that)
  have "U \<inter> g ` N = {}" using g(2) by blast
  then show ?thesis using card_Un_disjoint [OF assms(2) finite_imageI [OF assms(3), of g]] card_image [OF g(1)] g(3) by simp
qed

lemma newly_mapped_stale:
  assumes "newly_mapped H N r r' (W - valid_frames r) U'" "j < length r" "j \<notin> N" "valid (r ! j)"
  shows "r' ! j = r ! j \<and> (unat (pfn (r ! j)) \<in> U' \<longrightarrow> (\<exists>k \<in> N. pfn (r' ! k) = pfn (r ! j)))"
proof -
  obtain g where g: "U' = (W - valid_frames r) \<union> g ` N" "\<forall>k \<in> N. r' ! k = rw_pte H (g k)" "r' ! j = r ! j"
    using assms(1-3) unfolding newly_mapped_def by blast
  have "unat (pfn (r ! j)) \<in> valid_frames r" using assms(2,4) nth_mem by (auto simp: valid_frames_def)
  moreover have "pfn (r' ! k) = pfn (r ! j)" if "k \<in> N" "g k = unat (pfn (r ! j))" for k
    using g(2) that by (simp add: rw_pte_def)
  ultimately show ?thesis using g(1,3) by force
qed

text \<open>One more run of the loop, after pages \<open>N0\<close> have been mapped already.\<close>

lemma map_more_pages:
  fixes s :: "'a mem_scheme"
  assumes inv: "frames_inv H s" "ERROR H < 0" "page_tables s t = Some r0"
    and nm: "newly_mapped H N0 r r0 U (used_frames H s)" "finite U" "finite N0"
    and i: "{i..<i + n} \<inter> N0 = {}" "i + n \<le> length r"
  shows "\<exists>bm r1. map_new_pages H (Some t) i n s
      = Some (card U + card N0 + n \<le> NUM_VPN H, s\<lparr>frame_bitMap := bm, page_tables := (page_tables s)(t \<mapsto> r1)\<rparr>)
    \<and> frames_inv H (s\<lparr>frame_bitMap := bm, page_tables := (page_tables s)(t \<mapsto> r1)\<rparr>)
    \<and> (card U + card N0 + n \<le> NUM_VPN H \<longrightarrow> newly_mapped H (N0 \<union> {i..<i + n}) r r1 U
        (used_frames H (s\<lparr>frame_bitMap := bm, page_tables := (page_tables s)(t \<mapsto> r1)\<rparr>)))"
proof -
  have c: "card (used_frames H s) = card U + card N0" by (rule newly_mapped_card [OF nm])
  have "card (used_frames H s) \<le> NUM_VPN H" by (rule fp.card_used)
  then have flag: "n \<le> NUM_VPN H - card (used_frames H s) \<longleftrightarrow> card U + card N0 + n \<le> NUM_VPN H" using c by linarith
  have "i + n \<le> length r0" using i(2) nm(1) by (simp add: newly_mapped_def)
  from map_new_pages_ok [OF inv this] obtain bm r1 where
    m: "map_new_pages H (Some t) i n s
      = Some (card U + card N0 + n \<le> NUM_VPN H, s\<lparr>frame_bitMap := bm, page_tables := (page_tables s)(t \<mapsto> r1)\<rparr>)"
    "frames_inv H (s\<lparr>frame_bitMap := bm, page_tables := (page_tables s)(t \<mapsto> r1)\<rparr>)"
    "newly_mapped H {i..<i + min n (NUM_VPN H - card (used_frames H s))} r0 r1 (used_frames H s)
        (used_frames H (s\<lparr>frame_bitMap := bm, page_tables := (page_tables s)(t \<mapsto> r1)\<rparr>))"
    unfolding flag by (elim exE conjE) (rule that)
  have "newly_mapped H (N0 \<union> {i..<i + n}) r r1 U
        (used_frames H (s\<lparr>frame_bitMap := bm, page_tables := (page_tables s)(t \<mapsto> r1)\<rparr>))" if "card U + card N0 + n \<le> NUM_VPN H"
  proof -
    have e: "min n (NUM_VPN H - card (used_frames H s)) = n" using that flag by simp
    show ?thesis by (rule newly_mapped_trans [OF nm(1) m(3) [unfolded e]]) (use i(1) in blast)
  qed
  then show ?thesis using m(1,2) by blast
qed

section \<open>The new address space\<close>

text \<open>The pages of the text, the data and the stack.\<close>

definition program_pages :: "hw \<Rightarrow> layout \<Rightarrow> load_info \<Rightarrow> nat set" where
  "program_pages H lo li = {text_pg1 lo..<text_pg1 lo + t_npg li} \<union> {data_pg1 lo..<data_pg1 lo + data_npg lo}
     \<union> {MAX_PT_LEN H - stack_npg lo..<MAX_PT_LEN H}"

lemma new_region1_ok:
  fixes s :: "'a kstate_scheme"
  assumes "frames_inv H s" "ERROR H < 0" "pcbs s p = Some c" "region1_pt c = Some t" "page_tables s t = Some r1"
    "length r1 = MAX_PT_LEN H" "text_pg1 lo + t_npg li \<le> data_pg1 lo"
    "stack_npg lo + data_pg1 lo + data_npg lo < MAX_PT_LEN H" "U = used_frames H s - valid_frames r1"
  shows "if card U + (t_npg li + data_npg lo + stack_npg lo) \<le> NUM_VPN H
    then \<exists>bm r1'. new_region1 H lo li p s = Some (True, s\<lparr>frame_bitMap := bm, page_tables := (page_tables s)(t \<mapsto> r1'),
          pcbs := (pcbs s)(p \<mapsto> c\<lparr>brk := push_bit (PAGESHIFT H) (word_of_nat (data_pg1 lo + data_npg lo))\<rparr>)\<rparr>)
      \<and> newly_mapped H (program_pages H lo li) r1 r1' U (used_frames H (s\<lparr>frame_bitMap := bm\<rparr>))
    else \<exists>s'. new_region1 H lo li p s = Some (False, s')"
proof -
  let ?n1 = "t_npg li" and ?n2 = "data_npg lo" and ?n3 = "stack_npg lo" and ?u = "used_frames H"
  let ?i1 = "text_pg1 lo" and ?i2 = "data_pg1 lo" and ?i3 = "MAX_PT_LEN H - stack_npg lo"
  let ?c = "c\<lparr>brk := push_bit (PAGESHIFT H) (word_of_nat (?i2 + ?n2))\<rparr>"
  let ?I1 = "{?i1..<?i1 + ?n1}" and ?I2 = "{?i2..<?i2 + ?n2}"
  have fU: "finite U" unfolding assms(9) by (simp add: fp.finite_used)
  obtain b0 where b0: "free_userspace H (Some p) s = Some (s\<lparr>frame_bitMap := b0\<rparr>)" "frames_inv H (s\<lparr>frame_bitMap := b0\<rparr>)"
    "?u (s\<lparr>frame_bitMap := b0\<rparr>) = U"
    using free_userspace_ok [OF assms(1,3-6)] unfolding assms(9) by blast
  have dj: "?I1 \<inter> {} = {}" "?I2 \<inter> ?I1 = {}" "{?i3..<?i3 + ?n3} \<inter> (?I1 \<union> ?I2) = {}" and fin: "finite ?I1" "finite (?I1 \<union> ?I2)"
    using assms(7,8) by auto
  have len: "?i1 + ?n1 \<le> length r1" "?i2 + ?n2 \<le> length r1" "?i3 + ?n3 \<le> length r1" "?i3 + ?n3 = MAX_PT_LEN H"
    using assms(6-8) by simp_all
  then have pp: "?I1 \<union> ?I2 \<union> {?i3..<?i3 + ?n3} = program_pages H lo li" unfolding program_pages_def by simp
  have c1: "card ?I1 = ?n1" by simp
  have c2: "card (?I1 \<union> ?I2) = ?n1 + ?n2" using dj(2) by (subst card_Un_disjoint) auto
  define s0 where "s0 = s\<lparr>frame_bitMap := b0\<rparr>"
  have s0: "frames_inv H s0" "page_tables s0 t = Some r1" "newly_mapped H {} r1 r1 U (?u s0)" "pcbs s0 = pcbs s"
    using b0(2,3) assms(5) by (simp_all add: s0_def)
  obtain b1 t1 where m1: "map_new_pages H (Some t) ?i1 ?n1 s0
      = Some (card U + ?n1 \<le> NUM_VPN H, s0\<lparr>frame_bitMap := b1, page_tables := (page_tables s0)(t \<mapsto> t1)\<rparr>)"
    "frames_inv H (s0\<lparr>frame_bitMap := b1, page_tables := (page_tables s0)(t \<mapsto> t1)\<rparr>)"
    "card U + ?n1 \<le> NUM_VPN H \<longrightarrow> newly_mapped H ?I1 r1 t1 U (?u (s0\<lparr>frame_bitMap := b1, page_tables := (page_tables s0)(t \<mapsto> t1)\<rparr>))"
    using map_more_pages [OF s0(1) assms(2) s0(2,3) fU finite.emptyI dj(1) len(1), unfolded card.empty add_0_right Un_empty_left]
    by (elim exE conjE) (rule that)
  define s1 where "s1 = s0\<lparr>frame_bitMap := b1, page_tables := (page_tables s0)(t \<mapsto> t1)\<rparr>"
  note m1 = m1 [folded s1_def]
  show ?thesis
  proof (cases "card U + ?n1 \<le> NUM_VPN H")
    case False
    then show ?thesis using b0(1) [folded s0_def] m1(1) assms(3,4) s0(4) by (simp add: new_region1_def)
  next
    case d1: True
    have "page_tables s1 t = Some t1" by (simp add: s1_def)
    note more = map_more_pages [OF m1(2) assms(2) this m1(3) [THEN mp, OF d1] fU fin(1) dj(2) len(2), unfolded c1]
    obtain b2 t2 where m2: "map_new_pages H (Some t) ?i2 ?n2 s1
        = Some (card U + ?n1 + ?n2 \<le> NUM_VPN H, s1\<lparr>frame_bitMap := b2, page_tables := (page_tables s1)(t \<mapsto> t2)\<rparr>)"
      "frames_inv H (s1\<lparr>frame_bitMap := b2, page_tables := (page_tables s1)(t \<mapsto> t2)\<rparr>)"
      "card U + ?n1 + ?n2 \<le> NUM_VPN H \<longrightarrow> newly_mapped H (?I1 \<union> ?I2) r1 t2 U (?u (s1\<lparr>frame_bitMap := b2, page_tables := (page_tables s1)(t \<mapsto> t2)\<rparr>))"
      using more by (elim exE conjE) (rule that)
    show ?thesis
    proof (cases "card U + ?n1 + ?n2 \<le> NUM_VPN H")
      case False
      then show ?thesis using b0(1) [folded s0_def] m1(1) m2(1) d1 assms(3,4) s0(4) by (simp add: new_region1_def)
    next
      case d2: True
      define s2 where "s2 = s1\<lparr>frame_bitMap := b2, page_tables := (page_tables s1)(t \<mapsto> t2), pcbs := (pcbs s)(p \<mapsto> ?c)\<rparr>"
      have s2: "frames_inv H s2" "page_tables s2 t = Some t2" "newly_mapped H (?I1 \<union> ?I2) r1 t2 U (?u s2)"
        using m2(2) m2(3) [THEN mp, OF d2] by (simp_all add: s2_def frames_inv_def used_frames_def)
      have a: "card U + (?n1 + ?n2) + ?n3 = card U + (?n1 + ?n2 + ?n3)" by simp
      note more = map_more_pages [OF s2(1) assms(2) s2(2,3) fU fin(2) dj(3) len(3), unfolded c2 a pp]
      obtain b3 t3 where m3: "map_new_pages H (Some t) ?i3 ?n3 s2
          = Some (card U + (?n1 + ?n2 + ?n3) \<le> NUM_VPN H, s2\<lparr>frame_bitMap := b3, page_tables := (page_tables s2)(t \<mapsto> t3)\<rparr>)"
        "card U + (?n1 + ?n2 + ?n3) \<le> NUM_VPN H \<longrightarrow> newly_mapped H (program_pages H lo li) r1 t3 U
          (?u (s2\<lparr>frame_bitMap := b3, page_tables := (page_tables s2)(t \<mapsto> t3)\<rparr>))"
        using more by (elim exE conjE) (rule that)
      let ?s = "s\<lparr>frame_bitMap := b3, page_tables := (page_tables s)(t \<mapsto> t3), pcbs := (pcbs s)(p \<mapsto> ?c)\<rparr>"
      have "s2\<lparr>frame_bitMap := b3, page_tables := (page_tables s2)(t \<mapsto> t3)\<rparr> = ?s" by (simp add: s2_def s1_def s0_def)
      note m3 = m3 [unfolded this]
      have "new_region1 H lo li p s = Some (card U + (?n1 + ?n2 + ?n3) \<le> NUM_VPN H, ?s)"
        using b0(1) [folded s0_def] m1(1) m2(1) m3(1) d1 d2 assms(3,4) s0(4) by (simp add: new_region1_def upd_pcb_def s2_def s1_def)
      moreover have "?u ?s = ?u (s\<lparr>frame_bitMap := b3\<rparr>)" by (simp add: used_frames_def)
      ultimately show ?thesis using m3(2) by auto
    qed
  qed
qed

text \<open>
  C31: The page tables of a new program. With enough frames, counting those the old program
  gives back, the text, data and stack pages of the new one are mapped, readable and writable,
  to pairwise different frames that were free, the program's break is at the end of its data,
  and no other process is affected; without, the load fails, after the old program's frames
  have been freed. But the old entries are not taken out of the table: every page of the old
  program outside the new segments stays valid and still maps its frame, which is now free, or
  belongs to a page of the new program as well.
\<close>

theorem new_program_pages:
  assumes "frames_inv H s" "ERROR H < 0" "pcbs s p = Some c" "region1_pt c = Some t" "page_tables s t = Some r1"
    "length r1 = MAX_PT_LEN H" "text_pg1 lo + t_npg li \<le> data_pg1 lo"
    "stack_npg lo + data_pg1 lo + data_npg lo < MAX_PT_LEN H" "U = used_frames H s - valid_frames r1"
    "N = program_pages H lo li"
  shows "if card U + (t_npg li + data_npg lo + stack_npg lo) \<le> NUM_VPN H
    then \<exists>s' r1'. new_region1 H lo li p s = Some (True, s') \<and> page_tables s' = (page_tables s)(t \<mapsto> r1')
      \<and> pcbs s' = (pcbs s)(p \<mapsto> c\<lparr>brk := push_bit (PAGESHIFT H) (word_of_nat (data_pg1 lo + data_npg lo))\<rparr>)
      \<and> newly_mapped H N r1 r1' U (used_frames H s') \<and> pmem s' = pmem s
      \<and> (\<forall>j < length r1. j \<notin> N \<and> valid (r1 ! j) \<longrightarrow> r1' ! j = r1 ! j
           \<and> (unat (pfn (r1 ! j)) \<in> used_frames H s' \<longrightarrow> (\<exists>k \<in> N. pfn (r1' ! k) = pfn (r1 ! j))))
    else \<exists>s'. new_region1 H lo li p s = Some (False, s')"
proof (cases "card U + (t_npg li + data_npg lo + stack_npg lo) \<le> NUM_VPN H")
  case True
  then obtain bm r1' where r: "new_region1 H lo li p s = Some (True, s\<lparr>frame_bitMap := bm, page_tables := (page_tables s)(t \<mapsto> r1'),
          pcbs := (pcbs s)(p \<mapsto> c\<lparr>brk := push_bit (PAGESHIFT H) (word_of_nat (data_pg1 lo + data_npg lo))\<rparr>)\<rparr>)" (is "_ = Some (_, ?s)")
      and nm: "newly_mapped H (program_pages H lo li) r1 r1' U (used_frames H (s\<lparr>frame_bitMap := bm\<rparr>))"
    using new_region1_ok [OF assms(1-9)] by (simp only: if_True) (elim exE conjE, rule that)
  have "used_frames H ?s = used_frames H (s\<lparr>frame_bitMap := bm\<rparr>)" by (simp add: used_frames_def)
  note nm = nm [folded this assms(10)]
  show ?thesis using True r nm newly_mapped_stale [OF nm [unfolded assms(9)]]
    by (simp only: if_True simp_thms) (intro exI [of _ ?s] exI [of _ r1'], simp)
next
  case False
  then show ?thesis using new_region1_ok [OF assms(1-9)] by simp
qed

text \<open>
  The process of \<open>brk_kernel\<close>, with pages 0 and 1, gets a program with text on page 2, data on page 3
  and one page of stack; page 0 of the old program stays in the table.
\<close>

definition demo_info :: load_info where
  "demo_info = \<lparr>entry = 160, t_faddr = 0, t_vaddr = 160, t_npg = 1, id_faddr = 16, id_vaddr = 176, id_npg = 1, ud_npg = 0,
     id_end = 192, ud_end = 192\<rparr>"

definition demo_layout :: layout where
  "demo_layout = \<lparr>text_pg1 = 2, data_pg1 = 3, data_npg = 1, arg_size = 0, argcount = 0, arg_cp = 256, arg_cpp = 240,
     new_sp = 232, stack_npg = 2\<rparr>"

lemma brk_kernel_frames: "card (used_frames demo_hw brk_kernel - valid_frames r) \<le> 9"
proof -
  have "frame_bitMap brk_kernel ! k = 0" if "k < 16" "\<not> k < 9" for k
    using that by (auto simp: brk_kernel_def nth_append)
  then have "used_frames demo_hw brk_kernel - valid_frames r \<subseteq> {..<9}" by (auto simp: used_frames_def)
  then have "card (used_frames demo_hw brk_kernel - valid_frames r) \<le> card {..<9::nat}" by (intro card_mono) simp_all
  then show ?thesis by simp
qed

lemma new_program_pages_witness:
  "\<exists>s' t'. new_region1 demo_hw demo_layout demo_info 1 brk_kernel = Some (True, s') \<and> page_tables s' 10 = Some t'
     \<and> valid (t' ! 2) \<and> valid (t' ! 7) \<and> t' ! 0 = demo_table 8 [5, 6] ! 0"
proof -
  let ?r = "demo_table 8 [5, 6]"
  have n: "MAX_PT_LEN demo_hw = 8" "NUM_VPN demo_hw = 16" "text_pg1 demo_layout = 2" "t_npg demo_info = 1" "data_pg1 demo_layout = 3"
    "data_npg demo_layout = 1" "stack_npg demo_layout = 2" by (simp_all add: demo_layout_def demo_info_def)
  have l: "length ?r = 8" by (simp add: demo_table_def)
  have c: "card (used_frames demo_hw brk_kernel - valid_frames ?r) + (t_npg demo_info + data_npg demo_layout + stack_npg demo_layout)
      \<le> NUM_VPN demo_hw" unfolding n using brk_kernel_frames [of ?r] by simp
  have pre: "length ?r = MAX_PT_LEN demo_hw" "text_pg1 demo_layout + t_npg demo_info \<le> data_pg1 demo_layout"
    "stack_npg demo_layout + data_pg1 demo_layout + data_npg demo_layout < MAX_PT_LEN demo_hw" unfolding n l by simp_all
  have "ERROR demo_hw < 0" by simp
  have N: "program_pages demo_hw demo_layout demo_info = {2..<2 + 1} \<union> {3..<3 + 1} \<union> {8 - 2..<8}" by (simp add: program_pages_def n)
  from new_program_pages [OF brk_kernel_ok(5) \<open>ERROR demo_hw < 0\<close> brk_kernel_ok(2-4) pre refl refl] c
  obtain s' t' where s': "new_region1 demo_hw demo_layout demo_info 1 brk_kernel = Some (True, s')"
    "page_tables s' = (page_tables brk_kernel)(10 \<mapsto> t')"
    "newly_mapped demo_hw ({2..<2 + 1} \<union> {3..<3 + 1} \<union> {8 - 2..<8}) ?r t' (used_frames demo_hw brk_kernel - valid_frames ?r)
       (used_frames demo_hw s')"
    unfolding if_P [OF c] unfolding N by (elim exE conjE) (rule that)
  have "valid (t' ! j)" if "j \<in> {2..<2 + 1} \<union> {3..<3 + 1} \<union> {8 - 2..<8}" for j
    using s'(3) that by (auto simp: newly_mapped_def rw_pte_def)
  moreover have "t' ! 0 = ?r ! 0" using s'(3) l by (simp add: newly_mapped_def)
  ultimately show ?thesis using s'(1,2) by (intro exI [of _ s'] exI [of _ t']) simp
qed

end
