(* ===== verification/Args_Props.thy ===== *)
theory Args_Props
  imports Loader Bytes
begin

text \<open>
  The argument block \<open>LoadProgram\<close> builds on the new stack: the program that starts there
  finds exactly the arguments it was given.
\<close>

section \<open>Strings and vectors in a window of memory\<close>

lemma load8_window:
  assumes "window H a n loc s" "drop i (view loc n s) = b # rest"
  shows "load8 H (a + of_nat i) s = Some b"
proof -
  have "i < n" using assms(2) by (metis drop_all list.distinct(1) not_less view_length)
  then have "load_bytes H (a + of_nat i) 1 s = Some [b]" using load_window [OF assms(1), of i 1] assms(2) by simp
  then show ?thesis by (auto split: Option.bind_split_asm)
qed

lemma drop_shift: "drop i xs = ys @ zs \<Longrightarrow> drop (i + length ys) xs = zs"
  by (metis add.commute append_eq_conv_conj drop_drop)

lemma load_string_window:
  assumes "window H a n loc s" "drop i (view loc n s) = b @ 0 # rest" "0 \<notin> set b"
  shows "load_string H (a + of_nat i) s = Some b"
  using assms(2,3)
proof (induction b arbitrary: i)
  case Nil
  then show ?case using load8_window [OF assms(1), of i 0 rest] by (subst load_string.simps) simp
next
  case (Cons x b)
  have l: "load8 H (a + of_nat i) s = Some x" using load8_window [OF assms(1)] Cons.prems(1) by simp
  have "load_string H (a + of_nat (Suc i)) s = Some b"
    by (rule Cons.IH) (use drop_shift [of i "view loc n s" "[x]" "b @ 0 # rest"] Cons.prems in simp_all)
  then show ?case using l Cons.prems(2) by (subst load_string.simps) (simp add: add.assoc add.commute [of 1])
qed

text \<open>The addresses of strings that lie one after the other from \<open>base + i\<close>.\<close>

fun addrs :: "u32 \<Rightarrow> nat \<Rightarrow> u8 list list \<Rightarrow> u32 list" where
  "addrs base i [] = []"
| "addrs base i (a # as) = (base + of_nat i) # addrs base (i + length a + 1) as"

definition words :: "hw \<Rightarrow> u32 list \<Rightarrow> u8 list" where
  "words H ws = concat (map (enc_int H) ws)"

lemma words_simps [simp]: "words H [] = []" "words H (w # ws) = enc_int H w @ words H ws"
  by (simp_all add: words_def)

lemma flat_args_simps [simp]: "flat_args [] = []" "flat_args (a # as) = a @ 0 # flat_args as"
  by (simp_all add: flat_args_def)

lemma args_size_simps [simp]: "args_size [] = 0" "args_size (a # as) = length a + 1 + args_size as"
  by (simp_all add: args_size_def)

lemma length_flat_args: "length (flat_args as) = args_size as"
  by (induction as) simp_all

lemma load_argv_window:
  assumes "window H a n loc s" "hw_ok H" "unat a + n < 2 ^ 32"
    "drop (4 * j) (view loc n s) = words H (addrs a i as) @ enc_int H 0 @ rest" "drop i (view loc n s) = flat_args as @ zs"
    "0 < i" "\<forall>b \<in> set as. 0 \<notin> set b"
  shows "load_argv H (a + of_nat (4 * j)) s = Some as"
  using assms(4-7)
proof (induction as arbitrary: i j)
  case Nil
  then have "load_int H (a + of_nat (4 * j)) s = Some 0" using load_int_window [OF assms(1,2), of "4 * j" 0 rest] by simp
  then show ?case by (subst load_argv.simps) simp
next
  case (Cons b as)
  let ?p = "a + of_nat i"
  have p: "load_int H (a + of_nat (4 * j)) s = Some ?p"
    using load_int_window [OF assms(1,2), of "4 * j" ?p "words H (addrs a (i + length b + 1) as) @ enc_int H 0 @ rest"] Cons.prems(1)
    by simp
  have str: "load_string H ?p s = Some b"
    by (rule load_string_window [OF assms(1)]) (use Cons.prems(2,4) in auto)
  have "drop (4 * Suc j) (view loc n s) = words H (addrs a (i + length b + 1) as) @ enc_int H 0 @ rest"
    using drop_shift [of "4 * j" _ "enc_int H ?p"] Cons.prems(1) hw_okD(9) [OF assms(2), of ?p] by (simp add: add.commute)
  moreover have "drop (i + length b + 1) (view loc n s) = flat_args as @ zs"
    using drop_shift [of i _ "b @ [0]"] Cons.prems(2) by simp
  ultimately have rest: "load_argv H (a + of_nat (4 * Suc j)) s = Some as"
    using Cons.IH [of "Suc j" "i + length b + 1"] Cons.prems(4) by simp
  have "i < n" using Cons.prems(2) by (metis append_is_Nil_conv drop_all flat_args_simps(2) list.distinct(1) not_less view_length)
  then have "unat ?p = unat a + i" using assms(3) by (simp add: unat_word_ariths unsigned_of_nat take_bit_nat_eq_self)
  then have "?p \<noteq> 0" using Cons.prems(3) by auto
  moreover have "a + of_nat (4 * j) + 4 = a + of_nat (4 * Suc j)" by (simp add: algebra_simps)
  ultimately show ?case using p str rest by (subst load_argv.simps) (simp add: add_ac)
qed

section \<open>Building the block\<close>

lemma splice_take: "length u = i \<Longrightarrow> take i (u @ v) = u"
  by simp

lemma takeWhile_string: "0 \<notin> set b \<Longrightarrow> takeWhile (\<lambda>x. x \<noteq> 0) (b @ 0 # rest) = b" for b :: "u8 list"
  by (induction b) auto

lemma push_args_step:
  assumes "window H a n loc s" "hw_ok H" "4 * j + 4 \<le> i" "i + length b + 1 \<le> n" "0 \<notin> set b"
  shows "\<exists>m. push_args H (a + of_nat (4 * j)) (a + of_nat i) (flat_args (b # as)) (Suc k) s
      = push_args H (a + of_nat (4 * Suc j)) (a + of_nat (i + length b + 1)) (flat_args as) k (s\<lparr>pmem := m\<rparr>)
    \<and> view loc n (s\<lparr>pmem := m\<rparr>) = take (4 * j) (view loc n s) @ enc_int H (a + of_nat i)
        @ take (i - (4 * j + 4)) (drop (4 * j + 4) (view loc n s)) @ b @ 0 # drop (i + length b + 1) (view loc n s)
    \<and> (\<forall>f k. (f, k) \<notin> loc ` {..<n} \<longrightarrow> m f k = pmem s f k)"
proof -
  let ?e = "enc_int H (a + of_nat i)" and ?v = "view loc n s"
  have e: "length ?e = 4" by (rule hw_okD(9) [OF assms(2)])
  have "4 * j + length ?e \<le> n" using assms(3,4) e by simp
  from store_window [OF assms(1) this] obtain m1 where m1: "store_bytes H (a + of_nat (4 * j)) ?e s = Some (s\<lparr>pmem := m1\<rparr>)"
    "view loc n (s\<lparr>pmem := m1\<rparr>) = take (4 * j) ?v @ ?e @ drop (4 * j + 4) ?v"
    "\<forall>f k. (f, k) \<notin> loc ` {..<n} \<longrightarrow> m1 f k = pmem s f k"
    unfolding e by (elim exE conjE) (rule that)
  let ?s = "s\<lparr>pmem := m1\<rparr>"
  have w: "window H a n loc ?s" using assms(1) by simp
  have "i + length (b @ [0]) \<le> n" using assms(4) by simp
  from store_window [OF w this] obtain m where m: "store_bytes H (a + of_nat i) (b @ [0]) ?s = Some (?s\<lparr>pmem := m\<rparr>)"
    "view loc n (?s\<lparr>pmem := m\<rparr>) = take i (view loc n ?s) @ (b @ [0]) @ drop (i + length (b @ [0])) (view loc n ?s)"
    "\<forall>f k. (f, k) \<notin> loc ` {..<n} \<longrightarrow> m f k = pmem ?s f k"
    by (elim exE conjE) (rule that)
  have t: "take i (view loc n ?s) = take (4 * j) ?v @ ?e @ take (i - (4 * j + 4)) (drop (4 * j + 4) ?v)"
    unfolding m1(2) using assms(3,4) e by simp
  have d: "drop (i + length b + 1) (view loc n ?s) = drop (i + length b + 1) ?v"
    unfolding m1(2) using assms(3,4) e by simp
  have ad: "a + of_nat (4 * j) + 4 = a + of_nat (4 * Suc j)"
    "a + of_nat i + word_of_nat (length b + 1) = a + of_nat (i + length b + 1)" by (simp_all add: algebra_simps)
  have run: "push_args H (a + of_nat (4 * j)) (a + of_nat i) (flat_args (b # as)) (Suc k) s
      = push_args H (a + of_nat (4 * Suc j)) (a + of_nat (i + length b + 1)) (flat_args as) k (?s\<lparr>pmem := m\<rparr>)"
    using m1(1) m(1) takeWhile_string [OF assms(5), of "flat_args as"]
    unfolding ad [symmetric] by (simp add: store_int_def del: of_nat_mult of_nat_Suc)
  have "view loc n (s\<lparr>pmem := m\<rparr>) = view loc n (?s\<lparr>pmem := m\<rparr>)" by simp
  also have "\<dots> = take (4 * j) ?v @ ?e @ take (i - (4 * j + 4)) (drop (4 * j + 4) ?v) @ b @ 0 # drop (i + length b + 1) ?v"
    unfolding m(2) t using d by simp
  finally show ?thesis using run m(3) m1(3) by (intro exI [of _ m]) simp
qed

lemma push_args_ok:
  assumes "window H a n loc s" "hw_ok H" "4 * j + 4 * length as \<le> i" "i + args_size as = n" "\<forall>b \<in> set as. 0 \<notin> set b"
  shows "\<exists>m. push_args H (a + of_nat (4 * j)) (a + of_nat i) (flat_args as) (length as) s
      = Some (a + of_nat (4 * (j + length as)), s\<lparr>pmem := m\<rparr>)
    \<and> view loc n (s\<lparr>pmem := m\<rparr>) = take (4 * j) (view loc n s) @ words H (addrs a i as)
        @ take (i - 4 * (j + length as)) (drop (4 * (j + length as)) (view loc n s)) @ flat_args as
    \<and> (\<forall>f k. (f, k) \<notin> loc ` {..<n} \<longrightarrow> m f k = pmem s f k)"
  using assms(1,3-5)
proof (induction as arbitrary: i j s)
  case Nil
  have "view loc n s = take (4 * j) (view loc n s) @ take (i - 4 * j) (drop (4 * j) (view loc n s))"
    using Nil(2,3) by (simp add: take_add [symmetric])
  then show ?case by (intro exI [of _ "pmem s"]) simp
next
  case (Cons b as)
  let ?v = "view loc n s" and ?e = "enc_int H (a + of_nat i)"
  have le: "4 * j + 4 \<le> i" "i + length b + 1 \<le> n" "0 \<notin> set b" using Cons.prems by auto
  obtain m1 where m1: "push_args H (a + of_nat (4 * j)) (a + of_nat i) (flat_args (b # as)) (Suc (length as)) s
      = push_args H (a + of_nat (4 * Suc j)) (a + of_nat (i + length b + 1)) (flat_args as) (length as) (s\<lparr>pmem := m1\<rparr>)"
    "view loc n (s\<lparr>pmem := m1\<rparr>) = take (4 * j) ?v @ ?e
        @ take (i - (4 * j + 4)) (drop (4 * j + 4) ?v) @ b @ 0 # drop (i + length b + 1) ?v"
    "\<forall>f k. (f, k) \<notin> loc ` {..<n} \<longrightarrow> m1 f k = pmem s f k"
    using push_args_step [OF Cons.prems(1) assms(2) le, of as "length as"] by (elim exE conjE) (rule that)
  let ?s = "s\<lparr>pmem := m1\<rparr>" and ?J = "Suc j + length as" and ?i = "i + length b + 1"
  have w: "window H a n loc ?s" using Cons.prems(1) by simp
  have c: "4 * Suc j + 4 * length as \<le> ?i" "?i + args_size as = n" "\<forall>b \<in> set as. 0 \<notin> set b" using Cons.prems(2-4) by simp_all
  obtain m where m: "push_args H (a + of_nat (4 * Suc j)) (a + of_nat ?i) (flat_args as) (length as) ?s
      = Some (a + of_nat (4 * ?J), ?s\<lparr>pmem := m\<rparr>)"
    "view loc n (?s\<lparr>pmem := m\<rparr>) = take (4 * Suc j) (view loc n ?s) @ words H (addrs a ?i as)
        @ take (?i - 4 * ?J) (drop (4 * ?J) (view loc n ?s)) @ flat_args as"
    "\<forall>f k. (f, k) \<notin> loc ` {..<n} \<longrightarrow> m f k = pmem ?s f k"
    using Cons.IH [OF w c] by (elim exE conjE) (rule that)
  have e: "length ?e = 4" by (rule hw_okD(9) [OF assms(2)])
  have J: "4 * ?J \<le> i" "4 * j + 4 \<le> 4 * ?J" using Cons.prems(2) by simp_all
  have t: "take (4 * Suc j) (view loc n ?s) = take (4 * j) ?v @ ?e" unfolding m1(2) using e le by simp
  have "drop (4 * ?J) (view loc n ?s) = drop (4 * ?J - (4 * j + 4)) (take (i - (4 * j + 4)) (drop (4 * j + 4) ?v) @ b @ 0 # drop ?i ?v)"
    unfolding m1(2) using e le J by simp
  also have "\<dots> = take (i - 4 * ?J) (drop (4 * ?J) ?v) @ b @ 0 # drop ?i ?v"
    using e le J by (simp add: drop_take add_ac)
  finally have d: "take (?i - 4 * ?J) (drop (4 * ?J) (view loc n ?s)) = take (i - 4 * ?J) (drop (4 * ?J) ?v) @ b @ [0]"
    using le J by simp
  have v: "view loc n (s\<lparr>pmem := m\<rparr>) = take (4 * j) ?v @ words H (addrs a i (b # as))
      @ take (i - 4 * ?J) (drop (4 * ?J) ?v) @ flat_args (b # as)"
    using m(2) unfolding t d by simp
  have "push_args H (a + of_nat (4 * j)) (a + of_nat i) (flat_args (b # as)) (length (b # as)) s
      = Some (a + of_nat (4 * ?J), s\<lparr>pmem := m\<rparr>)"
    using m1(1) m(1) by (simp only: list.size add_Suc_right add_0_right) simp
  moreover have "j + length (b # as) = ?J" by simp
  moreover have "\<forall>f k. (f, k) \<notin> loc ` {..<n} \<longrightarrow> m f k = pmem s f k" using m(3) m1(3) by simp
  ultimately show ?case using v by (intro exI [of _ m]) (simp only: simp_thms)
qed

lemma store_int_window:
  assumes "window H a n loc s" "hw_ok H" "i + 4 \<le> n"
  shows "\<exists>m. store_int H (a + of_nat i) w s = Some (s\<lparr>pmem := m\<rparr>)
    \<and> view loc n (s\<lparr>pmem := m\<rparr>) = take i (view loc n s) @ enc_int H w @ drop (i + 4) (view loc n s)
    \<and> (\<forall>f k. (f, k) \<notin> loc ` {..<n} \<longrightarrow> m f k = pmem s f k)"
  using store_window [OF assms(1), of i "enc_int H w"] assms(3) hw_okD(9) [OF assms(2), of w] by (simp add: store_int_def)

lemma length_words: "hw_ok H \<Longrightarrow> length (words H ws) = 4 * length ws"
  by (induction ws) (simp_all add: hw_okD(9))

lemma length_addrs [simp]: "length (addrs a i as) = length as"
  by (induction as arbitrary: i) simp_all

lemma zeros_between:
  "length A = 4 \<Longrightarrow> 4 \<le> k \<Longrightarrow> k \<le> i \<Longrightarrow> i \<le> n \<Longrightarrow> take (i - k) (drop k (A @ replicate (n - 4) x)) = replicate (i - k) x"
  by (simp add: min_def)

text \<open>Where the block lies: \<open>i\<close> is the offset of the strings in it.\<close>

lemma load_layout_block:
  assumes "lo = load_layout H li args" "n = unat (VMEM_1_LIMIT H - arg_cpp lo)"
    "args_size args + (length args + 3 + POST_ARGV_NULL_SPACE H) * 4 \<le> unat (VMEM_1_LIMIT H)"
  shows "unat (arg_cpp lo) + n = unat (VMEM_1_LIMIT H)" "4 * (length args + 3) \<le> n - args_size args"
    "args_size args \<le> n" "arg_cp lo = arg_cpp lo + of_nat (n - args_size args)" "argcount lo = length args"
proof -
  let ?L = "VMEM_1_LIMIT H" and ?size = "args_size args" and ?x = "(length args + 3 + POST_ARGV_NULL_SPACE H) * 4"
  have "unat ?L < 2 ^ LENGTH(32)" by (rule unsigned_less)
  then have b: "?size + ?x < 2 ^ 32" using assms(3) by simp
  have us: "unat (word_of_nat ?size :: u32) = ?size" and ux: "unat (word_of_nat ?x :: u32) = ?x"
    using b unat_of_nat_small [of ?size] unat_of_nat_small [of ?x] by linarith+
  have cp: "arg_cp lo = ?L - word_of_nat ?size" "arg_cpp lo = and (arg_cp lo - word_of_nat ?x) (not 7)"
    "argcount lo = length args" unfolding assms(1) load_layout_def Let_def by simp_all
  have ucp: "unat (arg_cp lo) = unat ?L - ?size"
    unfolding cp(1) using assms(3) us by (subst unat_sub) (simp_all add: word_le_nat_alt)
  have "unat (arg_cpp lo) \<le> unat (arg_cp lo - word_of_nat ?x)"
    unfolding cp(2) by (simp add: word_and_le2 word_le_nat_alt [symmetric])
  also have "\<dots> = unat ?L - ?size - ?x"
    using assms(3) ux ucp by (subst unat_sub) (simp_all add: word_le_nat_alt)
  finally have le: "unat (arg_cpp lo) \<le> unat ?L - ?size - ?x" .
  then have al: "unat (arg_cpp lo) \<le> unat ?L" by simp
  then have n: "n = unat ?L - unat (arg_cpp lo)" unfolding assms(2) by (subst unat_sub) (simp_all add: word_le_nat_alt)
  show s: "unat (arg_cpp lo) + n = unat ?L" using n al by simp
  show szn: "?size \<le> n" and "4 * (length args + 3) \<le> n - ?size" using n le assms(3) by simp_all
  have "?L = word_of_nat (unat (arg_cpp lo) + n)" unfolding s by simp
  then have "?L = arg_cpp lo + of_nat n" by simp
  then show "arg_cp lo = arg_cpp lo + of_nat (n - ?size)" using cp(1) szn by (simp add: of_nat_diff)
  show "argcount lo = length args" by (rule cp(3))
qed

text \<open>The block at \<open>a\<close> as bytes: the number of arguments, the vector, two NULLs, a gap, the strings.\<close>

definition args_block :: "hw \<Rightarrow> u8 list list \<Rightarrow> u32 \<Rightarrow> nat \<Rightarrow> u8 list" where
  "args_block H args a n = enc_int H (of_nat (length args)) @ words H (addrs a (n - args_size args) args)
     @ enc_int H 0 @ enc_int H 0 @ replicate (n - args_size args - 4 * (1 + length args) - 8) 0 @ flat_args args"

lemma build_stack_block:
  assumes "hw_ok H" "lo = load_layout H li args" "n = unat (VMEM_1_LIMIT H - arg_cpp lo)"
    "args_size args + (length args + 3 + POST_ARGV_NULL_SPACE H) * 4 \<le> unat (VMEM_1_LIMIT H)"
    "window H (arg_cpp lo) n loc s" "\<forall>b \<in> set args. 0 \<notin> set b"
  shows "\<exists>m. build_stack H lo (flat_args args) s = Some (s\<lparr>pmem := m\<rparr>)
    \<and> view loc n (s\<lparr>pmem := m\<rparr>) = args_block H args (arg_cpp lo) n
    \<and> (\<forall>f k. (f, k) \<notin> loc ` {..<n} \<longrightarrow> m f k = pmem s f k)"
proof -
  note lay = load_layout_block [OF assms(2-4)]
  define a where "a = arg_cpp lo"
  define i where "i = n - args_size args"
  have i: "i + args_size args = n" "4 * (length args + 3) \<le> i" using lay(2,3) by (simp_all add: i_def)
  let ?zero = "replicate n 0" and ?J = "1 + length args"
  have w: "window H a n loc (s\<lparr>pmem := m\<rparr>)" for m using assms(5) by (simp add: a_def)
  have "window H a n loc s" "0 + length ?zero \<le> n" using assms(5) by (simp_all add: a_def)
  from store_window [OF this] obtain m0 where m0: "store_bytes H a ?zero s = Some (s\<lparr>pmem := m0\<rparr>)"
    "view loc n (s\<lparr>pmem := m0\<rparr>) = ?zero" "\<forall>f k. (f, k) \<notin> loc ` {..<n} \<longrightarrow> m0 f k = pmem s f k" by auto
  have zero: "bzero H a (VMEM_1_LIMIT H - a) s = Some (s\<lparr>pmem := m0\<rparr>)" using m0(1) by (simp add: bzero_def assms(3) a_def)
  have e: "length (enc_int H x) = 4" for x by (rule hw_okD(9) [OF assms(1)])
  obtain m1 where m1: "store_int H a (of_nat (length args)) (s\<lparr>pmem := m0\<rparr>) = Some (s\<lparr>pmem := m1\<rparr>)"
    "view loc n (s\<lparr>pmem := m1\<rparr>) = enc_int H (of_nat (length args)) @ replicate (n - 4) 0"
    "\<forall>f k. (f, k) \<notin> loc ` {..<n} \<longrightarrow> m1 f k = m0 f k"
    using store_int_window [OF w assms(1), of 0] m0(2) i by fastforce
  have c: "4 * 1 + 4 * length args \<le> i" using i(2) by simp
  from push_args_ok [OF w [of m1] assms(1) c i(1) assms(6)]
  obtain m2 where m2: "push_args H (a + of_nat (4 * 1)) (a + of_nat i) (flat_args args) (length args) (s\<lparr>pmem := m1\<rparr>)
      = Some (a + of_nat (4 * ?J), s\<lparr>pmem := m1, pmem := m2\<rparr>)"
    "view loc n (s\<lparr>pmem := m1, pmem := m2\<rparr>) = take (4 * 1) (view loc n (s\<lparr>pmem := m1\<rparr>)) @ words H (addrs a i args)
        @ take (i - 4 * ?J) (drop (4 * ?J) (view loc n (s\<lparr>pmem := m1\<rparr>))) @ flat_args args"
    "\<forall>f k. (f, k) \<notin> loc ` {..<n} \<longrightarrow> m2 f k = pmem (s\<lparr>pmem := m1\<rparr>) f k"
    by (elim exE conjE) (rule that)
  define A where "A = enc_int H (of_nat (length args))"
  define W where "W = words H (addrs a i args)"
  have l: "length A = 4" "length W = 4 * length args" using e length_words [OF assms(1)] by (simp_all add: A_def W_def)
  have "take (i - 4 * ?J) (drop (4 * ?J) (A @ replicate (n - 4) (0 :: u8))) = replicate (i - 4 * ?J) 0"
    by (rule zeros_between [OF l(1)]) (use i in simp_all)
  then have v2: "view loc n (s\<lparr>pmem := m2\<rparr>) = (A @ W) @ replicate (i - 4 * ?J) 0 @ flat_args args"
    using m2(2) l(1) unfolding m1(2) A_def [symmetric] W_def [symmetric] by simp
  obtain m3 where m3: "store_int H (a + of_nat (4 * ?J)) 0 (s\<lparr>pmem := m2\<rparr>) = Some (s\<lparr>pmem := m3\<rparr>)"
    "view loc n (s\<lparr>pmem := m3\<rparr>) = (A @ W @ enc_int H 0) @ replicate (i - 4 * ?J - 4) 0 @ flat_args args"
    "\<forall>f k. (f, k) \<notin> loc ` {..<n} \<longrightarrow> m3 f k = m2 f k"
    using store_int_window [OF w [of m2] assms(1), of "4 * ?J" 0] i l unfolding v2 by (auto simp: add.commute)
  obtain m where m: "store_int H (a + of_nat (4 * ?J + 4)) 0 (s\<lparr>pmem := m3\<rparr>) = Some (s\<lparr>pmem := m\<rparr>)"
    "view loc n (s\<lparr>pmem := m\<rparr>) = (A @ W @ enc_int H 0) @ enc_int H 0 @ replicate (i - 4 * ?J - 8) 0 @ flat_args args"
    "\<forall>f k. (f, k) \<notin> loc ` {..<n} \<longrightarrow> m f k = m3 f k"
    using store_int_window [OF w [of m3] assms(1), of "4 * ?J + 4" 0] i l e unfolding m3(2) by (auto simp: add.commute)
  have ad: "a + of_nat (4 * 1) = a + 4" "a + of_nat (4 * ?J) + 4 = a + of_nat (4 * ?J + 4)" by simp_all
  have "build_stack H lo (flat_args args) s = Some (s\<lparr>pmem := m\<rparr>)"
    unfolding build_stack_def Let_def a_def [symmetric] lay(5)
    using zero m1(1) m2(1) m3(1) m(1) [folded ad(2)] lay(4) unfolding ad(1) a_def [symmetric] i_def [symmetric]
    by (simp del: of_nat_mult of_nat_Suc of_nat_add)
  moreover have "view loc n (s\<lparr>pmem := m\<rparr>) = args_block H args (arg_cpp lo) n"
    unfolding m(2) args_block_def A_def W_def a_def [symmetric] i_def [symmetric] by simp
  moreover have "\<forall>f k. (f, k) \<notin> loc ` {..<n} \<longrightarrow> m f k = pmem s f k" using m0(3) m1(3) m2(3) m3(3) m(3) by simp
  ultimately show ?thesis by blast
qed

lemma read_args_block:
  assumes w: "window H a n loc s" "hw_ok H" "unat a + n < 2 ^ 32" and i: "4 * (length args + 3) \<le> n - args_size args" "args_size args \<le> n"
    and v: "view loc n s = args_block H args a n" and z: "\<forall>b \<in> set args. 0 \<notin> set b"
  shows "load_int H a s = Some (of_nat (length args))" "load_argv H (a + 4) s = Some args"
proof -
  define k where "k = n - args_size args"
  have k: "4 * (length args + 3) \<le> k" using i(1) by (simp add: k_def)
  have l: "length (enc_int H x) = 4" "length (words H (addrs a k args)) = 4 * length args" for x
    using hw_okD(9) [OF w(2)] length_words [OF w(2)] by simp_all
  have "drop 0 (view loc n s) = enc_int H (of_nat (length args)) @ drop 4 (view loc n s)"
    unfolding v args_block_def using l by simp
  from load_int_window [OF w(1,2) this] show "load_int H a s = Some (of_nat (length args))" by simp
  have "load_argv H (a + of_nat (4 * 1)) s = Some args"
  proof (rule load_argv_window [OF w])
    show "drop (4 * 1) (view loc n s) = words H (addrs a k args) @ enc_int H 0 @ enc_int H 0
        @ replicate (k - 4 * (1 + length args) - 8) 0 @ flat_args args"
      unfolding v args_block_def k_def [symmetric] using l by simp
    show "drop k (view loc n s) = flat_args args @ []"
      unfolding v args_block_def k_def [symmetric] using l k by simp
  qed (use k z in simp_all)
  then show "load_argv H (a + 4) s = Some args" by simp
qed

end
