(* ===== verification/Load_Sys.thy ===== *)
theory Load_Sys
  imports Load_Props Args_Props Fork_Props
begin

text \<open>
  \<open>LoadProgram\<close> as a whole: what the new program finds in its memory.
\<close>

section \<open>Region 1 as one run of bytes\<close>

text \<open>Page \<open>j\<close> is in frame \<open>g j\<close>; byte \<open>o\<close> of Region 1 is at this place.\<close>

definition place :: "hw \<Rightarrow> (nat \<Rightarrow> nat) \<Rightarrow> nat \<Rightarrow> nat \<times> nat" where
  "place H g x = (g (x div 2 ^ PAGESHIFT H), x mod 2 ^ PAGESHIFT H)"

definition byte :: "hw \<Rightarrow> (nat \<Rightarrow> nat) \<Rightarrow> (nat \<Rightarrow> nat \<Rightarrow> u8) \<Rightarrow> nat \<Rightarrow> u8" where
  "byte H g m x = m (fst (place H g x)) (snd (place H g x))"

text \<open>The bytes of the pages in \<open>N\<close> can be accessed as \<open>need\<close> says.\<close>

definition open_pages :: "hw \<Rightarrow> 3 word \<Rightarrow> nat set \<Rightarrow> (nat \<Rightarrow> nat) \<Rightarrow> 'a mem_scheme \<Rightarrow> bool" where
  "open_pages H need N g s \<longleftrightarrow> N \<subseteq> {..<NUM_PAGES_REGION1 H} \<and> (\<exists>p t. ptbr1 s = Some p \<and> page_tables s p = Some t
     \<and> length t = NUM_PAGES_REGION1 H
     \<and> (\<forall>j \<in> N. valid (t ! j) \<and> and (prot (t ! j)) need = need \<and> unat (pfn (t ! j)) = g j))"

lemma open_pages_pmem [simp]: "open_pages H need N g (s\<lparr>pmem := m\<rparr>) = open_pages H need N g s"
  by (simp add: open_pages_def)

text \<open>The pages of the bytes \<open>o, .., o + n - 1\<close> are in \<open>N\<close>.\<close>

definition covers :: "hw \<Rightarrow> nat set \<Rightarrow> nat \<Rightarrow> nat \<Rightarrow> bool" where
  "covers H N x n \<longleftrightarrow> (\<forall>k < n. (x + k) div 2 ^ PAGESHIFT H \<in> N)"

lemma covers_segment:
  assumes "{i..<i + l} \<subseteq> N" "i * 2 ^ PAGESHIFT H \<le> x" "x + n \<le> (i + l) * 2 ^ PAGESHIFT H"
  shows "covers H N x n"
  unfolding covers_def
proof (intro allI impI)
  fix k assume "k < n"
  then have "x + k < (i + l) * 2 ^ PAGESHIFT H" "i * 2 ^ PAGESHIFT H \<le> x + k" using assms(2,3) by simp_all
  then have "(x + k) div 2 ^ PAGESHIFT H < i + l" "i \<le> (x + k) div 2 ^ PAGESHIFT H"
    by (simp_all add: less_mult_imp_div_less less_eq_div_iff_mult_less_eq)
  then show "(x + k) div 2 ^ PAGESHIFT H \<in> N" using assms(1) by auto
qed

lemma open_translate:
  assumes H: "regions_ok H kb" and op: "open_pages H need N g s" and a: "unat a = unat (VMEM_1_BASE H) + x"
    and k: "(x + k) div 2 ^ PAGESHIFT H \<in> N"
  shows "translate H need (a + of_nat k) s = Some (place H g (x + k))"
proof -
  let ?P = "2 ^ PAGESHIFT H :: nat" and ?N = "NUM_PAGES_REGION1 H"
  let ?q = "(x + k) div ?P" and ?r = "(x + k) mod ?P"
  obtain p t where t: "ptbr1 s = Some p" "page_tables s p = Some t" "length t = ?N"
    "valid (t ! ?q)" "and (prot (t ! ?q)) need = need" "unat (pfn (t ! ?q)) = g ?q" and q: "?q < ?N"
    using op k unfolding open_pages_def by blast
  have lim: "unat (VMEM_1_BASE H) = ?N * ?P" "unat (VMEM_1_LIMIT H) = (?N + ?N) * ?P" using H by (simp_all add: regions_ok_def)
  have "(?q + ?N) * ?P \<le> (?N + ?N) * ?P" using q by (intro mult_le_mono1) simp
  then have "(?q + ?N) * ?P < 2 ^ 32" using lim(2) unat_limit [of "VMEM_1_LIMIT H"] by linarith
  then have b: "unat (word_of_nat ((?q + ?N) * ?P) :: u32) = (?q + ?N) * ?P" by (rule unat_of_nat_small)
  have "(?q + ?N) * ?P + ?r = ?N * ?P + (x + k)"
    using div_mult_mod_eq [of "x + k" ?P] by (simp only: add_mult_distrib)
  also have "\<dots> = unat a + k" using a lim(1) by simp
  finally have e: "(?q + ?N) * ?P + ?r = unat a + k" .
  have "a + of_nat k = word_of_nat (unat a + k)" by simp
  also have "\<dots> = word_of_nat ((?q + ?N) * ?P) + of_nat ?r" unfolding e [symmetric] by (simp only: of_nat_add)
  finally have "a + of_nat k = word_of_nat ((?q + ?N) * ?P) + of_nat ?r" .
  then show ?thesis
    using translate_region1 [OF H b q, of ?r s p t need] t q by (simp add: place_def)
qed

lemma open_placed:
  assumes "regions_ok H kb" "open_pages H need N g s" "unat a = unat (VMEM_1_BASE H) + x" "covers H N x n"
  shows "placed H need a n (\<lambda>k. place H g (x + k)) s"
  using open_translate [OF assms(1-3)] assms(4) by (simp add: placed_def covers_def)

lemma place_inj:
  assumes "inj_on g N" "x div 2 ^ PAGESHIFT H \<in> N" "y div 2 ^ PAGESHIFT H \<in> N"
  shows "place H g x = place H g y \<longleftrightarrow> x = y"
proof
  assume "place H g x = place H g y"
  then have "x div 2 ^ PAGESHIFT H = y div 2 ^ PAGESHIFT H" "x mod 2 ^ PAGESHIFT H = y mod 2 ^ PAGESHIFT H"
    using assms by (auto simp: place_def inj_on_def)
  then show "x = y" by (metis div_mult_mod_eq)
qed simp

text \<open>The bytes \<open>x, .., x + n - 1\<close> of Region 1, and a step that changes no other byte of memory.\<close>

definition bytes_from :: "hw \<Rightarrow> (nat \<Rightarrow> nat) \<Rightarrow> (nat \<Rightarrow> nat \<Rightarrow> u8) \<Rightarrow> nat \<Rightarrow> nat \<Rightarrow> u8 list" where
  "bytes_from H g m x n = map (byte H g m) [x..<x + n]"

lemma bytes_from_at: "bytes_from H g m x n = bytes_at m (\<lambda>k. place H g (x + k)) n"
  by (rule nth_equalityI) (simp_all add: bytes_from_def bytes_at_def byte_def)

lemma bytes_from_take: "n \<le> l \<Longrightarrow> bytes_from H g m x n = take n (bytes_from H g m x l)"
  by (rule nth_equalityI) (simp_all add: bytes_from_def)

definition kept :: "hw \<Rightarrow> nat set \<Rightarrow> (nat \<Rightarrow> nat) \<Rightarrow> nat \<Rightarrow> nat \<Rightarrow> (nat \<Rightarrow> nat \<Rightarrow> u8) \<Rightarrow> (nat \<Rightarrow> nat \<Rightarrow> u8) \<Rightarrow> bool" where
  "kept H N g x n m m' \<longleftrightarrow> (\<forall>y. y div 2 ^ PAGESHIFT H \<in> N \<and> \<not> (x \<le> y \<and> y < x + n) \<longrightarrow> byte H g m' y = byte H g m y)
     \<and> (\<forall>f i. f \<notin> g ` N \<longrightarrow> m' f i = m f i)"

lemma kept_bytes:
  "kept H N g x n m m' \<Longrightarrow> covers H N y l \<Longrightarrow> y + l \<le> x \<or> x + n \<le> y \<Longrightarrow> bytes_from H g m' y l = bytes_from H g m y l"
  unfolding bytes_from_def
  by (rule nth_equalityI) (auto simp: kept_def covers_def)

lemma keptI:
  assumes inj: "inj_on g N" and cov: "covers H N x n"
    and m: "\<forall>f i. (f, i) \<notin> (\<lambda>k. place H g (x + k)) ` {..<n} \<longrightarrow> m' f i = m f i"
  shows "kept H N g x n m m'"
proof -
  have "byte H g m' y = byte H g m y" if y: "y div 2 ^ PAGESHIFT H \<in> N" "\<not> (x \<le> y \<and> y < x + n)" for y
  proof -
    have "place H g y \<notin> (\<lambda>k. place H g (x + k)) ` {..<n}"
    proof
      assume "place H g y \<in> (\<lambda>k. place H g (x + k)) ` {..<n}"
      then obtain k where k: "k < n" "place H g y = place H g (x + k)" by blast
      then have "y = x + k" using place_inj [OF inj y(1), of "x + k"] cov by (simp add: covers_def)
      then show False using y(2) k(1) by simp
    qed
    then show ?thesis unfolding byte_def using m by (metis prod.collapse)
  qed
  moreover have "m' f i = m f i" if "f \<notin> g ` N" for f i
  proof -
    have "(f, i) \<notin> (\<lambda>k. place H g (x + k)) ` {..<n}" using that cov by (auto simp: place_def covers_def)
    then show ?thesis using m by blast
  qed
  ultimately show ?thesis by (simp add: kept_def)
qed

lemma open_inj:
  assumes "inj_on g N" "covers H N x n"
  shows "inj_on (\<lambda>k. place H g (x + k)) {..<n}"
  using place_inj [OF assms(1)] assms(2) by (auto simp: inj_on_def covers_def)

lemma store_region1:
  assumes H: "regions_ok H kb" and op: "open_pages H (PROT_WRITE H) N g s" and inj: "inj_on g N"
    and a: "unat a = unat (VMEM_1_BASE H) + x" and cov: "covers H N x (length bs)"
  shows "\<exists>m. store_bytes H a bs s = Some (s\<lparr>pmem := m\<rparr>) \<and> bytes_from H g m x (length bs) = bs \<and> kept H N g x (length bs) (pmem s) m"
proof -
  obtain m where m: "store_bytes H a bs s = Some (s\<lparr>pmem := m\<rparr>)" "bytes_at m (\<lambda>k. place H g (x + k)) (length bs) = bs"
    "\<forall>f i. (f, i) \<notin> (\<lambda>k. place H g (x + k)) ` {..<length bs} \<longrightarrow> m f i = pmem s f i"
    using store_bytes_placed [OF open_placed [OF H op a cov] open_inj [OF inj cov]] by (elim exE conjE) (rule that)
  show ?thesis by (intro exI [of _ m] conjI m(1) m(2) [folded bytes_from_at] keptI [OF inj cov m(3)])
qed

lemma load_region1:
  assumes "regions_ok H kb" "open_pages H (PROT_READ H) N g s" "unat a = unat (VMEM_1_BASE H) + x" "covers H N x n"
  shows "load_bytes H a n s = Some (bytes_from H g (pmem s) x n)"
  using load_bytes_placed [OF open_placed [OF assms]] unfolding bytes_from_at .

section \<open>The text becomes read-only\<close>

definition rx_pages :: "hw \<Rightarrow> nat \<Rightarrow> nat \<Rightarrow> pte list \<Rightarrow> pte list" where
  "rx_pages H i n t = map (\<lambda>j. if i \<le> j \<and> j < i + n then (t ! j)\<lparr>prot := or (PROT_READ H) (PROT_EXEC H)\<rparr> else t ! j) [0..<length t]"

lemma rx_pages_simps [simp]:
  "length (rx_pages H i n t) = length t"
  "j < length t \<Longrightarrow> rx_pages H i n t ! j = (if i \<le> j \<and> j < i + n then (t ! j)\<lparr>prot := or (PROT_READ H) (PROT_EXEC H)\<rparr> else t ! j)"
  by (simp_all add: rx_pages_def)

lemma protect_text_ok:
  fixes s :: "'a mem_scheme"
  assumes "page_tables s p = Some t" "i + n \<le> length t"
  shows "\<exists>l. protect_text H (Some p) i n s = Some (s\<lparr>page_tables := (page_tables s)(p \<mapsto> rx_pages H i n t), reg_log := l\<rparr>)"
  using assms
proof (induction n arbitrary: i s t)
  case 0
  have "(i \<le> j \<and> j < i + 0) = False" for j by simp
  then have r: "rx_pages H i 0 t = t" by (simp only: rx_pages_def if_False map_nth)
  have u: "(page_tables s)(p \<mapsto> t) = page_tables s" using 0(1) by (rule fun_upd_idem)
  have s: "s\<lparr>page_tables := page_tables s, reg_log := reg_log s\<rparr> = s" by simp
  show ?case unfolding r u by (rule exI [of _ "reg_log s"], unfold s) (rule protect_text.simps(1))
next
  case (Suc n)
  let ?e = "(t ! i)\<lparr>prot := or (PROT_READ H) (PROT_EXEC H)\<rparr>" and ?f = "W_TLB_FLUSH (VMEM_1_BASE H + push_bit (PAGESHIFT H) (word_of_nat i))"
  define s1 where "s1 = s\<lparr>page_tables := (page_tables s)(p \<mapsto> t[i := ?e]), reg_log := reg_log s @ [?f]\<rparr>"
  have i: "i < length t" using Suc.prems(2) by simp
  have "pt_set (Table p) (int i) ?e s = Some (s\<lparr>page_tables := (page_tables s)(p \<mapsto> t[i := ?e])\<rparr>)"
    using Suc.prems(1) i by (simp add: pt_set_def)
  then have st: "protect_text H (Some p) i (Suc n) s = protect_text H (Some p) (Suc i) n s1"
    using pt_get_Table [OF Suc.prems(1) i] by (simp add: s1_def WriteRegister_flush)
  have "page_tables s1 p = Some (t[i := ?e])" "Suc i + n \<le> length (t[i := ?e])" using Suc.prems(2) by (simp_all add: s1_def)
  from Suc.IH [OF this] obtain l where
    l: "protect_text H (Some p) (Suc i) n s1 = Some (s1\<lparr>page_tables := (page_tables s1)(p \<mapsto> rx_pages H (Suc i) n (t[i := ?e])), reg_log := l\<rparr>)"
    by blast
  have r: "rx_pages H (Suc i) n (t[i := ?e]) = rx_pages H i (Suc n) t"
    by (rule nth_equalityI) (auto simp: nth_list_update le_less Suc_le_eq)
  have e: "s1\<lparr>page_tables := (page_tables s1)(p \<mapsto> x), reg_log := l\<rparr> = s\<lparr>page_tables := (page_tables s)(p \<mapsto> x), reg_log := l\<rparr>" for x
    by (simp add: s1_def)
  show ?case unfolding st l r e by (rule exI) (rule refl)
qed

section \<open>The segments\<close>

text \<open>
  What the linker and \<open>LoadInfo\<close> provide: segments that start on page boundaries in Region 1, the
  text below the data, whose end is followed by the uninitialised data, and a file that has them all.
\<close>

definition image_ok :: "hw \<Rightarrow> layout \<Rightarrow> load_info \<Rightarrow> exe \<Rightarrow> bool" where
  "image_ok H lo li x \<longleftrightarrow> unat (t_vaddr li) = unat (VMEM_1_BASE H) + text_pg1 lo * 2 ^ PAGESHIFT H
     \<and> unat (id_vaddr li) = unat (VMEM_1_BASE H) + data_pg1 lo * 2 ^ PAGESHIFT H
     \<and> text_pg1 lo + t_npg li \<le> data_pg1 lo
     \<and> unat (id_vaddr li) \<le> unat (id_end li) \<and> unat (id_end li) \<le> unat (id_vaddr li) + id_npg li * 2 ^ PAGESHIFT H
     \<and> unat (id_end li) \<le> unat (ud_end li)
     \<and> unat (ud_end li) \<le> unat (VMEM_1_BASE H) + (data_pg1 lo + data_npg lo) * 2 ^ PAGESHIFT H
     \<and> id_npg li \<le> data_npg lo
     \<and> t_faddr li + t_npg li * 2 ^ PAGESHIFT H \<le> length (exe_bytes x)
     \<and> id_faddr li + id_npg li * 2 ^ PAGESHIFT H \<le> length (exe_bytes x)"

text \<open>The block of the arguments lies in the pages of the stack.\<close>

definition args_fit :: "hw \<Rightarrow> layout \<Rightarrow> u8 list list \<Rightarrow> bool" where
  "args_fit H lo args \<longleftrightarrow> args_size args + (length args + 3 + POST_ARGV_NULL_SPACE H) * 4 \<le> unat (VMEM_1_LIMIT H)
     \<and> unat (VMEM_1_BASE H) + (MAX_PT_LEN H - stack_npg lo) * 2 ^ PAGESHIFT H \<le> unat (arg_cpp lo)
     \<and> (\<forall>b \<in> set args. 0 \<notin> set b)"

lemma kept_mono:
  assumes k: "kept H N' g x n m m'" and N: "N' \<subseteq> N" "inj_on g N"
  shows "kept H N g x n m m'"
proof -
  have "byte H g m' y = byte H g m y" if y: "y div 2 ^ PAGESHIFT H \<in> N" "\<not> (x \<le> y \<and> y < x + n)" for y
  proof (cases "y div 2 ^ PAGESHIFT H \<in> N'")
    case True
    then show ?thesis using k y(2) by (simp add: kept_def)
  next
    case False
    then have "g (y div 2 ^ PAGESHIFT H) \<notin> g ` N'" using y(1) N inj_on_image_mem_iff [of g N "y div 2 ^ PAGESHIFT H" N'] by simp
    then show ?thesis using k by (simp add: kept_def byte_def place_def)
  qed
  then show ?thesis using k N(1) unfolding kept_def by blast
qed

lemma kept_trans:
  assumes "kept H N g x n m m'" "kept H N g y l m' m''" "z \<le> x" "x + n \<le> z + k" "z \<le> y" "y + l \<le> z + k"
  shows "kept H N g z k m m''"
  using assms unfolding kept_def by auto

lemma file_read_ok:
  fixes s :: "'a mem_scheme"
  assumes "regions_ok H kb" "open_pages H (PROT_WRITE H) N g s" "inj_on g N" "unat a = unat (VMEM_1_BASE H) + x" "covers H N x n"
    "off + n \<le> length (exe_bytes e)"
  shows "\<exists>m. file_read H e off a n s = Some (n, s\<lparr>pmem := m\<rparr>) \<and> bytes_from H g m x n = take n (drop off (exe_bytes e))
    \<and> kept H N g x n (pmem s) m"
proof -
  let ?bs = "take n (drop off (exe_bytes e))"
  have l: "length ?bs = n" using assms(6) by simp
  from store_region1 [OF assms(1-4), of ?bs, unfolded l, OF assms(5)] show ?thesis
    using l by (auto simp: file_read_def Let_def)
qed

lemma bzero_ok:
  fixes s :: "'a mem_scheme"
  assumes "regions_ok H kb" "open_pages H (PROT_WRITE H) N g s" "inj_on g N" "unat a = unat (VMEM_1_BASE H) + x" "covers H N x (unat n)"
  shows "\<exists>m. bzero H a n s = Some (s\<lparr>pmem := m\<rparr>) \<and> bytes_from H g m x (unat n) = replicate (unat n) 0 \<and> kept H N g x (unat n) (pmem s) m"
  using store_region1 [OF assms(1-4), of "replicate (unat n) 0"] assms(5) by (simp add: bzero_def)

lemma build_stack_region1:
  fixes s :: "'a mem_scheme"
  assumes H: "regions_ok H kb" and op: "open_pages H (PROT_WRITE H) N g s" "open_pages H (PROT_READ H) N g s" and inj: "inj_on g N"
    and lo: "lo = load_layout H li args" and fit: "args_fit H lo args" and a: "unat (arg_cpp lo) = unat (VMEM_1_BASE H) + x"
    and n: "n = unat (VMEM_1_LIMIT H - arg_cpp lo)" and cov: "covers H N x n"
  shows "\<exists>m. build_stack H lo (flat_args args) s = Some (s\<lparr>pmem := m\<rparr>) \<and> bytes_from H g m x n = args_block H args (arg_cpp lo) n
    \<and> kept H N g x n (pmem s) m"
proof -
  have w: "window H (arg_cpp lo) n (\<lambda>k. place H g (x + k)) s"
    unfolding window_def using open_placed [OF H op(1) a cov] open_placed [OF H op(2) a cov] open_inj [OF inj cov] by blast
  have "hw_ok H" using H by (simp add: regions_ok_def)
  from build_stack_block [OF this lo n _ w] fit obtain m where
    m: "build_stack H lo (flat_args args) s = Some (s\<lparr>pmem := m\<rparr>)"
      "view (\<lambda>k. place H g (x + k)) n (s\<lparr>pmem := m\<rparr>) = args_block H args (arg_cpp lo) n"
      "\<forall>f k. (f, k) \<notin> (\<lambda>k. place H g (x + k)) ` {..<n} \<longrightarrow> m f k = pmem s f k" by (auto simp: args_fit_def)
  have "bytes_from H g m x n = args_block H args (arg_cpp lo) n" using m(2) by (simp add: view_def bytes_from_at)
  then show ?thesis using m(1) keptI [OF inj cov m(3)] by blast
qed

section \<open>The program in memory\<close>

text \<open>The pages that stay writable, and what Region 1 holds at the end.\<close>

definition rw_pages :: "hw \<Rightarrow> layout \<Rightarrow> nat set" where
  "rw_pages H lo = {data_pg1 lo..<data_pg1 lo + data_npg lo} \<union> {MAX_PT_LEN H - stack_npg lo..<MAX_PT_LEN H}"

definition program_image :: "hw \<Rightarrow> layout \<Rightarrow> load_info \<Rightarrow> exe \<Rightarrow> u8 list list \<Rightarrow> (nat \<Rightarrow> nat) \<Rightarrow> (nat \<Rightarrow> nat \<Rightarrow> u8) \<Rightarrow> bool" where
  "program_image H lo li x args g m \<longleftrightarrow>
     (let P = 2 ^ PAGESHIFT H; B = unat (VMEM_1_BASE H); n = unat (VMEM_1_LIMIT H - arg_cpp lo)
      in bytes_from H g m (text_pg1 lo * P) (t_npg li * P) = take (t_npg li * P) (drop (t_faddr li) (exe_bytes x))
       \<and> bytes_from H g m (data_pg1 lo * P) (unat (id_end li) - unat (id_vaddr li))
           = take (unat (id_end li) - unat (id_vaddr li)) (drop (id_faddr li) (exe_bytes x))
       \<and> bytes_from H g m (unat (id_end li) - B) (unat (ud_end li) - unat (id_end li)) = replicate (unat (ud_end li) - unat (id_end li)) 0
       \<and> bytes_from H g m (unat (arg_cpp lo) - B) n = args_block H args (arg_cpp lo) n)"

text \<open>Four blocks written one after the other, the third twice and over the end of the second.\<close>

lemma blocks_written:
  assumes k: "kept H N g a k m m1" "kept H N g b l m1 m2" "kept H N g c n m2 m3" "kept H N g c n m3 m4" "kept H N g d j m4 m5"
    and w: "bytes_from H g m1 a k = A" "bytes_from H g m2 b l = B" "bytes_from H g m4 c n = C"
    and cov: "covers H N a k" "covers H N b l" "covers H N c n"
    and le: "a + k \<le> b" "b \<le> c" "c \<le> b + l" "b + l \<le> d" "c + n \<le> d"
  shows "bytes_from H g m5 a k = A" "bytes_from H g m5 b (c - b) = take (c - b) B" "bytes_from H g m5 c n = C"
    "\<forall>f i. f \<notin> g ` N \<longrightarrow> m5 f i = m f i"
proof -
  have cb: "covers H N b (c - b)" using cov(2) le by (simp add: covers_def)
  show "bytes_from H g m5 a k = A"
    using kept_bytes [OF k(2) cov(1)] kept_bytes [OF k(3) cov(1)] kept_bytes [OF k(4) cov(1)] kept_bytes [OF k(5) cov(1)] w(1) le by simp
  have "bytes_from H g m2 b (c - b) = take (c - b) B" using bytes_from_take [of "c - b" l] w(2) le by simp
  then show "bytes_from H g m5 b (c - b) = take (c - b) B"
    using kept_bytes [OF k(3) cb] kept_bytes [OF k(4) cb] kept_bytes [OF k(5) cb] le by simp
  show "bytes_from H g m5 c n = C" using kept_bytes [OF k(5) cov(3)] w(3) le by simp
  show "\<forall>f i. f \<notin> g ` N \<longrightarrow> m5 f i = m f i" using k by (simp add: kept_def)
qed

lemma open_programI:
  assumes "ptbr1 s = Some p" "page_tables s p = Some t" "length t = NUM_PAGES_REGION1 H" "N \<subseteq> {..<NUM_PAGES_REGION1 H}"
    "\<forall>j \<in> N. valid (t ! j) \<and> and (prot (t ! j)) need = need \<and> pfn (t ! j) = word_of_nat (g j) \<and> g j < 2 ^ 24"
  shows "open_pages H need N g s"
proof -
  have "unat (pfn (t ! j)) = g j" if "j \<in> N" for j
  proof -
    have "g j < 2 ^ 24" "pfn (t ! j) = word_of_nat (g j)" using assms(5) that by simp_all
    then show ?thesis by (simp add: unsigned_of_nat take_bit_nat_eq_self)
  qed
  then show ?thesis unfolding open_pages_def using assms by blast
qed

text \<open>Where the segments and the arguments are.\<close>

lemma segments:
  assumes H: "regions_ok H kb" "MAX_PT_LEN H = NUM_PAGES_REGION1 H" and lo: "lo = load_layout H li args"
    and im: "image_ok H lo li x" and fit: "args_fit H lo args" and room: "stack_npg lo + data_pg1 lo + data_npg lo < MAX_PT_LEN H"
    and B: "B = unat (VMEM_1_BASE H)" and P: "P = 2 ^ PAGESHIFT H" and n: "n = unat (VMEM_1_LIMIT H - arg_cpp lo)"
  shows "unat (id_end li) = B + (unat (id_end li) - B)" "unat (arg_cpp lo) = B + (unat (arg_cpp lo) - B)"
    "unat (id_end li) - B - data_pg1 lo * P = unat (id_end li) - unat (id_vaddr li)"
    "unat (ud_end li - id_end li) = unat (ud_end li) - unat (id_end li)"
    "covers H (program_pages H lo li) (text_pg1 lo * P) (t_npg li * P)"
    "covers H (rw_pages H lo) (data_pg1 lo * P) (id_npg li * P)"
    "covers H (rw_pages H lo) (unat (id_end li) - B) (unat (ud_end li) - unat (id_end li))"
    "covers H (rw_pages H lo) (unat (arg_cpp lo) - B) n"
    "text_pg1 lo * P + t_npg li * P \<le> data_pg1 lo * P" "data_pg1 lo * P \<le> unat (id_end li) - B"
    "unat (id_end li) - B \<le> data_pg1 lo * P + id_npg li * P" "data_pg1 lo * P + id_npg li * P \<le> unat (arg_cpp lo) - B"
    "unat (id_end li) - B + (unat (ud_end li) - unat (id_end li)) \<le> unat (arg_cpp lo) - B"
    "rw_pages H lo \<subseteq> program_pages H lo li" "program_pages H lo li \<subseteq> {..<NUM_PAGES_REGION1 H}"
proof -
  let ?i3 = "MAX_PT_LEN H - stack_npg lo"
  have i: "unat (id_vaddr li) = B + data_pg1 lo * P" "text_pg1 lo + t_npg li \<le> data_pg1 lo" "unat (id_vaddr li) \<le> unat (id_end li)"
    "unat (id_end li) \<le> unat (id_vaddr li) + id_npg li * P" "unat (id_end li) \<le> unat (ud_end li)"
    "unat (ud_end li) \<le> B + (data_pg1 lo + data_npg lo) * P" "id_npg li \<le> data_npg lo" using im by (simp_all add: image_ok_def B P)
  have c: "B + ?i3 * P \<le> unat (arg_cpp lo)" using fit by (simp add: args_fit_def B P)
  have "unat (arg_cpp lo) + n = unat (VMEM_1_LIMIT H)" using load_layout_block(1) [OF lo n] fit by (simp add: args_fit_def)
  then have L: "unat (arg_cpp lo) - B + n = MAX_PT_LEN H * P" using H c by (simp add: regions_ok_def B P)
  have m: "(text_pg1 lo + t_npg li) * P \<le> data_pg1 lo * P" "(data_pg1 lo + data_npg lo) * P \<le> ?i3 * P" "id_npg li * P \<le> data_npg lo * P"
    using i(2,7) room by (intro mult_le_mono1; simp)+
  note m' = m(1,2) [unfolded add_mult_distrib] m(3) and i' = i(6) [unfolded add_mult_distrib]
  show "unat (id_end li) = B + (unat (id_end li) - B)" "unat (arg_cpp lo) = B + (unat (arg_cpp lo) - B)"
    "unat (id_end li) - B - data_pg1 lo * P = unat (id_end li) - unat (id_vaddr li)" using i c by simp_all
  show "unat (ud_end li - id_end li) = unat (ud_end li) - unat (id_end li)"
    using i(5) by (subst unat_sub) (simp_all add: word_le_nat_alt)
  show "text_pg1 lo * P + t_npg li * P \<le> data_pg1 lo * P" "data_pg1 lo * P \<le> unat (id_end li) - B"
    "unat (id_end li) - B \<le> data_pg1 lo * P + id_npg li * P" "data_pg1 lo * P + id_npg li * P \<le> unat (arg_cpp lo) - B"
    and e: "unat (id_end li) - B + (unat (ud_end li) - unat (id_end li)) \<le> unat (arg_cpp lo) - B"
    using m' i(1-5) i' c by linarith+
  show "rw_pages H lo \<subseteq> program_pages H lo li" "program_pages H lo li \<subseteq> {..<NUM_PAGES_REGION1 H}"
    using i(2) room H(2) by (auto simp: rw_pages_def program_pages_def)
  show "covers H (program_pages H lo li) (text_pg1 lo * P) (t_npg li * P)"
    by (rule covers_segment [where i = "text_pg1 lo" and l = "t_npg li"]) (auto simp: program_pages_def P add_mult_distrib)
  have d: "{data_pg1 lo..<data_pg1 lo + data_npg lo} \<subseteq> rw_pages H lo" by (auto simp: rw_pages_def)
  show "covers H (rw_pages H lo) (data_pg1 lo * P) (id_npg li * P)"
    by (rule covers_segment [OF d]) (use m(3) in \<open>simp_all add: P add_mult_distrib\<close>)
  show "covers H (rw_pages H lo) (unat (id_end li) - B) (unat (ud_end li) - unat (id_end li))"
    by (rule covers_segment [OF d], fold P) (use i in linarith)+
  show "covers H (rw_pages H lo) (unat (arg_cpp lo) - B) n"
    by (rule covers_segment [where i = ?i3 and l = "stack_npg lo"], fold P) (use c L room in \<open>auto simp: rw_pages_def\<close>)
qed

text \<open>The two segments of the file, before the text is protected.\<close>

lemma load_segments:
  fixes s :: "'a mem_scheme"
  assumes H: "regions_ok H kb" "MAX_PT_LEN H = NUM_PAGES_REGION1 H" and lo: "lo = load_layout H li args"
    and im: "image_ok H lo li x" and fit: "args_fit H lo args" and room: "stack_npg lo + data_pg1 lo + data_npg lo < MAX_PT_LEN H"
    and P: "P = 2 ^ PAGESHIFT H" and N: "N = program_pages H lo li"
    and op: "open_pages H (PROT_WRITE H) N g s" and inj: "inj_on g N"
  shows "\<exists>m1 m2. file_read H x (t_faddr li) (t_vaddr li) (t_npg li * P) s = Some (t_npg li * P, s\<lparr>pmem := m1\<rparr>)
    \<and> file_read H x (id_faddr li) (id_vaddr li) (id_npg li * P) (s\<lparr>pmem := m1\<rparr>) = Some (id_npg li * P, s\<lparr>pmem := m2\<rparr>)
    \<and> kept H N g (text_pg1 lo * P) (t_npg li * P) (pmem s) m1 \<and> kept H N g (data_pg1 lo * P) (id_npg li * P) m1 m2
    \<and> bytes_from H g m1 (text_pg1 lo * P) (t_npg li * P) = take (t_npg li * P) (drop (t_faddr li) (exe_bytes x))
    \<and> bytes_from H g m2 (data_pg1 lo * P) (id_npg li * P) = take (id_npg li * P) (drop (id_faddr li) (exe_bytes x))"
proof -
  note seg = segments [OF H lo im fit room refl P refl, folded N]
  have v: "unat (t_vaddr li) = unat (VMEM_1_BASE H) + text_pg1 lo * P" "unat (id_vaddr li) = unat (VMEM_1_BASE H) + data_pg1 lo * P"
    "t_faddr li + t_npg li * P \<le> length (exe_bytes x)" "id_faddr li + id_npg li * P \<le> length (exe_bytes x)"
    using im by (simp_all add: image_ok_def P)
  have cd: "covers H N (data_pg1 lo * P) (id_npg li * P)" using seg(6,14) by (auto simp: covers_def)
  obtain m1 where m1: "file_read H x (t_faddr li) (t_vaddr li) (t_npg li * P) s = Some (t_npg li * P, s\<lparr>pmem := m1\<rparr>)"
    "bytes_from H g m1 (text_pg1 lo * P) (t_npg li * P) = take (t_npg li * P) (drop (t_faddr li) (exe_bytes x))"
    "kept H N g (text_pg1 lo * P) (t_npg li * P) (pmem s) m1"
    using file_read_ok [OF H(1) op inj v(1) seg(5) v(3)] by (elim exE conjE) (rule that)
  have op1: "open_pages H (PROT_WRITE H) N g (s\<lparr>pmem := m1\<rparr>)" using op by simp
  obtain m2 where m2: "file_read H x (id_faddr li) (id_vaddr li) (id_npg li * P) (s\<lparr>pmem := m1\<rparr>)
      = Some (id_npg li * P, s\<lparr>pmem := m1, pmem := m2\<rparr>)"
    "bytes_from H g m2 (data_pg1 lo * P) (id_npg li * P) = take (id_npg li * P) (drop (id_faddr li) (exe_bytes x))"
    "kept H N g (data_pg1 lo * P) (id_npg li * P) (pmem (s\<lparr>pmem := m1\<rparr>)) m2"
    using file_read_ok [OF H(1) op1 inj v(2) cd v(4)] by (elim exE conjE) (rule that)
  show ?thesis by (rule exI [of _ m1], rule exI [of _ m2]) (use m1 m2 in simp)
qed

text \<open>The uninitialised data, cleared twice, and the arguments.\<close>

lemma clear_twice:
  fixes s :: "'a mem_scheme"
  assumes H: "regions_ok H kb" "MAX_PT_LEN H = NUM_PAGES_REGION1 H" and lo: "lo = load_layout H li args"
    and im: "image_ok H lo li x" and fit: "args_fit H lo args" and room: "stack_npg lo + data_pg1 lo + data_npg lo < MAX_PT_LEN H"
    and N: "N = program_pages H lo li" "R = rw_pages H lo" and B: "B = unat (VMEM_1_BASE H)"
    and op: "open_pages H (PROT_WRITE H) R g s" and inj: "inj_on g N"
    and l: "l = unat (ud_end li) - unat (id_end li)"
  shows "\<exists>m3 m4. bzero H (id_end li) (ud_end li - id_end li) s = Some (s\<lparr>pmem := m3\<rparr>)
    \<and> bzero H (id_end li) (ud_end li - id_end li) (s\<lparr>pmem := m3\<rparr>) = Some (s\<lparr>pmem := m4\<rparr>)
    \<and> kept H N g (unat (id_end li) - B) l (pmem s) m3 \<and> kept H N g (unat (id_end li) - B) l m3 m4
    \<and> bytes_from H g m4 (unat (id_end li) - B) l = replicate l 0"
proof -
  note seg = segments [OF H lo im fit room refl refl refl, folded B N l]
  have injR: "inj_on g R" using inj seg(14) by (rule inj_on_subset)
  note up = kept_mono [OF _ seg(14) inj]
  have opm: "open_pages H (PROT_WRITE H) R g (s\<lparr>pmem := m\<rparr>)" for m using op by simp
  have v: "unat (id_end li) = unat (VMEM_1_BASE H) + (unat (id_end li) - B)" using seg(1) unfolding B by simp
  have z: "\<exists>m'. bzero H (id_end li) (ud_end li - id_end li) (s\<lparr>pmem := m\<rparr>) = Some (s\<lparr>pmem := m, pmem := m'\<rparr>)
      \<and> bytes_from H g m' (unat (id_end li) - B) l = replicate l 0
      \<and> kept H R g (unat (id_end li) - B) l (pmem (s\<lparr>pmem := m\<rparr>)) m'" for m
    using bzero_ok [OF H(1) opm injR v, where n = "ud_end li - id_end li", unfolded seg(4), OF seg(7)] .
  obtain m3 where m3: "bzero H (id_end li) (ud_end li - id_end li) s = Some (s\<lparr>pmem := m3\<rparr>)"
    "kept H R g (unat (id_end li) - B) l (pmem s) m3" using z [of "pmem s"] by auto
  obtain m4 where m4: "bzero H (id_end li) (ud_end li - id_end li) (s\<lparr>pmem := m3\<rparr>) = Some (s\<lparr>pmem := m4\<rparr>)"
    "bytes_from H g m4 (unat (id_end li) - B) l = replicate l 0" "kept H R g (unat (id_end li) - B) l m3 m4" using z [of m3] by auto
  show ?thesis by (rule exI [of _ m3], rule exI [of _ m4]) (use m3(1) m4(1,2) up [OF m3(2)] up [OF m4(3)] in simp)
qed

lemma write_arguments:
  fixes s :: "'a mem_scheme"
  assumes H: "regions_ok H kb" "MAX_PT_LEN H = NUM_PAGES_REGION1 H" and lo: "lo = load_layout H li args"
    and im: "image_ok H lo li x" and fit: "args_fit H lo args" and room: "stack_npg lo + data_pg1 lo + data_npg lo < MAX_PT_LEN H"
    and N: "N = program_pages H lo li" "R = rw_pages H lo" and B: "B = unat (VMEM_1_BASE H)"
    and op: "open_pages H (PROT_WRITE H) R g s" "open_pages H (PROT_READ H) R g s" and inj: "inj_on g N"
    and n: "n = unat (VMEM_1_LIMIT H - arg_cpp lo)"
  shows "\<exists>m. build_stack H lo (flat_args args) s = Some (s\<lparr>pmem := m\<rparr>) \<and> kept H N g (unat (arg_cpp lo) - B) n (pmem s) m
    \<and> bytes_from H g m (unat (arg_cpp lo) - B) n = args_block H args (arg_cpp lo) n"
proof -
  note seg = segments [OF H lo im fit room refl refl n, folded B N]
  have injR: "inj_on g R" using inj seg(14) by (rule inj_on_subset)
  have v: "unat (arg_cpp lo) = unat (VMEM_1_BASE H) + (unat (arg_cpp lo) - B)" using seg(2) unfolding B by simp
  obtain m where m: "build_stack H lo (flat_args args) s = Some (s\<lparr>pmem := m\<rparr>)"
    "bytes_from H g m (unat (arg_cpp lo) - B) n = args_block H args (arg_cpp lo) n" "kept H R g (unat (arg_cpp lo) - B) n (pmem s) m"
    using build_stack_region1 [OF H(1) op injR lo fit v n seg(8)] by (elim exE conjE) (rule that)
  show ?thesis using m(1,2) kept_mono [OF m(3) seg(14) inj] by blast
qed

text \<open>What can be accessed once the text is protected.\<close>

lemma rx_open:
  fixes s :: "'a mem_scheme"
  assumes H: "MAX_PT_LEN H = NUM_PAGES_REGION1 H" and il: "text_pg1 lo + t_npg li \<le> data_pg1 lo"
    and room: "stack_npg lo + data_pg1 lo + data_npg lo < MAX_PT_LEN H"
    and t: "ptbr1 s = Some t" "page_tables s t = Some (rx_pages H (text_pg1 lo) (t_npg li) r)" "length r = MAX_PT_LEN H"
    and g: "\<forall>j \<in> program_pages H lo li. r ! j = rw_pte H (g j) \<and> g j < 2 ^ 24"
  shows "open_pages H (PROT_WRITE H) (rw_pages H lo) g s" "open_pages H (PROT_READ H) (rw_pages H lo) g s"
    "open_pages H (PROT_READ H) (program_pages H lo li) g s"
proof -
  let ?r = "rx_pages H (text_pg1 lo) (t_npg li) r"
  have p: "and (or (PROT_READ H) y) y = y" "and (or (PROT_READ H) y) (PROT_READ H) = PROT_READ H" for y
    by (simp_all add: and.commute or.commute)
  have N: "rw_pages H lo \<subseteq> program_pages H lo li" "program_pages H lo li \<subseteq> {..<NUM_PAGES_REGION1 H}"
    using il room H by (auto simp: rw_pages_def program_pages_def)
  have l: "length ?r = NUM_PAGES_REGION1 H" using t(3) H by simp
  have e: "j < length r" "r ! j = rw_pte H (g j)" "g j < 2 ^ 24" if "j \<in> program_pages H lo li" for j
    using g that N(2) t(3) H by auto
  have R: "?r ! j = rw_pte H (g j) \<and> g j < 2 ^ 24" if "j \<in> rw_pages H lo" for j
  proof -
    have "\<not> (text_pg1 lo \<le> j \<and> j < text_pg1 lo + t_npg li)" using that il room unfolding rw_pages_def by auto
    then show ?thesis using e [OF subsetD [OF N(1) that]] by (simp only: rx_pages_simps(2) if_False)
  qed
  show "open_pages H (PROT_WRITE H) (rw_pages H lo) g s" "open_pages H (PROT_READ H) (rw_pages H lo) g s"
    by (rule open_programI [OF t(1,2) l subset_trans [OF N]], use R p in \<open>simp add: rw_pte_def\<close>)+
  show "open_pages H (PROT_READ H) (program_pages H lo li) g s"
    by (rule open_programI [OF t(1,2) l N(2)]) (use e p in \<open>simp add: rw_pte_def\<close>)
qed

text \<open>From the first read to the end of \<open>LoadProgram\<close>.\<close>

lemma fill_region1_ok:
  fixes s :: "'a kstate_scheme"
  assumes H: "regions_ok H kb" "MAX_PT_LEN H = NUM_PAGES_REGION1 H" and lo: "lo = load_layout H li args"
    and im: "image_ok H lo li x" and fit: "args_fit H lo args" and room: "stack_npg lo + data_pg1 lo + data_npg lo < MAX_PT_LEN H"
    and N: "N = program_pages H lo li"
    and st: "pcbs s p = Some c" "region1_pt c = Some t" "ptbr1 s = Some t" "page_tables s t = Some r" "length r = MAX_PT_LEN H"
      "kbufs s b = Some (flat_args args)"
    and g: "inj_on g N" "\<forall>j \<in> N. r ! j = rw_pte H (g j) \<and> g j < 2 ^ 24"
  shows "\<exists>m l. fill_region1 H lo li x b p s = Some (SUCCESS H,
        s\<lparr>pmem := m, page_tables := (page_tables s)(t \<mapsto> rx_pages H (text_pg1 lo) (t_npg li) r), reg_log := l,
          pcbs := (pcbs s)(p \<mapsto> c\<lparr>user_context := (user_context c)\<lparr>uc_pc := entry li\<rparr>\<rparr>), kbufs := (kbufs s)(b := None)\<rparr>)
    \<and> program_image H lo li x args g m \<and> (\<forall>f i. f \<notin> g ` N \<longrightarrow> m f i = pmem s f i)"
proof -
  let ?P = "2 ^ PAGESHIFT H :: nat" and ?B = "unat (VMEM_1_BASE H)" and ?n = "unat (VMEM_1_LIMIT H - arg_cpp lo)"
  let ?R = "rw_pages H lo" and ?r = "rx_pages H (text_pg1 lo) (t_npg li) r"
  note seg = segments [OF H lo im fit room refl refl refl, folded N]
  have covd: "covers H N (data_pg1 lo * ?P) (id_npg li * ?P)" and
    covb: "covers H N (unat (id_end li) - ?B) (unat (ud_end li) - unat (id_end li))"
    using seg(6,7,14) by (auto simp: covers_def)
  have p: "and (or (PROT_READ H) (PROT_WRITE H)) (PROT_WRITE H) = PROT_WRITE H" "and (or (PROT_READ H) (PROT_WRITE H)) (PROT_READ H) = PROT_READ H"
    by (simp_all add: and.commute or.commute)
  have "open_pages H (PROT_WRITE H) N g s"
    by (rule open_programI [OF st(3,4)]) (use st(5) H(2) seg(15) g(2) p in \<open>simp_all add: rw_pte_def\<close>)
  from load_segments [OF H lo im fit room refl N this g(1)] obtain m1 m2 where
    m: "file_read H x (t_faddr li) (t_vaddr li) (t_npg li * ?P) s = Some (t_npg li * ?P, s\<lparr>pmem := m1\<rparr>)"
      "file_read H x (id_faddr li) (id_vaddr li) (id_npg li * ?P) (s\<lparr>pmem := m1\<rparr>) = Some (id_npg li * ?P, s\<lparr>pmem := m2\<rparr>)"
    and k1: "kept H N g (text_pg1 lo * ?P) (t_npg li * ?P) (pmem s) m1" and k2: "kept H N g (data_pg1 lo * ?P) (id_npg li * ?P) m1 m2"
    and w: "bytes_from H g m1 (text_pg1 lo * ?P) (t_npg li * ?P) = take (t_npg li * ?P) (drop (t_faddr li) (exe_bytes x))"
      "bytes_from H g m2 (data_pg1 lo * ?P) (id_npg li * ?P) = take (id_npg li * ?P) (drop (id_faddr li) (exe_bytes x))"
    by (elim exE conjE) (rule that)
  have il': "text_pg1 lo + t_npg li \<le> data_pg1 lo" using im by (simp only: image_ok_def)
  have il: "text_pg1 lo + t_npg li \<le> length r" using il' room st(5) by simp
  obtain l where pr: "protect_text H (Some t) (text_pg1 lo) (t_npg li) (s\<lparr>pmem := m2\<rparr>)
      = Some (s\<lparr>pmem := m2, page_tables := (page_tables s)(t \<mapsto> ?r), reg_log := l\<rparr>)"
    using protect_text_ok [of "s\<lparr>pmem := m2\<rparr>" t r, OF _ il] st(4) by auto
  define s2 where "s2 = s\<lparr>pmem := m2, page_tables := (page_tables s)(t \<mapsto> ?r), reg_log := l\<rparr>"
  have t2: "ptbr1 s2 = Some t" "page_tables s2 t = Some ?r" "length ?r = NUM_PAGES_REGION1 H" "pmem s2 = m2"
    using st(3,5) H(2) by (simp_all add: s2_def)
  note op = rx_open [OF H(2) il' room t2(1,2) st(5) g(2) [unfolded N]]
  obtain m3 m4 where
    m': "bzero H (id_end li) (ud_end li - id_end li) s2 = Some (s2\<lparr>pmem := m3\<rparr>)"
      "bzero H (id_end li) (ud_end li - id_end li) (s2\<lparr>pmem := m3\<rparr>) = Some (s2\<lparr>pmem := m4\<rparr>)" and
    k3: "kept H N g (unat (id_end li) - ?B) (unat (ud_end li) - unat (id_end li)) m2 m3"
      and k4: "kept H N g (unat (id_end li) - ?B) (unat (ud_end li) - unat (id_end li)) m3 m4"
    and w3: "bytes_from H g m4 (unat (id_end li) - ?B) (unat (ud_end li) - unat (id_end li)) = replicate (unat (ud_end li) - unat (id_end li)) 0"
    using clear_twice [OF H lo im fit room N refl refl op(1) g(1) refl, unfolded t2(4)] by (elim exE conjE) (rule that)
  define s4 where "s4 = s2\<lparr>pmem := m4, pcbs := (pcbs s)(p \<mapsto> c\<lparr>user_context := (user_context c)\<lparr>uc_pc := entry li\<rparr>\<rparr>)\<rparr>"
  have op4: "open_pages H (PROT_WRITE H) ?R g s4" "open_pages H (PROT_READ H) ?R g s4" "pmem s4 = m4"
    using op by (simp_all add: open_pages_def s4_def)
  obtain m5 where m5: "build_stack H lo (flat_args args) s4 = Some (s4\<lparr>pmem := m5\<rparr>)"
    and k5: "kept H N g (unat (arg_cpp lo) - ?B) ?n m4 m5"
    and w4: "bytes_from H g m5 (unat (arg_cpp lo) - ?B) ?n = args_block H args (arg_cpp lo) ?n"
    using write_arguments [OF H lo im fit room N refl refl op4(1,2) g(1) refl, unfolded op4(3)] by (elim exE conjE) (rule that)
  have img: "program_image H lo li x args g m5" and frame: "\<forall>f i. f \<notin> g ` N \<longrightarrow> m5 f i = pmem s f i"
  proof -
    note bl = blocks_written [OF k1 k2 k3 k4 k5 w w3 seg(5) covd covb seg(9-13)]
    show "\<forall>f i. f \<notin> g ` N \<longrightarrow> m5 f i = pmem s f i" by (rule bl(4))
    have le: "unat (id_end li) - unat (id_vaddr li) \<le> id_npg li * ?P"
      unfolding seg(3) [symmetric] using seg(11) by linarith
    show "program_image H lo li x args g m5"
      unfolding program_image_def Let_def using bl(1,3) bl(2) [unfolded seg(3)] w4 le by (simp add: min_absorb1)
  qed
  have run: "fill_region1 H lo li x b p s = Some (SUCCESS H, s4\<lparr>pmem := m5, kbufs := (kbufs s)(b := None)\<rparr>)"
    unfolding fill_region1_def
    using m pr [folded s2_def] m' m5 st by (simp add: s4_def s2_def upd_pcb_def)
  have "s4\<lparr>pmem := m5, kbufs := (kbufs s)(b := None)\<rparr> = s\<lparr>pmem := m5, page_tables := (page_tables s)(t \<mapsto> ?r), reg_log := l,
      pcbs := (pcbs s)(p \<mapsto> c\<lparr>user_context := (user_context c)\<lparr>uc_pc := entry li\<rparr>\<rparr>), kbufs := (kbufs s)(b := None)\<rparr>"
    by (simp add: s4_def s2_def)
  note run = run [unfolded this]
  show ?thesis by (rule exI [of _ m5], rule exI [of _ l], intro conjI run img frame)
qed

text \<open>What a program that starts in such a state can read.\<close>

lemma image_readable:
  fixes s :: "'a mem_scheme"
  assumes H: "regions_ok H kb" "MAX_PT_LEN H = NUM_PAGES_REGION1 H" and lo: "lo = load_layout H li args"
    and im: "image_ok H lo li x" and fit: "args_fit H lo args" and room: "stack_npg lo + data_pg1 lo + data_npg lo < MAX_PT_LEN H"
    and N: "N = program_pages H lo li" and P: "P = 2 ^ PAGESHIFT H"
    and op: "open_pages H (PROT_READ H) N g s" "open_pages H (PROT_WRITE H) (rw_pages H lo) g s" and inj: "inj_on g N"
    and img: "program_image H lo li x args g (pmem s)"
  shows "load_bytes H (t_vaddr li) (t_npg li * P) s = Some (take (t_npg li * P) (drop (t_faddr li) (exe_bytes x)))"
    "load_bytes H (id_vaddr li) (unat (id_end li) - unat (id_vaddr li)) s
      = Some (take (unat (id_end li) - unat (id_vaddr li)) (drop (id_faddr li) (exe_bytes x)))"
    "load_bytes H (id_end li) (unat (ud_end li) - unat (id_end li)) s = Some (replicate (unat (ud_end li) - unat (id_end li)) 0)"
    "load_int H (arg_cpp lo) s = Some (of_nat (length args))" "load_argv H (arg_cpp lo + 4) s = Some args"
proof -
  let ?B = "unat (VMEM_1_BASE H)" and ?n = "unat (VMEM_1_LIMIT H - arg_cpp lo)" and ?R = "rw_pages H lo"
  note seg = segments [OF H lo im fit room refl P refl, folded N]
  note img = img [unfolded program_image_def Let_def, folded P]
  have v: "unat (t_vaddr li) = ?B + text_pg1 lo * P" "unat (id_vaddr li) = ?B + data_pg1 lo * P" using im by (simp_all add: image_ok_def P)
  have cd: "covers H N (data_pg1 lo * P) (unat (id_end li) - unat (id_vaddr li))"
    unfolding covers_def
  proof (intro allI impI)
    fix k assume "k < unat (id_end li) - unat (id_vaddr li)"
    then have "k < id_npg li * P" using seg(3,11) by linarith
    then show "(data_pg1 lo * P + k) div 2 ^ PAGESHIFT H \<in> N" using seg(6,14) by (auto simp: covers_def)
  qed
  have cb: "covers H N (unat (id_end li) - ?B) (unat (ud_end li) - unat (id_end li))" and ca: "covers H N (unat (arg_cpp lo) - ?B) ?n"
    using seg(7,8,14) by (auto simp: covers_def)
  note ld = load_region1 [OF H(1) op(1)]
  show "load_bytes H (t_vaddr li) (t_npg li * P) s = Some (take (t_npg li * P) (drop (t_faddr li) (exe_bytes x)))"
    using ld [OF v(1) seg(5)] img by simp
  show "load_bytes H (id_vaddr li) (unat (id_end li) - unat (id_vaddr li)) s
      = Some (take (unat (id_end li) - unat (id_vaddr li)) (drop (id_faddr li) (exe_bytes x)))"
    using ld [OF v(2) cd] img by simp
  show "load_bytes H (id_end li) (unat (ud_end li) - unat (id_end li)) s = Some (replicate (unat (ud_end li) - unat (id_end li)) 0)"
    using ld [OF seg(1) cb] img by simp
  have f: "args_size args + (length args + 3 + POST_ARGV_NULL_SPACE H) * 4 \<le> unat (VMEM_1_LIMIT H)" "\<forall>b \<in> set args. 0 \<notin> set b"
    using fit by (simp_all add: args_fit_def)
  note lay = load_layout_block [OF lo refl f(1)]
  have "window H (arg_cpp lo) ?n (\<lambda>k. place H g ((unat (arg_cpp lo) - ?B) + k)) s"
    unfolding window_def by (intro conjI open_placed [OF H(1) op(2) seg(2,8)] open_placed [OF H(1) op(1) seg(2) ca] open_inj [OF inj ca])
  note w = read_args_block [OF this _ _ lay(2,3) _ f(2)]
  have "unat (VMEM_1_LIMIT H) < 2 ^ LENGTH(32)" by (rule unsigned_less)
  then have "unat (arg_cpp lo) + ?n < 2 ^ 32" using lay(1) by simp
  then show "load_int H (arg_cpp lo) s = Some (of_nat (length args))" "load_argv H (arg_cpp lo + 4) s = Some args"
    using w H(1) img by (simp_all add: regions_ok_def view_def bytes_from_at)
qed

section \<open>LoadProgram as a whole\<close>

lemma newly_mapped_frames:
  assumes nm: "newly_mapped H N t t' U (used_frames H s)" and le: "NUM_VPN H \<le> 2 ^ 24"
  obtains g where "inj_on g N" "g ` N \<inter> U = {}" "\<forall>j \<in> N. t' ! j = rw_pte H (g j) \<and> g j < 2 ^ 24" "length t' = length t"
proof -
  have "length t' = length t" and "\<exists>g. inj_on g N \<and> g ` N \<inter> U = {} \<and> used_frames H s = U \<union> g ` N \<and> (\<forall>j \<in> N. j < length t \<and> t' ! j = rw_pte H (g j))"
    using nm unfolding newly_mapped_def by simp_all
  then obtain g where g: "inj_on g N" "g ` N \<inter> U = {}" "used_frames H s = U \<union> g ` N" "\<forall>j \<in> N. j < length t \<and> t' ! j = rw_pte H (g j)"
    by (elim exE conjE) (rule that)
  have "g j < 2 ^ 24" if "j \<in> N" for j
  proof -
    have "g j \<in> used_frames H s" unfolding g(3) using that by simp
    then have "g j < NUM_VPN H" by (simp add: used_frames_def)
    then show ?thesis using le by simp
  qed
  with g(4) have "\<forall>j \<in> N. t' ! j = rw_pte H (g j) \<and> g j < 2 ^ 24" by simp
  from that [OF g(1,2) this \<open>length t' = length t\<close>] show ?thesis .
qed

text \<open>The run: page \<open>j\<close> of the new program is in frame \<open>g j\<close>.\<close>

lemma LoadProgram_run:
  fixes s :: "'a kstate_scheme"
  assumes H: "regions_ok H kb" "MAX_PT_LEN H = NUM_PAGES_REGION1 H" and inv: "frames_inv H s"
    and x: "exe_info x = Some li" "VMEM_1_BASE H \<le> entry li" and rd: "\<forall>P. rd (s\<lparr>pcbs := P\<rparr>) = Some args"
    and lo: "lo = load_layout H li args" and im: "image_ok H lo li x" and fit: "args_fit H lo args"
    and room: "stack_npg lo + data_pg1 lo + data_npg lo < MAX_PT_LEN H"
    and p: "pcbs s p = Some c" "region1_pt c = Some t" "ptbr1 s = Some t" "page_tables s t = Some r" "length r = MAX_PT_LEN H"
    and U: "U = used_frames H s - valid_frames r" "card U + (t_npg li + data_npg lo + stack_npg lo) \<le> NUM_VPN H"
  shows "\<exists>s' g r1. LoadProgram H (Some x) rd (Some b) p s = Some (SUCCESS H, s') \<and> inj_on g (program_pages H lo li)
    \<and> (\<forall>j \<in> program_pages H lo li. r1 ! j = rw_pte H (g j) \<and> g j < 2 ^ 24) \<and> length r1 = MAX_PT_LEN H
    \<and> page_tables s' = (page_tables s)(t \<mapsto> rx_pages H (text_pg1 lo) (t_npg li) r1) \<and> ptbr1 s' = Some t
    \<and> pcbs s' = (pcbs s)(p \<mapsto> c\<lparr>brk := push_bit (PAGESHIFT H) (word_of_nat (data_pg1 lo + data_npg lo)),
          user_context := (user_context c)\<lparr>uc_sp := new_sp lo, uc_pc := entry li\<rparr>\<rparr>)
    \<and> kbufs s' = (kbufs s)(b := None) \<and> program_image H lo li x args g (pmem s') \<and> (\<forall>f \<in> U. pmem s' f = pmem s f)"
proof -
  let ?N = "program_pages H lo li"
  have err: "ERROR H < 0" "NUM_VPN H \<le> 2 ^ 24" using H(1) hw_okD(1,7) by (auto simp: regions_ok_def)
  have seg: "text_pg1 lo + t_npg li \<le> data_pg1 lo" using im by (simp only: image_ok_def)
  define c1 where "c1 = c\<lparr>user_context := (user_context c)\<lparr>uc_sp := new_sp lo\<rparr>\<rparr>"
  define c2 where "c2 = c1\<lparr>brk := push_bit (PAGESHIFT H) (word_of_nat (data_pg1 lo + data_npg lo))\<rparr>"
  define s1 where "s1 = s\<lparr>pcbs := (pcbs s)(p \<mapsto> c1), kbufs := (kbufs s)(b \<mapsto> flat_args args)\<rparr>"
  have s1: "frames_inv H s1" "pcbs s1 p = Some c1" "region1_pt c1 = Some t" "page_tables s1 t = Some r"
    "U = used_frames H s1 - valid_frames r"
    using inv p U(1) by (simp_all add: s1_def c1_def frames_inv_def used_frames_def)
  obtain bm r1 where n: "new_region1 H lo li p s1 = Some (True, s1\<lparr>frame_bitMap := bm, page_tables := (page_tables s1)(t \<mapsto> r1),
        pcbs := (pcbs s1)(p \<mapsto> c2)\<rparr>)" "newly_mapped H ?N r r1 U (used_frames H (s1\<lparr>frame_bitMap := bm\<rparr>))"
    using new_region1_ok [OF s1(1) err(1) s1(2-4) p(5) seg room s1(5), folded c2_def] U(2) by (simp only: if_True) (elim exE conjE, rule that)
  define s2 where "s2 = WriteRegister W_TLB_FLUSH_1 (s1\<lparr>frame_bitMap := bm, page_tables := (page_tables s1)(t \<mapsto> r1), pcbs := (pcbs s1)(p \<mapsto> c2)\<rparr>)"
  have s2: "pcbs s2 = (pcbs s)(p \<mapsto> c2)" "page_tables s2 = (page_tables s)(t \<mapsto> r1)" "ptbr1 s2 = ptbr1 s"
    "pmem s2 = pmem s" "kbufs s2 = (kbufs s)(b \<mapsto> flat_args args)"
    by (simp_all add: s2_def s1_def WriteRegister_def Let_def)
  obtain g where g: "inj_on g ?N" "g ` ?N \<inter> U = {}" "\<forall>j \<in> ?N. r1 ! j = rw_pte H (g j) \<and> g j < 2 ^ 24" "length r1 = length r"
    by (rule newly_mapped_frames [OF n(2) err(2)])
  let ?r = "rx_pages H (text_pg1 lo) (t_npg li) r1" and ?c = "c2\<lparr>user_context := (user_context c2)\<lparr>uc_pc := entry li\<rparr>\<rparr>"
  have st: "pcbs s2 p = Some c2" "region1_pt c2 = Some t" "ptbr1 s2 = Some t" "page_tables s2 t = Some r1"
    "length r1 = MAX_PT_LEN H" "kbufs s2 b = Some (flat_args args)"
    using s2 p(2,3,5) g(4) by (simp_all add: c2_def c1_def)
  obtain m k where f: "fill_region1 H lo li x b p s2 = Some (SUCCESS H,
        s2\<lparr>pmem := m, page_tables := (page_tables s2)(t \<mapsto> ?r), reg_log := k, pcbs := (pcbs s2)(p \<mapsto> ?c), kbufs := (kbufs s2)(b := None)\<rparr>)"
    "program_image H lo li x args g m" "\<forall>f i. f \<notin> g ` ?N \<longrightarrow> m f i = pmem s2 f i"
    using fill_region1_ok [OF H lo im fit room refl st g(1,3)] by (elim exE conjE) (rule that)
  define s3 where "s3 = s2\<lparr>pmem := m, page_tables := (page_tables s2)(t \<mapsto> ?r), reg_log := k, pcbs := (pcbs s2)(p \<mapsto> ?c), kbufs := (kbufs s2)(b := None)\<rparr>"
  have rd': "rd s = Some args" "rd (s\<lparr>pcbs := (pcbs s)(p \<mapsto> c1)\<rparr>) = Some args"
    using rd [THEN spec, of "pcbs s"] rd by simp_all
  have run: "LoadProgram H (Some x) rd (Some b) p s = Some (SUCCESS H, s3)"
    unfolding LoadProgram_def using x(1) leD [OF x(2)] rd' room p(1) n(1) f(1) [folded s3_def]
    by (simp add: lo [symmetric] upd_pcb_def c1_def [symmetric] s1_def [symmetric] s2_def [symmetric])
  have "pmem s3 f = pmem s f" if "f \<in> U" for f
  proof -
    have "f \<notin> g ` ?N" using g(2) that by blast
    then show ?thesis using f(3) s2(4) by (simp add: s3_def fun_eq_iff)
  qed
  then have s3: "page_tables s3 = (page_tables s)(t \<mapsto> ?r)" "ptbr1 s3 = Some t" "kbufs s3 = (kbufs s)(b := None)"
    "pcbs s3 = (pcbs s)(p \<mapsto> c\<lparr>brk := push_bit (PAGESHIFT H) (word_of_nat (data_pg1 lo + data_npg lo)),
          user_context := (user_context c)\<lparr>uc_sp := new_sp lo, uc_pc := entry li\<rparr>\<rparr>)"
    "program_image H lo li x args g (pmem s3)" "\<forall>f \<in> U. pmem s3 f = pmem s f"
    using st(3) f(2) by (simp_all add: s3_def s2 c2_def c1_def)
  show ?thesis by (rule exI [of _ s3], rule exI [of _ g], rule exI [of _ r1]) (intro conjI run g(1,3) st(5) s3)
qed

text \<open>
  C32: What a successful \<open>LoadProgram\<close> leaves. For a well-formed file whose entry point is in
  Region 1, arguments that fit and enough frames, counting those the old program gives back,
  \<open>LoadProgram\<close> returns SUCCESS, and then, through the page table of the process: the text and the
  initialised data are those of the file, the uninitialised data are zero although whole pages are
  read over them, and \<open>main\<close> finds its argument count and, read the way \<open>Exec\<close> reads a vector,
  exactly its arguments. The text pages can be read and executed, the others read and written. The
  process is set to start at the entry point with the stack pointer below the arguments and its
  break at the end of the data, counted from the start of Region 1, the kernel's copy of the
  arguments has been freed, and no byte of a frame of any other process, or of the kernel, has changed.
\<close>

theorem program_loaded:
  fixes s :: "'a kstate_scheme"
  assumes H: "regions_ok H kb" "MAX_PT_LEN H = NUM_PAGES_REGION1 H" and inv: "frames_inv H s"
    and x: "exe_info x = Some li" "VMEM_1_BASE H \<le> entry li" and rd: "\<forall>P. rd (s\<lparr>pcbs := P\<rparr>) = Some args"
    and lo: "lo = load_layout H li args" and im: "image_ok H lo li x" and fit: "args_fit H lo args"
    and room: "stack_npg lo + data_pg1 lo + data_npg lo < MAX_PT_LEN H"
    and p: "pcbs s p = Some c" "region1_pt c = Some t" "ptbr1 s = Some t" "page_tables s t = Some r" "length r = MAX_PT_LEN H"
    and U: "U = used_frames H s - valid_frames r" "card U + (t_npg li + data_npg lo + stack_npg lo) \<le> NUM_VPN H"
    and P: "P = 2 ^ PAGESHIFT H"
  shows "\<exists>s' r'. LoadProgram H (Some x) rd (Some b) p s = Some (SUCCESS H, s')
    \<and> load_bytes H (t_vaddr li) (t_npg li * P) s' = Some (take (t_npg li * P) (drop (t_faddr li) (exe_bytes x)))
    \<and> load_bytes H (id_vaddr li) (unat (id_end li) - unat (id_vaddr li)) s'
        = Some (take (unat (id_end li) - unat (id_vaddr li)) (drop (id_faddr li) (exe_bytes x)))
    \<and> load_bytes H (id_end li) (unat (ud_end li) - unat (id_end li)) s' = Some (replicate (unat (ud_end li) - unat (id_end li)) 0)
    \<and> load_int H (arg_cpp lo) s' = Some (of_nat (length args)) \<and> load_argv H (arg_cpp lo + 4) s' = Some args
    \<and> page_tables s' = (page_tables s)(t \<mapsto> r')
    \<and> (\<forall>j \<in> program_pages H lo li. valid (r' ! j) \<and> prot (r' ! j)
          = or (PROT_READ H) (if text_pg1 lo \<le> j \<and> j < text_pg1 lo + t_npg li then PROT_EXEC H else PROT_WRITE H))
    \<and> pcbs s' = (pcbs s)(p \<mapsto> c\<lparr>brk := push_bit (PAGESHIFT H) (word_of_nat (data_pg1 lo + data_npg lo)),
          user_context := (user_context c)\<lparr>uc_sp := new_sp lo, uc_pc := entry li\<rparr>\<rparr>)
    \<and> kbufs s' = (kbufs s)(b := None) \<and> (\<forall>f \<in> U. pmem s' f = pmem s f)"
proof -
  let ?N = "program_pages H lo li" and ?a = "text_pg1 lo" and ?k = "t_npg li"
  obtain s' g r1 where s': "LoadProgram H (Some x) rd (Some b) p s = Some (SUCCESS H, s')" and g: "inj_on g ?N"
    "\<forall>j \<in> ?N. r1 ! j = rw_pte H (g j) \<and> g j < 2 ^ 24" "length r1 = MAX_PT_LEN H"
    and t: "page_tables s' = (page_tables s)(t \<mapsto> rx_pages H ?a ?k r1)" "ptbr1 s' = Some t"
    and c: "pcbs s' = (pcbs s)(p \<mapsto> c\<lparr>brk := push_bit (PAGESHIFT H) (word_of_nat (data_pg1 lo + data_npg lo)),
          user_context := (user_context c)\<lparr>uc_sp := new_sp lo, uc_pc := entry li\<rparr>\<rparr>)" "kbufs s' = (kbufs s)(b := None)"
    and img: "program_image H lo li x args g (pmem s')" and U': "\<forall>f \<in> U. pmem s' f = pmem s f"
    using LoadProgram_run [OF H inv x rd lo im fit room p U, where b = b] by (elim exE conjE) (rule that)
  have il: "?a + ?k \<le> data_pg1 lo" using im by (simp only: image_ok_def)
  have t': "page_tables s' t = Some (rx_pages H ?a ?k r1)" using t(1) by simp
  note op = rx_open [OF H(2) il room t(2) t' g(3,2)]
  have N: "?N \<subseteq> {..<length r1}" using segments(15) [OF H lo im fit room refl refl refl] H(2) g(3) by simp
  have "\<forall>j \<in> ?N. valid (rx_pages H ?a ?k r1 ! j) \<and> prot (rx_pages H ?a ?k r1 ! j)
      = or (PROT_READ H) (if ?a \<le> j \<and> j < ?a + ?k then PROT_EXEC H else PROT_WRITE H)"
    using g(2) N by (auto simp: rw_pte_def)
  then show ?thesis
    using s' image_readable [OF H lo im fit room refl P op(3,1) g(1) img] t(1) c U'
    by (intro exI [of _ s'] exI [of _ "rx_pages H ?a ?k r1"]) simp
qed

text \<open>
  The process of \<open>brk_kernel\<close> gets a program of a page of text, four bytes of initialised and
  twelve of uninitialised data, with the arguments \<open>A\<close> and \<open>BC\<close>.
\<close>

definition demo_program :: exe where
  "demo_program = \<lparr>exe_info = Some (demo_info\<lparr>id_end := 180\<rparr>), exe_bytes = map of_nat [100..<132]\<rparr>"

definition load_kernel :: kernel where
  "load_kernel = brk_kernel\<lparr>ptbr1 := Some 10\<rparr>"

lemma program_loaded_witness:
  "\<exists>s'. LoadProgram demo_hw (Some demo_program) (\<lambda>_. Some [[65], [66, 67]]) (Some 50) 1 load_kernel = Some (0, s')
     \<and> load_bytes demo_hw 176 4 s' = Some [116, 117, 118, 119] \<and> load_bytes demo_hw 180 12 s' = Some (replicate 12 0)
     \<and> load_int demo_hw 224 s' = Some 2 \<and> load_argv demo_hw 228 s' = Some [[65], [66, 67]]"
proof -
  let ?li = "demo_info\<lparr>id_end := 180\<rparr>" and ?args = "[[65], [66, 67]] :: u8 list list" and ?r = "demo_table 8 [5, 6]"
  define lo where "lo = load_layout demo_hw ?li ?args"
  have lo: "text_pg1 lo = 2" "data_pg1 lo = 3" "data_npg lo = 1" "stack_npg lo = 3" "arg_cpp lo = 224"
    by (simp_all add: lo_def load_layout_def Let_def args_size_def demo_info_def)
  have x: "exe_info demo_program = Some ?li" "VMEM_1_BASE demo_hw \<le> entry ?li" by (simp_all add: demo_program_def demo_info_def)
  have im: "image_ok demo_hw lo ?li demo_program" by (simp add: image_ok_def lo demo_info_def demo_program_def)
  have fit: "args_fit demo_hw lo ?args" by (simp add: args_fit_def lo args_size_def)
  have s: "pcbs load_kernel 1 = Some brk_pcb" "ptbr1 load_kernel = Some 10" "page_tables load_kernel 10 = Some ?r" "frames_inv demo_hw load_kernel"
    "used_frames demo_hw load_kernel = used_frames demo_hw brk_kernel"
    using brk_kernel_ok by (simp_all add: load_kernel_def frames_inv_def used_frames_def)
  have l: "length ?r = MAX_PT_LEN demo_hw" by (simp add: demo_table_def)
  have U: "card (used_frames demo_hw load_kernel - valid_frames ?r) + (t_npg ?li + data_npg lo + stack_npg lo) \<le> NUM_VPN demo_hw"
    unfolding s(5) lo using brk_kernel_frames [of ?r] by (simp add: demo_info_def)
  have P: "(16::nat) = 2 ^ PAGESHIFT demo_hw" and M: "MAX_PT_LEN demo_hw = NUM_PAGES_REGION1 demo_hw"
    and room: "stack_npg lo + data_pg1 lo + data_npg lo < MAX_PT_LEN demo_hw" by (simp_all add: lo demo_regions(2))
  have rd: "\<forall>P. (\<lambda>_. Some ?args) (load_kernel\<lparr>pcbs := P\<rparr>) = Some ?args" by simp
  from program_loaded [OF demo_regions(1) M s(4) x rd lo_def im fit room s(1) brk_kernel_ok(3) s(2,3) l refl U P, where b = 50]
  obtain s' where s': "LoadProgram demo_hw (Some demo_program) (\<lambda>_. Some ?args) (Some 50) 1 load_kernel = Some (SUCCESS demo_hw, s')"
    "load_bytes demo_hw (id_vaddr ?li) (unat (id_end ?li) - unat (id_vaddr ?li)) s'
      = Some (take (unat (id_end ?li) - unat (id_vaddr ?li)) (drop (id_faddr ?li) (exe_bytes demo_program)))"
    "load_bytes demo_hw (id_end ?li) (unat (ud_end ?li) - unat (id_end ?li)) s' = Some (replicate (unat (ud_end ?li) - unat (id_end ?li)) 0)"
    "load_int demo_hw (arg_cpp lo) s' = Some (of_nat (length ?args))" "load_argv demo_hw (arg_cpp lo + 4) s' = Some ?args"
    by (elim exE conjE) (rule that)
  have b: "take 4 (drop 16 (exe_bytes demo_program)) = [116, 117, 118, 119]"
    by (simp add: demo_program_def upt_rec)
  have i: "id_vaddr ?li = 176" "unat (id_end ?li) - unat (id_vaddr ?li) = 4" "id_faddr ?li = 16" "id_end ?li = 180"
    "unat (ud_end ?li) - unat (id_end ?li) = 12" by (simp_all add: demo_info_def)
  have "load_argv demo_hw 228 s' = Some ?args" using s'(5) unfolding lo by simp
  moreover have "load_int demo_hw 224 s' = Some 2" using s'(4) unfolding lo by simp
  ultimately show ?thesis using s'(1) s'(2) [unfolded i(1-3)] s'(3) [unfolded i(5), unfolded i(4)] by (intro exI [of _ s']) (simp add: b)
qed

end
