(* ===== verification/Boot_Mem.thy ===== *)
theory Boot_Mem
  imports Fork_Props Foundations
begin

text \<open>
  The Region 0 page table that \<open>init_region0_pageTable\<close> builds before virtual memory is on.
\<close>

section \<open>Identity mappings\<close>

text \<open>Page \<open>j\<close> of the range gets frame \<open>j\<close>, with protection \<open>P j\<close>; the frame is marked as used.\<close>

definition ident_table :: "(nat \<Rightarrow> 3 word) \<Rightarrow> nat \<Rightarrow> nat \<Rightarrow> pte list \<Rightarrow> pte list" where
  "ident_table P i b t = map (\<lambda>j. if i \<le> j \<and> j < b then \<lparr>valid = True, prot = P j, pfn = word_of_nat j\<rparr> else t ! j) [0..<length t]"

definition marked :: "nat \<Rightarrow> nat \<Rightarrow> int list \<Rightarrow> int list" where
  "marked i b m = map (\<lambda>j. if i \<le> j \<and> j < b then 1 else m ! j) [0..<length m]"

lemma ident_length [simp]: "length (ident_table P i b t) = length t" "length (marked i b m) = length m"
  by (simp_all add: ident_table_def marked_def)

lemma ident_nth [simp]:
  "j < length t \<Longrightarrow> ident_table P i b t ! j = (if i \<le> j \<and> j < b then \<lparr>valid = True, prot = P j, pfn = word_of_nat j\<rparr> else t ! j)"
  "j < length m \<Longrightarrow> marked i b m ! j = (if i \<le> j \<and> j < b then 1 else m ! j)"
  by (simp_all add: ident_table_def marked_def)

lemma ident_step:
  "i < b \<Longrightarrow> ident_table P (Suc i) b (t[i := \<lparr>valid = True, prot = P i, pfn = word_of_nat i\<rparr>]) = ident_table P i b t"
  "i < b \<Longrightarrow> marked (Suc i) b (m[i := 1]) = marked i b m"
  by (rule nth_equalityI; auto simp: nth_list_update le_less Suc_le_eq)+

lemma ident_done: "b \<le> i \<Longrightarrow> ident_table P i b t = t" "b \<le> i \<Longrightarrow> marked i b m = m"
  by (rule nth_equalityI; auto)+

lemma map_page_ident:
  assumes "i < length (region0_pt s)" "i < length (frame_bitMap s)" "i < 2 ^ 24"
  shows "map_page Region0 (int i) (int i) p s = Some (s\<lparr>region0_pt := (region0_pt s)[i := \<lparr>valid = True, prot = p, pfn = word_of_nat i\<rparr>],
    frame_bitMap := (frame_bitMap s)[i := 1]\<rparr>)"
proof -
  have "uint (word_of_nat i :: 24 word) = int i" using assms(3) by (simp add: unsigned_of_nat uint_nat_eq take_bit_nat_eq_self)
  moreover have e: "(region0_pt s ! i)\<lparr>valid := True, prot := p, pfn := word_of_nat i\<rparr> = \<lparr>valid = True, prot = p, pfn = word_of_nat i\<rparr>"
    by (cases "region0_pt s ! i") simp
  ultimately show ?thesis
    using assms(1,2) by (simp add: map_page_def Let_def pt_get_Region0 pt_set_Region0 set_frame_run e)
qed

text \<open>All pages below \<open>b\<close> are in the table, and their frames exist.\<close>

definition pages_exist :: "hw \<Rightarrow> u32 \<Rightarrow> nat \<Rightarrow> 'a mem_scheme \<Rightarrow> bool" where
  "pages_exist H n b s \<longleftrightarrow> b \<le> MAX_PT_LEN H \<and> b \<le> unat n \<and> b \<le> length (region0_pt s) \<and> b \<le> length (frame_bitMap s) \<and> b \<le> 2 ^ 24"

lemma pages_existD:
  assumes "pages_exist H n b s" "i < b"
  shows "\<not> int i \<ge> int (MAX_PT_LEN H)" "\<not> (word_of_int (int i) :: u32) \<ge> n" "i < length (region0_pt s)"
    "i < length (frame_bitMap s)" "i < 2 ^ 24"
proof -
  have "i < unat n" using assms by (simp add: pages_exist_def)
  moreover from this have "unat (word_of_nat i :: u32) = i" using unat_limit [of n] by (intro unat_of_nat_small) simp
  ultimately show "\<not> (word_of_int (int i) :: u32) \<ge> n" by (simp add: word_le_nat_alt)
qed (use assms in \<open>auto simp: pages_exist_def\<close>)

lemma map_kernel_loop_ok:
  fixes s :: "'a mem_scheme"
  assumes "pages_exist H n b s"
  shows "map_kernel_loop H n (int d) (int b) (int i) s = Some (s
    \<lparr>region0_pt := ident_table (\<lambda>j. if j < d then or (PROT_READ H) (PROT_EXEC H) else or (PROT_READ H) (PROT_WRITE H)) i b (region0_pt s),
     frame_bitMap := marked i b (frame_bitMap s)\<rparr>)"
  using assms
proof (induction "b - i" arbitrary: i s)
  case 0
  then show ?case by (simp add: map_kernel_loop.simps [of H n _ _ "int i"] ident_done)
next
  case (Suc k)
  let ?P = "\<lambda>j. if j < d then or (PROT_READ H) (PROT_EXEC H) else or (PROT_READ H) (PROT_WRITE H)"
  have ib: "i < b" using Suc.hyps(2) by simp
  note ex = pages_existD [OF Suc.prems ib]
  define s1 where "s1 = s\<lparr>region0_pt := (region0_pt s)[i := \<lparr>valid = True, prot = ?P i, pfn = word_of_nat i\<rparr>],
    frame_bitMap := (frame_bitMap s)[i := 1]\<rparr>"
  let ?s = "s\<lparr>region0_pt := (region0_pt s)[i := (region0_pt s ! i)\<lparr>valid := True\<rparr>]\<rparr>"
  have "map_page Region0 (int i) (int i) (?P i) ?s = Some s1"
    using map_page_ident [of i ?s "?P i"] ex(3-5) by (simp add: s1_def)
  then have st: "map_kernel_loop H n (int d) (int b) (int i) s = map_kernel_loop H n (int d) (int b) (int (Suc i)) s1"
    using ib ex(1-3) by (simp add: map_kernel_loop.simps [of H n _ _ "int i"] pt_get_Region0 pt_set_Region0 add.commute)
  have "k = b - Suc i" "pages_exist H n b s1" using Suc.hyps(2) Suc.prems by (simp_all add: pages_exist_def s1_def)
  note IH = Suc.hyps(1) [OF this]
  have r: "ident_table ?P (Suc i) b (region0_pt s1) = ident_table ?P i b (region0_pt s)"
    using ident_step(1) [OF ib, of ?P "region0_pt s"] by (simp add: s1_def)
  have m: "marked (Suc i) b (frame_bitMap s1) = marked i b (frame_bitMap s)" by (simp add: s1_def ident_step(2) [OF ib])
  show ?case unfolding st IH r m by (simp add: s1_def)
qed

lemma map_stack_loop_ok:
  fixes s :: "'a mem_scheme"
  assumes "pages_exist H n b s"
  shows "map_stack_loop H n (int b) (int i) s = Some (s
    \<lparr>region0_pt := ident_table (\<lambda>_. or (PROT_READ H) (PROT_WRITE H)) i b (region0_pt s), frame_bitMap := marked i b (frame_bitMap s)\<rparr>)"
  using assms
proof (induction "b - i" arbitrary: i s)
  case 0
  then show ?case by (simp add: map_stack_loop.simps [of H n _ "int i"] ident_done)
next
  case (Suc k)
  have ib: "i < b" using Suc.hyps(2) by simp
  note ex = pages_existD [OF Suc.prems ib]
  define s1 where "s1 = s\<lparr>region0_pt := (region0_pt s)[i := \<lparr>valid = True, prot = or (PROT_READ H) (PROT_WRITE H), pfn = word_of_nat i\<rparr>],
    frame_bitMap := (frame_bitMap s)[i := 1]\<rparr>"
  have st: "map_stack_loop H n (int b) (int i) s = map_stack_loop H n (int b) (int (Suc i)) s1"
    using ib ex(1,2) map_page_ident [OF ex(3-5), folded s1_def] by (simp add: map_stack_loop.simps [of H n _ "int i"] s1_def add.commute)
  have "k = b - Suc i" "pages_exist H n b s1" using Suc.hyps(2) Suc.prems by (simp_all add: pages_exist_def s1_def)
  note IH = Suc.hyps(1) [OF this]
  have r: "ident_table (\<lambda>_. or (PROT_READ H) (PROT_WRITE H)) (Suc i) b (region0_pt s1) = ident_table (\<lambda>_. or (PROT_READ H) (PROT_WRITE H)) i b (region0_pt s)"
    using ident_step(1) [OF ib, of "\<lambda>_. or (PROT_READ H) (PROT_WRITE H)" "region0_pt s"] by (simp add: s1_def)
  have m: "marked (Suc i) b (frame_bitMap s1) = marked i b (frame_bitMap s)" by (simp add: s1_def ident_step(2) [OF ib])
  show ?case unfolding st IH r m by (simp add: s1_def)
qed

section \<open>The table of Region 0\<close>

text \<open>
  The memory the kernel boots in: \<open>b\<close> is the first page after its heap, \<open>kb\<close> the first page of
  its stack; the table has its full length and there is a frame for each of these pages.
\<close>

definition boot_layout :: "hw \<Rightarrow> u32 \<Rightarrow> nat \<Rightarrow> nat \<Rightarrow> 'a mem_scheme \<Rightarrow> bool" where
  "boot_layout H pm b kb s \<longleftrightarrow> regions_ok H kb \<and> MAX_PT_LEN H = NUM_PAGES_REGION1 H \<and> MAX_PT_LEN H \<le> 2 ^ 24
     \<and> length (region0_pt s) = MAX_PT_LEN H \<and> b \<le> kb
     \<and> unat (KERNEL_STACK_LIMIT H) = (kb + kstack_pages H) * 2 ^ PAGESHIFT H
     \<and> kb + kstack_pages H \<le> MAX_PT_LEN H \<and> kb + kstack_pages H \<le> unat (pm div PAGESIZE H)"

lemma init_region0_ok:
  fixes s :: "'a mem_scheme"
  assumes b: "boot_layout H pm b kb s"
  shows "\<exists>l. init_region0_pageTable H True (int i) (int d) (int b) pm s = Some (s
    \<lparr>frame_bitMap := marked kb (kb + kstack_pages H) (marked i b ((replicate (unat (pm div PAGESIZE H)) 0)[0 := 1])),
     region0_pt := ident_table (\<lambda>_. or (PROT_READ H) (PROT_WRITE H)) kb (kb + kstack_pages H) (ident_table
       (\<lambda>j. if j < d then or (PROT_READ H) (PROT_EXEC H) else or (PROT_READ H) (PROT_WRITE H)) i b (region0_pt s)),
     reg_log := l\<rparr>)"
proof -
  note L = b [unfolded boot_layout_def]
  let ?n = "pm div PAGESIZE H" and ?e = "kb + kstack_pages H"
  let ?P = "\<lambda>j. if j < d then or (PROT_READ H) (PROT_EXEC H) else or (PROT_READ H) (PROT_WRITE H)"
  have "PAGESIZE H = 2 ^ PAGESHIFT H" "PAGESHIFT H < 32" using L by (auto simp: regions_ok_def dest: hw_okD(3,4))
  then have ps: "PAGESIZE H \<noteq> 0" using unat_power_small [of "PAGESHIFT H"] by (metis power_not_zero unat_0 power_strict_increasing one_less_numeral_iff semiring_norm(76) zero_neq_numeral)
  have n0: "0 < unat ?n" "0 < kb" using L by (simp_all add: regions_ok_def)
  define s0 where "s0 = s\<lparr>frame_bitMap := (replicate (unat ?n) 0)[0 := 1]\<rparr>"
  define s1 where "s1 = s0\<lparr>region0_pt := ident_table ?P i b (region0_pt s0), frame_bitMap := marked i b (frame_bitMap s0)\<rparr>"
  define s2 where "s2 = s1\<lparr>region0_pt := ident_table (\<lambda>_. or (PROT_READ H) (PROT_WRITE H)) kb ?e (region0_pt s1),
    frame_bitMap := marked kb ?e (frame_bitMap s1)\<rparr>"
  have e: "pages_exist H ?n b s0" "pages_exist H ?n ?e s1"
    using L by (simp_all add: pages_exist_def s1_def s0_def)
  have r0: "set_frame 0 1 (s\<lparr>frame_bitMap := replicate (unat ?n) 0\<rparr>) = Some s0"
    using set_frame_run [of 0 "s\<lparr>frame_bitMap := replicate (unat ?n) 0\<rparr>" 1] n0(1) by (simp add: s0_def)
  note r1 = map_kernel_loop_ok [OF e(1), of d i, folded s1_def] and r2 = map_stack_loop_ok [OF e(2), of kb, folded s2_def]
  have kb: "uint (ADDR_TO_PAGE_NUM H (KERNEL_STACK_BASE H)) = int kb" "uint (ADDR_TO_PAGE_NUM H (KERNEL_STACK_LIMIT H)) = int ?e"
    unfolding ADDR_TO_PAGE_NUM_def using L
    by (simp_all add: regions_ok_def page_of_addr(1) [where k = 0])
  show ?thesis
    unfolding init_region0_pageTable_def Let_def kb using ps r0 r1 r2
    by (intro exI [of _ "reg_log s @ [W_PTBR0, W_PTLR0 (VMEM_0_LIMIT H div PAGESIZE H)]"])
       (simp add: WriteRegister_def s2_def s1_def s0_def)
qed

text \<open>The pages of the kernel, and their protections.\<close>

definition kernel_page :: "hw \<Rightarrow> nat \<Rightarrow> nat \<Rightarrow> nat \<Rightarrow> nat \<Rightarrow> bool" where
  "kernel_page H i b kb j \<longleftrightarrow> i \<le> j \<and> j < b \<or> kb \<le> j \<and> j < kb + kstack_pages H"

definition kernel_prot :: "hw \<Rightarrow> nat \<Rightarrow> nat \<Rightarrow> 3 word" where
  "kernel_prot H d j = (if j < d then or (PROT_READ H) (PROT_EXEC H) else or (PROT_READ H) (PROT_WRITE H))"

lemma init_region0_table:
  fixes s :: "'a mem_scheme"
  assumes b: "boot_layout H pm b kb s" and d: "d \<le> b"
  shows "\<exists>s'. init_region0_pageTable H True (int i) (int d) (int b) pm s = Some s'
    \<and> (\<forall>j < MAX_PT_LEN H. region0_pt s' ! j = (if kernel_page H i b kb j
          then \<lparr>valid = True, prot = kernel_prot H d j, pfn = word_of_nat j\<rparr> else region0_pt s ! j))
    \<and> length (region0_pt s') = MAX_PT_LEN H \<and> length (frame_bitMap s') = unat (pm div PAGESIZE H)
    \<and> (\<forall>j < unat (pm div PAGESIZE H). frame_bitMap s' ! j \<noteq> 0 \<longleftrightarrow> j = 0 \<or> kernel_page H i b kb j)
    \<and> kernel_brk s' = kernel_brk s \<and> vm_enabled s' = vm_enabled s \<and> page_tables s' = page_tables s \<and> pmem s' = pmem s"
proof -
  note L = b [unfolded boot_layout_def]
  let ?P = "\<lambda>j. if j < d then or (PROT_READ H) (PROT_EXEC H) else or (PROT_READ H) (PROT_WRITE H)" and ?e = "kb + kstack_pages H"
  obtain l where "init_region0_pageTable H True (int i) (int d) (int b) pm s = Some (s
    \<lparr>frame_bitMap := marked kb ?e (marked i b ((replicate (unat (pm div PAGESIZE H)) 0)[0 := 1])),
     region0_pt := ident_table (\<lambda>_. or (PROT_READ H) (PROT_WRITE H)) kb ?e (ident_table ?P i b (region0_pt s)), reg_log := l\<rparr>)"
    (is "_ = Some ?s") using init_region0_ok [OF b] by blast
  moreover have "region0_pt ?s ! j = (if kernel_page H i b kb j
      then \<lparr>valid = True, prot = kernel_prot H d j, pfn = word_of_nat j\<rparr> else region0_pt s ! j)" if "j < MAX_PT_LEN H" for j
    using that L d by (auto simp: kernel_page_def kernel_prot_def)
  moreover have "frame_bitMap ?s ! j \<noteq> 0 \<longleftrightarrow> j = 0 \<or> kernel_page H i b kb j" if "j < unat (pm div PAGESIZE H)" for j
    using that by (auto simp: kernel_page_def nth_list_update)
  ultimately show ?thesis using L by (intro exI [of _ ?s]) simp
qed

lemma region0_addr:
  assumes "regions_ok H kb" "j < NUM_PAGES_REGION1 H"
  shows "unat (word_of_nat (j * 2 ^ PAGESHIFT H) :: u32) = j * 2 ^ PAGESHIFT H"
proof (rule unat_of_nat_small)
  have "j * 2 ^ PAGESHIFT H \<le> NUM_PAGES_REGION1 H * 2 ^ PAGESHIFT H" using assms(2) by (intro mult_le_mono1) simp
  also have "\<dots> = unat (VMEM_1_BASE H)" using assms(1) by (simp add: regions_ok_def)
  also have "\<dots> < 2 ^ 32" by (rule unat_limit)
  finally show "j * 2 ^ PAGESHIFT H < 2 ^ 32" .
qed

section \<open>Properties\<close>

text \<open>
  C28: The first page table maps exactly the kernel, each page to the frame of the same number, so
  that switching virtual memory on moves nothing: below the break the boot loader reports, the
  text pages are readable and executable, the data and heap pages and the kernel stack readable
  and writable; these frames and frame 0 are in use, all others are free. No other page of Region 0
  is accessible, in particular none that the heap has gained since the start, although the recorded
  break, which stays as it is, may lie above it.
\<close>

theorem kernel_identity_mapped:
  fixes s :: "'a mem_scheme"
  assumes "boot_layout H pm b kb s" "d \<le> b" "\<forall>e \<in> set (region0_pt s). \<not> valid e"
  shows "\<exists>s'. init_region0_pageTable H True (int i) (int d) (int b) pm s = Some s'
    \<and> (\<forall>j k need. j < NUM_PAGES_REGION1 H \<and> k < 2 ^ PAGESHIFT H \<longrightarrow>
         translate H need (word_of_nat (j * 2 ^ PAGESHIFT H) + word_of_nat k) (enable_virtual_memory s')
           = (if kernel_page H i b kb j \<and> and (kernel_prot H d j) need = need then Some (j, k) else None))
    \<and> (\<forall>j < unat (pm div PAGESIZE H). frame_bitMap s' ! j \<noteq> 0 \<longleftrightarrow> j = 0 \<or> kernel_page H i b kb j)
    \<and> kernel_brk s' = kernel_brk s \<and> pmem s' = pmem s"
proof -
  note L = assms(1) [unfolded boot_layout_def]
  obtain s' where s': "init_region0_pageTable H True (int i) (int d) (int b) pm s = Some s'"
    "\<forall>j < MAX_PT_LEN H. region0_pt s' ! j = (if kernel_page H i b kb j
          then \<lparr>valid = True, prot = kernel_prot H d j, pfn = word_of_nat j\<rparr> else region0_pt s ! j)"
    "length (region0_pt s') = MAX_PT_LEN H"
    "\<forall>j < unat (pm div PAGESIZE H). frame_bitMap s' ! j \<noteq> 0 \<longleftrightarrow> j = 0 \<or> kernel_page H i b kb j"
    "kernel_brk s' = kernel_brk s" "pmem s' = pmem s"
    using init_region0_table [OF assms(1,2), of i] by (elim exE conjE) (rule that)
  have "translate H need (word_of_nat (j * 2 ^ PAGESHIFT H) + word_of_nat k) (enable_virtual_memory s')
      = (if kernel_page H i b kb j \<and> and (kernel_prot H d j) need = need then Some (j, k) else None)"
    if j: "j < NUM_PAGES_REGION1 H" and k: "k < 2 ^ PAGESHIFT H" for j k need
  proof -
    have H: "regions_ok H kb" and jl: "j < MAX_PT_LEN H" "j < 2 ^ 24" using L j by simp_all
    have "\<not> valid (region0_pt s ! j)" using assms(3) L jl by simp
    moreover have "unat (word_of_nat j :: 24 word) = j" using jl(2) by (simp add: unsigned_of_nat take_bit_nat_eq_self)
    ultimately show ?thesis
      using translate_region0_eq [OF H region0_addr [OF H j] j _ k, of "enable_virtual_memory s'" need] s'(2,3) jl(1)
      by (simp add: enable_virtual_memory_def)
  qed
  then show ?thesis using s'(1,4-6) by blast
qed

text \<open>
  C29: The break starts as NULL and nothing sets it to the one the boot loader reports. So when the
  heap grows for the first time after virtual memory is on, \<open>SetKernelBrk\<close> counts from page 0: it
  succeeds, and every page of the kernel's text and data below the new break is then mapped, writable,
  to another frame that was free, and no longer to the frame that holds its contents.
\<close>

theorem first_break_unmaps_kernel:
  fixes s :: "'a mem_scheme"
  assumes "boot_layout H pm b kb s" "d \<le> b" "kernel_brk s = 0"
    "init_region0_pageTable H True (int i) (int d) (int b) pm s = Some s1" "NUM_VPN H \<le> unat (pm div PAGESIZE H)"
    "ADDR_TO_PAGE_NUM H (first_kernel_data_page H) \<le> ADDR_TO_PAGE_NUM H a" "brk_page H a < kb"
    "brk_page H a + card (used_frames H s1) \<le> NUM_VPN H" "i \<le> j" "j < b" "j < brk_page H a"
  shows "\<exists>s2 f. translate H (PROT_READ H) (word_of_nat (j * 2 ^ PAGESHIFT H)) s1 = Some (j, 0)
    \<and> SetKernelBrk H a (enable_virtual_memory s1) = Some (0, s2) \<and> region0_pt s2 ! j = rw_pte H f
    \<and> f \<noteq> j \<and> f \<notin> used_frames H s1"
proof -
  note L = assms(1) [unfolded boot_layout_def]
  let ?v = "enable_virtual_memory s1"
  have s1: "\<forall>j < MAX_PT_LEN H. region0_pt s1 ! j = (if kernel_page H i b kb j
          then \<lparr>valid = True, prot = kernel_prot H d j, pfn = word_of_nat j\<rparr> else region0_pt s ! j)"
    "length (region0_pt s1) = MAX_PT_LEN H" "length (frame_bitMap s1) = unat (pm div PAGESIZE H)"
    "\<forall>j < unat (pm div PAGESIZE H). frame_bitMap s1 ! j \<noteq> 0 \<longleftrightarrow> j = 0 \<or> kernel_page H i b kb j" "kernel_brk s1 = 0"
    using init_region0_table [OF assms(1,2), of i] assms(3,4) by auto
  have H: "regions_ok H kb" and hw: "hw_ok H" and j: "j < NUM_PAGES_REGION1 H" "j < MAX_PT_LEN H" "j < 2 ^ 24" "kernel_page H i b kb j"
    using L assms(9,10) by (simp_all add: regions_ok_def kernel_page_def)
  have "unat (KERNEL_STACK_BASE H) = kb * 2 ^ PAGESHIFT H + 0" using H by (simp add: regions_ok_def)
  then have "uint (drop_bit (PAGESHIFT H) (KERNEL_STACK_BASE H)) = int kb" by (rule page_of_addr(1)) simp
  then have kb: "unat (ADDR_TO_PAGE_NUM H (KERNEL_STACK_BASE H)) = kb"
    unfolding uint_nat_eq ADDR_TO_PAGE_NUM_def by (rule iffD1 [OF of_nat_eq_iff])
  have z: "ADDR_TO_PAGE_NUM H 0 = 0" by (simp add: ADDR_TO_PAGE_NUM_def)
  have "translate H (PROT_READ H) (word_of_nat (j * 2 ^ PAGESHIFT H) + word_of_nat 0) s1 = Some (unat (pfn (region0_pt s1 ! j)), 0)"
  proof (rule translate_region0 [OF H region0_addr [OF H j(1)] j(1)])
    show "and (prot (region0_pt s1 ! j)) (PROT_READ H) = PROT_READ H"
      using s1(1) j(2,4) by (auto simp: kernel_prot_def bit_eq_iff bit_simps)
  qed (use s1(1,2) j in simp_all)
  then have tr: "translate H (PROT_READ H) (word_of_nat (j * 2 ^ PAGESHIFT H)) s1 = Some (j, 0)"
    using s1(1) j(2,4) j(3) by (simp add: unsigned_of_nat take_bit_nat_eq_self)
  have k0: "used_frames H ?v = used_frames H s1" "region0_pt ?v = region0_pt s1" "brk_page H (kernel_brk ?v) = 0"
    using s1(5) z by (simp_all add: enable_virtual_memory_def used_frames_def)
  have inv: "mem_inv H ?v" "ERROR H < 0" "vm_enabled ?v \<noteq> 0"
    using s1(2,3) assms(5) L kb hw_okD(1) [OF hw] by (simp_all add: mem_inv_def frames_inv_def enable_virtual_memory_def)
  have hi: "ADDR_TO_PAGE_NUM H a < ADDR_TO_PAGE_NUM H (KERNEL_STACK_BASE H)" using assms(7) kb by (simp add: word_less_nat_alt)
  have up: "ADDR_TO_PAGE_NUM H (kernel_brk ?v) < ADDR_TO_PAGE_NUM H a" using assms(11) k0(3) by (simp add: word_less_nat_alt)
  have room: "brk_page H a \<le> NUM_VPN H - card (used_frames H s1)" using assms(8) by simp
  obtain fs s2 where s2: "SetKernelBrk H a ?v = Some (0, s2)" "length fs = brk_page H a" "set fs \<inter> used_frames H s1 = {}"
    "region0_pt s2 = take 0 (region0_pt s1) @ map (rw_pte H) fs @ drop (0 + length fs) (region0_pt s1)"
    using SetKernelBrk_grow [OF inv assms(6) hi up]
    unfolding k0 diff_zero if_P [OF room] min_absorb1 [OF room] by (elim exE conjE) (rule that)
  have "fs ! j \<in> set fs" using s2(2) assms(11) by (intro nth_mem) simp
  then have f: "fs ! j \<notin> used_frames H s1" using s2(3) by blast
  have t: "region0_pt s2 ! j = rw_pte H (fs ! j)" using s2(2,4) assms(11) by (simp add: nth_append)
  have "j < NUM_VPN H" using assms(8,11) by simp
  then have "j \<in> used_frames H s1" using s1(4) j(4) assms(5) by (simp add: used_frames_def)
  then show ?thesis using tr s2(1) t f by (intro exI [of _ s2] exI [of _ "fs ! j"]) auto
qed

text \<open>
  The small machine has 16 frames; the text is page 0, the data and heap are the pages 1 and 2,
  the stack the pages 6 and 7.
\<close>

definition cold_mem :: mem where
  "cold_mem = \<lparr>frame_bitMap = [], region0_pt = replicate 8 zero_pte, page_tables = Map.empty, vm_enabled = 0,
     kernel_brk = 0, ptbr1 = None, pmem = \<lambda>_ _. 0, reg_log = []\<rparr>"

lemma cold_mem_layout: "boot_layout demo_hw 256 3 6 cold_mem"
proof -
  have n: "NUM_PAGES_REGION1 demo_hw = 8" by (simp add: NUM_PAGES_REGION1_def)
  have "regions_ok demo_hw 6" unfolding regions_ok_def n by simp
  then show ?thesis by (simp add: boot_layout_def n cold_mem_def)
qed

lemma cold_mem_boot:
  obtains s1 where "init_region0_pageTable demo_hw True 0 1 3 256 cold_mem = Some s1"
    "used_frames demo_hw s1 = {0, 1, 2, 6, 7}"
proof -
  have "1 \<le> (3 :: nat)" by simp
  from init_region0_table [OF cold_mem_layout this, of 0] obtain s1 where
    s1: "init_region0_pageTable demo_hw True (int 0) (int 1) (int 3) 256 cold_mem = Some s1"
      "\<forall>j < unat (256 div PAGESIZE demo_hw :: u32). frame_bitMap s1 ! j \<noteq> 0 \<longleftrightarrow> j = 0 \<or> kernel_page demo_hw 0 3 6 j"
    by (elim exE conjE) (rule that)
  have "used_frames demo_hw s1 = {j. j < 16 \<and> (j = 0 \<or> kernel_page demo_hw 0 3 6 j)}"
    using s1(2) by (auto simp: used_frames_def)
  also have "\<dots> = {0, 1, 2, 6, 7}" by (auto simp: kernel_page_def)
  finally show thesis using s1(1) that by simp
qed

lemma kernel_identity_mapped_witness:
  "\<exists>s1. init_region0_pageTable demo_hw True 0 1 3 256 cold_mem = Some s1
     \<and> translate demo_hw 4 5 (enable_virtual_memory s1) = Some (0, 5)
     \<and> translate demo_hw 2 5 (enable_virtual_memory s1) = None
     \<and> translate demo_hw 1 50 (enable_virtual_memory s1) = None"
proof -
  have "1 \<le> (3 :: nat)" "\<forall>e \<in> set (region0_pt cold_mem). \<not> valid e" by (simp_all add: cold_mem_def zero_pte_def)
  from kernel_identity_mapped [OF cold_mem_layout this, of 0] obtain s1 where
    s1: "init_region0_pageTable demo_hw True (int 0) (int 1) (int 3) 256 cold_mem = Some s1"
    and tr: "\<forall>j k need. j < NUM_PAGES_REGION1 demo_hw \<and> k < 2 ^ PAGESHIFT demo_hw \<longrightarrow>
         translate demo_hw need (word_of_nat (j * 2 ^ PAGESHIFT demo_hw) + word_of_nat k) (enable_virtual_memory s1)
           = (if kernel_page demo_hw 0 3 6 j \<and> and (kernel_prot demo_hw 1 j) need = need then Some (j, k) else None)"
    by (elim exE conjE) (rule that)
  have n: "NUM_PAGES_REGION1 demo_hw = 8" by (simp add: NUM_PAGES_REGION1_def)
  show ?thesis
    using s1 tr [rule_format, of 0 5 4] tr [rule_format, of 0 5 2] tr [rule_format, of 3 2 1]
    by (intro exI [of _ s1]) (simp add: n kernel_page_def kernel_prot_def)
qed

lemma first_break_unmaps_kernel_witness:
  "\<exists>s1 s2 f. init_region0_pageTable demo_hw True 0 1 3 256 cold_mem = Some s1
     \<and> SetKernelBrk demo_hw 64 (enable_virtual_memory s1) = Some (0, s2) \<and> region0_pt s2 ! 0 = rw_pte demo_hw f \<and> f \<noteq> 0"
proof -
  obtain s1 where s1: "init_region0_pageTable demo_hw True 0 1 3 256 cold_mem = Some s1"
    "used_frames demo_hw s1 = {0, 1, 2, 6, 7}" by (rule cold_mem_boot)
  have p: "ADDR_TO_PAGE_NUM demo_hw 64 = 4" "ADDR_TO_PAGE_NUM demo_hw 1 = 0" by (simp_all add: ADDR_TO_PAGE_NUM_def)
  have "init_region0_pageTable demo_hw True (int 0) (int 1) (int 3) 256 cold_mem = Some s1" using s1(1) by simp
  moreover have "kernel_brk cold_mem = 0" by (simp add: cold_mem_def)
  ultimately obtain s2 f where "SetKernelBrk demo_hw 64 (enable_virtual_memory s1) = Some (0, s2)" "region0_pt s2 ! 0 = rw_pte demo_hw f" "f \<noteq> 0"
    using first_break_unmaps_kernel [OF cold_mem_layout, of 1 0 s1 64 0] s1(2) p by auto
  then show ?thesis using s1(1) by blast
qed

end
