(* ===== verification/Spec2Isabelle.thy ===== *)
theory Spec2Isabelle
  imports Foundations Boot Sys_Props Sync_Calls Trap_Props Fork_Sys Machine Exit_Props Boot_Props
    Load_Sys Boot_Mem
begin

text \<open>
  A model of the Yalnix kernel under \<open>src/\<close> and what it guarantees.

  THE PROGRAM. The kernel manages physical frames (\<open>frames.c\<close>) and page tables
  (\<open>memory.c\<close>), processes and their queues (\<open>pcb.c\<close>, on the intrusive lists of \<open>list.c\<close>),
  switches between processes (\<open>context_switch.c\<close>, \<open>schedule\<close> of \<open>syscalls.c\<close>), loads programs
  (\<open>load_program.c\<close>), answers traps (\<open>traps.c\<close>) and system calls (\<open>syscalls.c\<close>), provides
  pipes, locks and condition variables (\<open>sync.c\<close>), and boots (\<open>kernel.c\<close>). A trap enters
  its handler with the user context; the handler may call \<open>schedule\<close>, which saves that context
  in the control block of the running process and switches, and then returns to the user mode
  of whatever process has become the running one.

  CONVENTIONS. An operation returns an \<open>option\<close>: \<open>None\<close> is undefined behaviour (NULL or freed
  memory followed, an array left, a wrong union member read, a page fault of the kernel) or,
  for the \<open>partial_function\<close>s, a loop without end; every error the code reports is a value.
  \<open>unsigned int\<close> is \<open>32 word\<close>, page table entry fields have their hardware width, and
  \<open>int\<close>s that cannot overflow under the stated bounds are \<open>int\<close>; the run time of a process,
  which can, is undefined beyond \<open>INT_MAX\<close>. What the hardware, the
  framework and the linker fix is the record \<open>hw\<close> (page size, bounds of the regions, call
  numbers, error codes); what \<open>malloc\<close>, the file system and \<open>KernelContextSwitch\<close> decide is
  the record \<open>env\<close>. Both are arguments of the operations.
  The state is one record that grows by extension, theory by theory: \<open>frame_bitMap\<close>
  (\<open>frames\<close>), page tables, physical memory and registers (\<open>mem\<close>), control blocks, lists and
  kernel buffers (\<open>kstate\<close>), synchronisation objects (\<open>sstate\<close>), the tables of handlers
  (\<open>kernel\<close>). An operation is typed on the least record it needs.

  THE THEORIES, from the bottom up; properties are the theorems with a claim number.
  \<^item> \<open>Prelude\<close>: result plumbing, array access, the constants, lemmas on words and lists.
  \<^item> \<open>Queue_Store\<close>: the contract (locale) of a store of disjoint queues. \<open>DList\<close>: \<open>list.c\<close>,
    pointer by pointer; \<open>lists_ok h Q\<close> relates the heap to sequences, and the interpretation
    of \<open>queue_store\<close> gives the laws the scheduler and the waiting lists rest on; \<open>unlinked\<close>,
    \<open>list_gone\<close> and \<open>same_nodes\<close> say what clearing and destroying a list leaves behind.
  \<^item> \<open>Frames\<close>: \<open>frames.c\<close> with the contract \<open>frame_pool\<close> and its interpretation, and
    \<open>frame_run\<close>, any interleaving of requests and releases.
    \<open>Memory\<close>: \<open>memory.c\<close>, address translation, loads and stores. \<open>Bytes\<close>: runs of bytes that
    cross pages. \<open>Foundations\<close>: the properties of these layers.
  \<^item> \<open>Pcb\<close>: \<open>pcb.h\<close>, \<open>pcb.c\<close>; \<open>sched_inv\<close> says that every process is in exactly the queue
    its state names and nowhere else. \<open>Process\<close>: every queue operation keeps it; the delay
    clock; children. \<open>Creation\<close>: the invariant is established at boot and kept by \<open>create_pcb\<close>.
    \<open>Release\<close>: what the end of a process gives back.
  \<^item> \<open>Sync_Ids\<close>: identifiers, creation, lookup, reclamation. \<open>Lock\<close>: locks, condition
    variables, and the runs (\<open>inductive\<close>) on which a lock refines an owner and a queue.
    \<open>Pipe\<close>: pipes, with the contract \<open>byte_fifo\<close> of the ring buffer; \<open>Pipe_Drain\<close>: the mutual
    recursion of the two drain functions as a stream of bytes, with its termination measure;
    \<open>Pipe_Props\<close>: read and write as operations on that stream.
  \<^item> \<open>Context\<close>: \<open>context_switch.c\<close>. \<open>Loader\<close>: \<open>load_program.c\<close>. \<open>Sched\<close>: \<open>schedule\<close> and the rest
    of a handler after it. \<open>Syscalls\<close>, \<open>Traps\<close>, \<open>Boot\<close>: the other functions of \<open>syscalls.c\<close>,
    \<open>traps.c\<close> and \<open>kernel.c\<close>.
  \<^item> \<open>Sched_Props\<close>, \<open>Sys_Props\<close>: who runs next, with which stack and tables; the clock and
    Delay. \<open>Sync_Calls\<close>: the calls on synchronisation objects as the user sees them.
    \<open>Trap_Props\<close>: dispatch. \<open>Brk_Props\<close>: new pages and Brk. \<open>Fork_Props\<close>: the copy of an address
    space. \<open>Fork_Sys\<close>: the copy of the kernel stack, and Fork as a whole. \<open>Boot_Mem\<close>: the
    first page table and the first growth of the heap. \<open>Load_Props\<close>, \<open>Args_Props\<close>: the page
    table and the argument block of a new program. \<open>Load_Sys\<close>: Region 1 as one run of bytes,
    and \<open>LoadProgram\<close> as a whole. \<open>Exit_Props\<close>: Exit, the faults
    that end a process, Wait.
    \<open>Boot_Props\<close>: the two returns of \<open>KernelStart\<close>. \<open>Machine\<close>: runs of clock ticks and of the
    calls Delay, GetPid and the unimplemented ones, with the number of their ticks.

  KERNEL CONTEXTS. \<open>KernelContextSwitch\<close> returns a second time, in another process. A saved
  context is therefore a value of \<open>kcont\<close>, the point in the source where the call was made
  with the local variables that are read afterwards; \<open>schedule\<close> ends in the context to
  continue, \<open>resume\<close> runs it, and \<open>complete\<close> follows a handler through to user mode.

  LOOPS. Loops with a fixed number of iterations recurse on those left, so they end by
  construction. Loops up to a bound (\<open>alloc_scan\<close>, \<open>grow_loop\<close>, \<open>shrink_loop\<close>, the mapping of
  the kernel's pages, \<open>new_id_loop\<close>, the loops over pipe bytes, \<open>brk_grow\<close>, \<open>brk_shrink\<close>) are
  functions with measures; where the index is unsigned the measure takes wrap-around into
  account. Walks along lists, \<open>drain\<close> and the walk over a string are \<open>partial_function\<close>s, and
  that they return is part of what the properties about them state. No fuel is used.

  NOT MODELLED. The text printed by \<open>TracePrintf\<close>; \<open>SysTtyRead\<close>, \<open>SysTtyWrite\<close> and the terminal traps
  beyond their empty bodies; \<open>DoIdle\<close>, which only pauses in user mode; \<open>SyncDestroyPipe\<close>,
  whose body is empty; the programs under \<open>test/\<close>. Frames of the kernel's own
  stack are part of physical memory, but the C variables on them are the arguments of the
  definitions. There is no TLB: \<open>translate\<close> reads the page tables themselves, and flushes are
  only logged, so that a missing flush would not be seen. Which pages the C library asks \<open>SetKernelBrk\<close> for
  is not modelled, only the results of \<open>malloc\<close>.

  OPEN. All operations are modelled; these compositions have no theorem: \<open>KernelStart\<close> as a
  whole (its queues, its page table and its end have), and runs of \<open>Machine\<close> in which processes are created,
  end, or wait for synchronisation objects.
\<close>

end
